(* ===== verification/Prelude.thy ===== *)
theory Prelude
  imports Main "HOL-Library.Word"
begin

text \<open>
  What every component of the development shares: the machine integers of the target
  \<^verbatim>\<open>riscv32im-unknown-none-elf\<close> (so \<^verbatim>\<open>usize\<close> has 32 bits), the two build profiles, the
  ways a Rust program can panic, the state-and-panic programs the components are written in,
  the checked arithmetic of the language, and arithmetic lemmas on words and alignments.

  A program of type \<open>('s, 'a) prog\<close> takes the state and returns \<open>Ret x s'\<close> (a value and the new
  state), \<open>Panics e\<close> (the Rust panic \<open>e\<close>) or \<open>Hangs\<close> (a loop that never returns, such as the
  \<^verbatim>\<open>loop {}\<close> of the mutex). Loops without a bound known in advance are partial functions in the
  option mode, for which \<open>Hangs\<close> is the least value; that such a loop returns is always proved.
\<close>

unbundle bit_operations_syntax

named_theorems prog_simps "unfolding a program on a state"
named_theorems run_simps "the value of a finished program on a state"
named_theorems code_defs "definitions of small operations, safe to unfold"

section \<open>Machine integers and build profiles\<close>

type_synonym u8 = "8 word"
type_synonym u16 = "16 word"
type_synonym u32 = "32 word"
type_synonym usize = "32 word"

text \<open>
  \<open>Dev\<close> is a build with overflow checks and debug assertions, \<open>Release\<close> the one the top-level
  \<^verbatim>\<open>Makefile\<close> packages: arithmetic wraps and \<^verbatim>\<open>debug_assert!\<close> does nothing.
\<close>

datatype profile = Dev | Release

datatype panic =
    ArithmeticOverflow
  | AssertFailed string
  | DebugAssertFailed string
  | UnwrapNone
  | UnwrapErr
  | ExpectNone string
  | ExplicitPanic string
  | IndexOutOfBounds
  | NullReference

section \<open>Programs\<close>

type_synonym ('s, 'a) prog = "'s \<Rightarrow> (panic + 'a \<times> 's) option"

abbreviation Ret :: "'a \<Rightarrow> 's \<Rightarrow> (panic + 'a \<times> 's) option" where
  "Ret x s \<equiv> Some (Inr (x, s))"

abbreviation Panics :: "panic \<Rightarrow> (panic + 'a \<times> 's) option" where
  "Panics e \<equiv> Some (Inl e)"

abbreviation Hangs :: "(panic + 'a \<times> 's) option" where
  "Hangs \<equiv> None"

definition ret :: "'a \<Rightarrow> ('s, 'a) prog" where
  [prog_simps]: "ret x = (\<lambda>s. Ret x s)"

definition panic :: "panic \<Rightarrow> ('s, 'a) prog" where
  [prog_simps]: "panic e = (\<lambda>s. Panics e)"

definition hang :: "('s, 'a) prog" where
  [prog_simps]: "hang = (\<lambda>s. Hangs)"

definition bind :: "('s, 'a) prog \<Rightarrow> ('a \<Rightarrow> ('s, 'b) prog) \<Rightarrow> ('s, 'b) prog" where
  [prog_simps]: "bind f g = (\<lambda>s. case f s of
       None \<Rightarrow> None
     | Some r \<Rightarrow> (case r of Inl e \<Rightarrow> Panics e | Inr xs \<Rightarrow> g (fst xs) (snd xs)))"

definition gets :: "('s \<Rightarrow> 'a) \<Rightarrow> ('s, 'a) prog" where
  [prog_simps]: "gets f = (\<lambda>s. Ret (f s) s)"

definition modify :: "('s \<Rightarrow> 's) \<Rightarrow> ('s, unit) prog" where
  [prog_simps]: "modify f = (\<lambda>s. Ret () (f s))"

text \<open>\<^verbatim>\<open>assert!\<close> in every build, \<^verbatim>\<open>debug_assert!\<close> in the development build only.\<close>

definition assert_that :: "bool \<Rightarrow> string \<Rightarrow> ('s, unit) prog" where
  [prog_simps]: "assert_that c msg = (if c then ret () else panic (AssertFailed msg))"

definition debug_assert :: "profile \<Rightarrow> bool \<Rightarrow> string \<Rightarrow> ('s, unit) prog" where
  [prog_simps]: "debug_assert b c msg =
     (if b = Dev \<and> \<not> c then panic (DebugAssertFailed msg) else ret ())"

definition unwrap_option :: "'a option \<Rightarrow> ('s, 'a) prog" where
  [prog_simps]: "unwrap_option v = (case v of None \<Rightarrow> panic UnwrapNone | Some x \<Rightarrow> ret x)"

definition expect_option :: "'a option \<Rightarrow> string \<Rightarrow> ('s, 'a) prog" where
  [prog_simps]: "expect_option v msg = (case v of None \<Rightarrow> panic (ExpectNone msg) | Some x \<Rightarrow> ret x)"

lemma bind_mono [partial_function_mono]:
  assumes "\<And>s. mono_option (\<lambda>f. B f s)" and "\<And>x s. mono_option (\<lambda>f. C x f s)"
  shows "mono_option (\<lambda>f. bind (B f) (\<lambda>x. C x f) s)"
proof -
  have "bind (B f) (\<lambda>x. C x f) s =
      Option.bind (B f s) (\<lambda>r. case r of Inl e \<Rightarrow> Panics e | Inr xs \<Rightarrow> C (fst xs) f (snd xs))" for f
    by (simp add: bind_def split: option.split)
  moreover have "mono_option (\<lambda>f. case r of Inl e \<Rightarrow> Panics e | Inr xs \<Rightarrow> C (fst xs) f (snd xs))" for r
    by (cases r) (auto intro: assms option.const_mono)
  ultimately show ?thesis
    by (simp add: bind_mono assms(1))
qed

text \<open>The laws of sequencing, which let the simplifier run a program without unfolding it.\<close>

lemma bind_ret [simp]: "bind (ret x) g = g x"
  by (simp add: bind_def ret_def)

lemma bind_panic [simp]: "bind (panic e) g = panic e"
  by (simp add: bind_def panic_def)

lemma bind_bind [simp]: "bind (bind f g) h = bind f (\<lambda>x. bind (g x) h)"
  by (simp add: bind_def fun_eq_iff split: option.split sum.split)

lemma ret_apply [run_simps]: "ret x s = Ret x s"
  by (simp add: ret_def)

lemma panic_apply [run_simps]: "panic e s = Panics e"
  by (simp add: panic_def)

lemma gets_apply [run_simps]: "gets f s = Ret (f s) s"
  by (simp add: gets_def)

lemma modify_apply [run_simps]: "modify f s = Ret () (f s)"
  by (simp add: modify_def)

lemma bind_Ret: "f s = Ret x s' \<Longrightarrow> bind f g s = g x s'"
  by (simp add: bind_def)

lemma bind_Panics: "f s = Panics e \<Longrightarrow> bind f g s = Panics e"
  by (simp add: bind_def)

lemma bind_gets [simp]: "bind (gets f) g s = g (f s) s"
  by (simp add: bind_def gets_def)

lemma bind_modify [simp]: "bind (modify f) g s = g () (f s)"
  by (simp add: bind_def modify_def)

lemma assert_that_True [simp]: "c \<Longrightarrow> assert_that c msg = ret ()"
  by (simp add: assert_that_def)

lemma assert_that_False [simp]: "\<not> c \<Longrightarrow> assert_that c msg = panic (AssertFailed msg)"
  by (simp add: assert_that_def)

lemma debug_assert_True [simp]: "c \<Longrightarrow> debug_assert b c msg = ret ()"
  by (simp add: debug_assert_def)

lemma unwrap_Some [simp]: "unwrap_option (Some x) = ret x"
  and unwrap_None [simp]: "unwrap_option None = panic UnwrapNone"
  by (simp_all add: unwrap_option_def)

lemma expect_Some [simp]: "expect_option (Some x) msg = ret x"
  and expect_None [simp]: "expect_option None msg = panic (ExpectNone msg)"
  by (simp_all add: expect_option_def)

section \<open>Checked arithmetic\<close>

text \<open>\<^verbatim>\<open>+\<close>, \<^verbatim>\<open>-\<close>, \<^verbatim>\<open>*\<close> on \<^verbatim>\<open>usize\<close>: a panic on overflow in the development build, wrap-around in release.\<close>

definition usize_add :: "profile \<Rightarrow> usize \<Rightarrow> usize \<Rightarrow> ('s, usize) prog" where
  "usize_add b x y =
     (if b = Dev \<and> 2 ^ 32 \<le> unat x + unat y then panic ArithmeticOverflow else ret (x + y))"

definition usize_sub :: "profile \<Rightarrow> usize \<Rightarrow> usize \<Rightarrow> ('s, usize) prog" where
  "usize_sub b x y =
     (if b = Dev \<and> unat x < unat y then panic ArithmeticOverflow else ret (x - y))"

definition usize_mul :: "profile \<Rightarrow> usize \<Rightarrow> usize \<Rightarrow> ('s, usize) prog" where
  "usize_mul b x y =
     (if b = Dev \<and> 2 ^ 32 \<le> unat x * unat y then panic ArithmeticOverflow else ret (x * y))"

lemma usize_add_ok [simp]: "unat x + unat y < 2 ^ 32 \<Longrightarrow> usize_add b x y = ret (x + y)"
  by (simp add: usize_add_def)

lemma usize_sub_ok [simp]: "unat y \<le> unat x \<Longrightarrow> usize_sub b x y = ret (x - y)"
  by (simp add: usize_sub_def)

lemma usize_mul_ok [simp]: "unat x * unat y < 2 ^ 32 \<Longrightarrow> usize_mul b x y = ret (x * y)"
  by (simp add: usize_mul_def)

text \<open>A release build never panics in arithmetic.\<close>

lemma usize_add_fits: "b = Release \<or> unat x + unat y < 2 ^ 32 \<Longrightarrow> usize_add b x y = ret (x + y)"
  by (auto simp: usize_add_def)

section \<open>Words read as natural numbers\<close>

lemma unat_add_32: "unat (x::usize) + unat y < 2 ^ 32 \<Longrightarrow> unat (x + y) = unat x + unat y"
  by (simp add: unat_word_ariths)

lemma unat_sub_32: "unat (y::usize) \<le> unat x \<Longrightarrow> unat (x - y) = unat x - unat y"
  by (simp add: unat_sub word_le_nat_alt)

lemma unat_usize_lt [simp]: "unat (x::usize) < 4294967296"
  using unsigned_less [of x] by simp

lemma unat_word_of_nat [simp]: "x < 4294967296 \<Longrightarrow> unat (word_of_nat x :: usize) = x"
  by (simp add: unsigned_of_nat take_bit_nat_eq_self)

lemma word_of_nat_inject [simp]:
  "x < 4294967296 \<Longrightarrow> y < 4294967296 \<Longrightarrow> (word_of_nat x :: usize) = word_of_nat y \<longleftrightarrow> x = y"
  by (metis unat_word_of_nat)

lemma word_of_nat_less_iff [simp]:
  "x < 4294967296 \<Longrightarrow> y < 4294967296 \<Longrightarrow> (word_of_nat x :: usize) < word_of_nat y \<longleftrightarrow> x < y"
  by (simp add: word_less_nat_alt)

lemma word_of_nat_le_iff [simp]:
  "x < 4294967296 \<Longrightarrow> y < 4294967296 \<Longrightarrow> (word_of_nat x :: usize) \<le> word_of_nat y \<longleftrightarrow> x \<le> y"
  by (simp add: word_le_nat_alt)

lemma word_of_nat_eq_0 [simp]: "x < 4294967296 \<Longrightarrow> (word_of_nat x :: usize) = 0 \<longleftrightarrow> x = 0"
  using word_of_nat_inject [of x 0] by simp

lemma word_of_nat_diff: "y \<le> x \<Longrightarrow> (word_of_nat x :: usize) - word_of_nat y = word_of_nat (x - y)"
  by simp

lemma unat_usize_le: "unat (x::usize) \<le> 4294967295"
  using unat_usize_lt [of x] by linarith

lemma disjoint_intervals:
  assumes "{a..<a + s} \<inter> {b..<b + t} = {}" and "0 < s" and "0 < t"
  shows "a + s \<le> b \<or> b + t \<le> (a::nat)"
proof (rule ccontr)
  assume "\<not> (a + s \<le> b \<or> b + t \<le> a)"
  then have "max a b \<in> {a..<a + s} \<inter> {b..<b + t}"
    using assms(2,3) by auto
  then show False
    using assms(1) by blast
qed

end
