(* ===== verification/HoleLayout.thy ===== *)
theory HoleLayout
  imports Prelude
begin

text \<open>
  Alignment arithmetic and layouts: the three helpers at the top of \<^verbatim>\<open>rust/src/hole.rs\<close>, the
  standard library's \<^verbatim>\<open>Layout\<close> and \<^verbatim>\<open>align_offset\<close> as far as the allocator uses them, and
  \<^verbatim>\<open>HoleList::align_layout\<close>. The lemmas read them on natural numbers.
\<close>

section \<open>The standard library's part\<close>

definition count_ones :: "usize \<Rightarrow> nat" where
  "count_ones w = length (filter (bit w) [0..<32])"

definition is_power_of_two :: "usize \<Rightarrow> bool" where
  "is_power_of_two w \<longleftrightarrow> count_ones w = 1"

record Layout =
  lsize :: usize
  lalign :: usize

datatype LayoutError = LayoutError

definition max_size_for_align :: "usize \<Rightarrow> usize" where
  "max_size_for_align align = 0x80000000 - align"

definition from_size_align :: "usize \<Rightarrow> usize \<Rightarrow> LayoutError + Layout" where
  "from_size_align sz align =
     (if is_power_of_two align \<and> sz \<le> max_size_for_align align
      then Inr \<lparr>lsize = sz, lalign = align\<rparr> else Inl LayoutError)"

text \<open>The type invariant of \<^verbatim>\<open>Layout\<close>, which its constructors check.\<close>

definition layout_ok :: "Layout \<Rightarrow> bool" where
  "layout_ok l \<longleftrightarrow> is_power_of_two (lalign l) \<and> lsize l \<le> max_size_for_align (lalign l)"

text \<open>
  \<^verbatim>\<open><*mut u8>::align_offset\<close>: how many bytes to the next multiple of a power of two, and a panic
  for any other alignment.
\<close>

definition align_offset :: "usize \<Rightarrow> usize \<Rightarrow> ('s, usize) prog" where
  "align_offset addr align =
     (if is_power_of_two align then ret ((align - addr mod align) mod align)
      else panic (ExplicitPanic ''align_offset: align is not a power-of-two''))"

section \<open>Alignment helpers of the allocator\<close>

definition size_of_usize :: usize where "size_of_usize = 4"
definition size_of_Hole :: usize where "size_of_Hole = 8"
definition align_of_Hole :: usize where "align_of_Hole = 4"

definition align_down_size :: "usize \<Rightarrow> usize \<Rightarrow> ('s, usize) prog" where
  "align_down_size sz align =
     (if is_power_of_two align then ret (sz AND NOT (align - 1))
      else if align = 0 then ret sz
      else panic (ExplicitPanic ''`align` must be a power of 2''))"

definition align_up_size :: "profile \<Rightarrow> usize \<Rightarrow> usize \<Rightarrow> ('s, usize) prog" where
  "align_up_size b sz align =
     bind (usize_add b sz align) (\<lambda>t.
     bind (usize_sub b t 1) (\<lambda>u. align_down_size u align))"

definition align_up :: "usize \<Rightarrow> usize \<Rightarrow> ('s, usize) prog" where
  "align_up addr align = bind (align_offset addr align) (\<lambda>offset. ret (addr + offset))"

definition HoleList_min_size :: "profile \<Rightarrow> ('s, usize) prog" where
  "HoleList_min_size b = usize_mul b size_of_usize 2"

definition HoleList_align_layout :: "profile \<Rightarrow> Layout \<Rightarrow> ('s, LayoutError + Layout) prog" where
  "HoleList_align_layout b layout =
     bind (HoleList_min_size b) (\<lambda>min_size.
     let sz = (if lsize layout < min_size then min_size else lsize layout) in
     bind (align_up_size b sz align_of_Hole) (\<lambda>sz.
     ret (from_size_align sz (lalign layout))))"

section \<open>Alignment on natural numbers\<close>

definition align_upn :: "nat \<Rightarrow> nat \<Rightarrow> nat" where
  "align_upn x n = x + (n - x mod n) mod n"

lemma align_upn_dvd: "0 < n \<Longrightarrow> n dvd align_upn x n"
proof -
  assume n: "0 < n"
  show ?thesis
  proof (cases "x mod n = 0")
    case True
    then show ?thesis
      by (simp add: align_upn_def mod_eq_0_iff_dvd)
  next
    case False
    have "x mod n < n"
      using n by simp
    then have "align_upn x n = x + (n - x mod n)"
      using False by (simp add: align_upn_def)
    also have "\<dots> = n * (x div n) + n"
      using \<open>x mod n < n\<close> mult_div_mod_eq [of n x] by linarith
    finally show ?thesis
      by simp
  qed
qed

lemma align_upn_ge: "x \<le> align_upn x n"
  by (simp add: align_upn_def)

lemma align_upn_less: "0 < n \<Longrightarrow> align_upn x n < x + n"
  by (simp add: align_upn_def)

lemma align_upn_id: "n dvd x \<Longrightarrow> align_upn x n = x"
  by (simp add: align_upn_def)

lemma align_upn_least:
  assumes "0 < n" and "n dvd y" and "x \<le> y"
  shows "align_upn x n \<le> y"
proof (rule ccontr)
  assume "\<not> align_upn x n \<le> y"
  then have less: "y < align_upn x n" "align_upn x n - y < n"
    using align_upn_less [OF assms(1), of x] assms(3) by auto
  have "n dvd align_upn x n - y"
    using assms(1,2) by (simp add: align_upn_dvd dvd_diff_nat)
  then show False
    using less by (auto dest: dvd_imp_le)
qed

lemma pow2_dvd_4_cases:
  assumes "4 dvd (x::nat)" and "\<not> 2 ^ k dvd x"
  shows "4 dvd (2::nat) ^ k"
proof -
  have "2 \<le> k"
  proof (rule ccontr)
    assume "\<not> 2 \<le> k"
    then have "(2::nat) ^ k dvd 2 ^ 2"
      by (intro le_imp_power_dvd) simp
    then show False
      using assms by (auto intro: dvd_trans)
  qed
  then show ?thesis
    using le_imp_power_dvd [of 2 k "2::nat"] by simp
qed

section \<open>Powers of two\<close>

lemma is_power_of_two_push_bit:
  assumes "is_power_of_two w"
  obtains k where "k < 32" and "w = push_bit k 1"
proof -
  have "length (filter (bit w) [0..<32]) = Suc 0"
    using assms by (simp add: is_power_of_two_def count_ones_def)
  then obtain k where k: "filter (bit w) [0..<32] = [k]"
    by (auto simp: length_Suc_conv)
  then have set: "{n. n < 32 \<and> bit w n} = {k}"
    by (metis (mono_tags, lifting) atLeastLessThan_iff atLeastLessThan_upt empty_set list.simps(15)
        set_filter Collect_cong zero_le)
  then have "k < 32"
    by blast
  moreover have "w = push_bit k 1"
  proof (rule bit_word_eqI)
    fix n :: nat
    assume "n < LENGTH(32)"
    then show "bit w n = bit (push_bit k 1 :: usize) n"
      using set by (auto simp: bit_simps)
  qed
  ultimately show thesis
    by (rule that)
qed

lemma is_power_of_two_unat:
  assumes "is_power_of_two w"
  obtains k where "k < 32" and "unat w = 2 ^ k" and "w = 2 ^ k"
proof -
  obtain k where k: "k < 32" "w = push_bit k 1"
    using assms by (rule is_power_of_two_push_bit)
  moreover have "unat (push_bit k (1::usize)) = 2 ^ k"
    using k(1) by (simp only: unsigned_push_bit_eq) (simp add: push_bit_eq_mult take_bit_nat_eq_self)
  ultimately show thesis
    using that by (simp add: push_bit_eq_mult)
qed

lemma is_power_of_two_pos: "is_power_of_two w \<Longrightarrow> 0 < unat w"
  by (auto elim: is_power_of_two_unat)

lemma is_power_of_two_le: "is_power_of_two w \<Longrightarrow> unat w \<le> 2 ^ 31"
  by (erule is_power_of_two_unat) (simp only:, rule power_increasing, simp_all)

lemma is_power_of_two_1 [simp]: "is_power_of_two 1"
  and is_power_of_two_4 [simp]: "is_power_of_two 4"
  and is_power_of_two_8 [simp]: "is_power_of_two 8"
  by (simp_all add: is_power_of_two_def count_ones_def upt_rec [of _ 32] bit_simps)

section \<open>What the helpers compute\<close>

lemma and_not_mask: "(x::usize) AND NOT (mask k) = x - take_bit k x"
proof -
  have "x - take_bit k x = x AND NOT (take_bit k x)"
    by (rule disjunctive_diff_eq_and_not) (auto intro!: bit_word_eqI simp: bit_simps)
  also have "\<dots> = x AND NOT (mask k)"
    by (rule bit_word_eqI) (auto simp: bit_simps)
  finally show ?thesis ..
qed

lemma align_down_size_value:
  assumes "is_power_of_two al"
  shows "align_down_size x al = ret (x - x mod al)"
    and "unat (x - x mod al) = unat x - unat x mod unat al"
proof -
  obtain k where k: "k < 32" "unat al = 2 ^ k" "al = 2 ^ k"
    using assms by (rule is_power_of_two_unat)
  have "x AND NOT (al - 1) = x - take_bit k x"
    by (simp add: k(3) and_not_mask flip: mask_eq_decr_exp)
  then show "align_down_size x al = ret (x - x mod al)"
    using assms by (simp add: align_down_size_def k(3) take_bit_eq_mod)
  have "unat (x mod al) \<le> unat x"
    by (simp add: unat_mod)
  then show "unat (x - x mod al) = unat x - unat x mod unat al"
    by (simp add: unat_sub_32 unat_mod)
qed

lemma unat_align_offset:
  assumes "0 < unat (al::usize)"
  shows "unat ((al - x mod al) mod al) = (unat al - unat x mod unat al) mod unat al"
proof -
  have "unat (x mod al) < unat al"
    using assms by (simp add: unat_mod)
  then have "unat (al - x mod al) = unat al - unat (x mod al)"
    by (intro unat_sub_32) simp
  then show ?thesis
    by (simp add: unat_mod)
qed

lemma align_up_eq:
  assumes "is_power_of_two al"
  shows "align_up x al = ret (x + (al - x mod al) mod al)"
  using assms by (simp add: align_up_def align_offset_def)

lemma unat_align_up:
  assumes "is_power_of_two al" and "align_upn (unat x) (unat al) < 2 ^ 32"
  shows "unat (x + (al - x mod al) mod al) = align_upn (unat x) (unat al)"
  using assms unat_align_offset [OF is_power_of_two_pos [OF assms(1)], of x]
  by (simp add: align_upn_def unat_add_32)

lemma align_offset_zero_iff:
  assumes "is_power_of_two al"
  shows "(al - x mod al) mod al = 0 \<longleftrightarrow> unat al dvd unat x"
proof -
  have pos: "0 < unat al"
    using assms by (rule is_power_of_two_pos)
  have "(al - x mod al) mod al = 0 \<longleftrightarrow> (unat al - unat x mod unat al) mod unat al = 0"
    by (simp only: unat_align_offset [OF pos, of x, symmetric] unat_eq_0)
  also have "\<dots> \<longleftrightarrow> unat x mod unat al = 0"
  proof (cases "unat x mod unat al = 0")
    case False
    then have "(unat al - unat x mod unat al) mod unat al = unat al - unat x mod unat al"
      using pos by simp
    moreover have "unat x mod unat al < unat al"
      using pos by simp
    ultimately show ?thesis
      using False by linarith
  qed simp
  finally show ?thesis
    by (simp add: dvd_eq_mod_eq_0)
qed

lemma min_size_eq [simp]: "HoleList_min_size b = ret 8"
  by (simp add: HoleList_min_size_def size_of_usize_def)

text \<open>The size an allocation really takes: at least a hole, rounded up to whole words.\<close>

definition aligned_size :: "nat \<Rightarrow> nat" where
  "aligned_size n = align_upn (max 8 n) 4"

lemma aligned_size_props: "8 \<le> aligned_size n" "4 dvd aligned_size n" "n \<le> aligned_size n"
  "aligned_size n < max 8 n + 4"
  using align_upn_ge [of "max 8 n" 4] align_upn_dvd [of 4 "max 8 n"] align_upn_less [of 4 "max 8 n"]
  by (auto simp: aligned_size_def)

lemma align_upn_4: "align_upn x 4 = (x + 3) - (x + 3) mod 4"
proof -
  have "x mod 4 = 0 \<or> x mod 4 = 1 \<or> x mod 4 = 2 \<or> x mod 4 = 3"
    by linarith
  moreover have "(x + 3) mod 4 = (x mod 4 + 3) mod 4"
    by (simp add: mod_add_left_eq)
  ultimately show ?thesis
    by (auto simp: align_upn_def)
qed

lemma align_up_size_4:
  assumes "unat x + 4 < 2 ^ 32"
  shows "align_up_size b x 4 = ret ((x + 3) - (x + 3) mod 4)"
    and "unat ((x + 3) - (x + 3) mod 4) = align_upn (unat x) 4"
proof -
  have u: "unat (x + 4) = unat x + 4" "unat (x + 3) = unat x + 3" "x + 4 - 1 = x + 3"
    using assms by (simp_all add: unat_add_32)
  then show "align_up_size b x 4 = ret ((x + 3) - (x + 3) mod 4)"
    using assms by (simp add: align_up_size_def align_down_size_value(1) add.commute [of x])
  show "unat ((x + 3) - (x + 3) mod 4) = align_upn (unat x) 4"
    using align_down_size_value(2) [of 4 "x + 3"] u by (simp add: align_upn_4)
qed

text \<open>The size \<open>align_layout\<close> gives a valid layout, as a word.\<close>

definition layout_word :: "Layout \<Rightarrow> usize" where
  "layout_word l = (let s = (if lsize l < 8 then 8 else lsize l) in (s + 3) - (s + 3) mod 4)"

lemma layout_size_bound:
  assumes "layout_ok l"
  shows "unat (lsize l) + unat (lalign l) \<le> 2 ^ 31"
proof -
  have "unat (0x80000000 - lalign l) = 2 ^ 31 - unat (lalign l)" "unat (lalign l) \<le> 2 ^ 31"
    using assms is_power_of_two_le [of "lalign l"] by (simp_all add: unat_sub_32 layout_ok_def)
  then show ?thesis
    using assms unfolding layout_ok_def max_size_for_align_def word_le_nat_alt by linarith
qed

lemma unat_layout_word:
  assumes "layout_ok l"
  shows "unat (layout_word l) = aligned_size (unat (lsize l))"
  using layout_size_bound [OF assms] align_up_size_4(2) [of "if lsize l < 8 then 8 else lsize l"]
  by (auto simp: layout_word_def aligned_size_def Let_def word_less_nat_alt max_def)

lemma align_layout_eq:
  assumes "layout_ok l"
  shows "HoleList_align_layout b l = ret (from_size_align (layout_word l) (lalign l))"
proof -
  have "unat (if lsize l < 8 then 8 else lsize l) + 4 < 2 ^ 32"
    using layout_size_bound [OF assms] by auto
  then show ?thesis
    by (simp add: HoleList_align_layout_def align_of_Hole_def layout_word_def Let_def align_up_size_4(1)
        split del: if_split)
qed

lemma from_size_align_cases:
  assumes "is_power_of_two al"
  shows "from_size_align sz al =
    (if unat sz + unat al \<le> 2 ^ 31 then Inr \<lparr>lsize = sz, lalign = al\<rparr> else Inl LayoutError)"
proof -
  have "unat (0x80000000 - al) = 2 ^ 31 - unat al"
    using is_power_of_two_le [OF assms] by (simp add: unat_sub_32)
  then show ?thesis
    using assms is_power_of_two_le [OF assms]
    by (auto simp: from_size_align_def max_size_for_align_def word_le_nat_alt)
qed

end
