(* ===== verification/Memory.thy ===== *)
theory Memory
  imports Prelude
begin

text \<open>
  The byte-addressed memory of the machine, the little-endian 32-bit accesses the compiled code
  makes to it, and the interface the other components use: a locale \<open>word_store\<close> whose laws say
  what a load returns after a store. Objects of two words (a list node, a free page's link) are
  treated once, inside that locale.
\<close>

type_synonym memory = "usize \<Rightarrow> u8"

definition load32 :: "memory \<Rightarrow> usize \<Rightarrow> usize" where
  "load32 m a =
     ucast (m a) OR push_bit 8 (ucast (m (a + 1)))
       OR push_bit 16 (ucast (m (a + 2))) OR push_bit 24 (ucast (m (a + 3)))"

definition store32 :: "memory \<Rightarrow> usize \<Rightarrow> usize \<Rightarrow> memory" where
  "store32 m a v =
     m(a := ucast v, a + 1 := ucast (drop_bit 8 v),
       a + 2 := ucast (drop_bit 16 v), a + 3 := ucast (drop_bit 24 v))"

text \<open>Two objects of \<open>k\<close> bytes at \<open>a\<close> and \<open>b\<close> share no byte, also across the wrap of the address space.\<close>

definition apart :: "usize \<Rightarrow> usize \<Rightarrow> usize \<Rightarrow> bool" where
  "apart k a b \<longleftrightarrow> k \<le> b - a \<and> k \<le> a - b"

lemma apart_sym: "apart k a b \<longleftrightarrow> apart k b a"
  by (auto simp: apart_def)

lemma apartI:
  assumes "unat a + unat k \<le> unat b \<or> unat b + unat k \<le> unat a"
    and "unat a + unat k \<le> 2 ^ 32" and "unat b + unat k \<le> 2 ^ 32"
  shows "apart k a b"
proof -
  have *: "k \<le> b - a \<and> k \<le> a - b"
    if "unat a + unat k \<le> unat b" and "unat b + unat k \<le> 2 ^ 32" for a b :: usize
  proof
    show "k \<le> b - a"
      using that by (simp add: word_le_nat_alt unat_sub_32)
    show "k \<le> a - b"
      unfolding word_le_nat_alt unat_sub_if' using that unat_usize_lt [of b] by auto
  qed
  from assms * [of a b] * [of b a] show ?thesis
    by (auto simp: apart_def)
qed

text \<open>Offsets between two objects: with \<open>k\<close> bytes free on both sides, small shifts keep them apart.\<close>

lemma gap_bound:
  assumes "k \<le> - d" and "0 < unat k"
  shows "unat (d::usize) + unat k \<le> 2 ^ 32"
proof -
  have "unat k \<le> unat (0 - d)"
    using assms(1) by (simp add: word_le_nat_alt)
  then show ?thesis
    using assms(2) unat_usize_lt [of d] unfolding unat_sub_if' by (auto split: if_splits)
qed

lemma gap_add:
  assumes "k \<le> d" and "j \<le> - d" and "unat i < unat j"
  shows "k \<le> (d::usize) + i"
proof -
  have "unat d + unat i < 2 ^ 32"
    using gap_bound [OF assms(2)] assms(3) by linarith
  then show ?thesis
    using assms(1) by (simp add: word_le_nat_alt unat_add_32)
qed

lemma gap_sub: "8 \<le> (d::usize) \<Longrightarrow> 4 \<le> d - 4"
  by (simp add: word_le_nat_alt unat_sub_32)

lemma gap_le: "8 \<le> (d::usize) \<Longrightarrow> 4 \<le> d"
  by (simp add: word_le_nat_alt)

section \<open>Loads after stores\<close>

lemma load32_store32_same: "load32 (store32 m a v) a = v"
proof -
  have "load32 (store32 m a v) a =
      ucast (ucast v :: u8) OR push_bit 8 (ucast (ucast (drop_bit 8 v) :: u8))
        OR push_bit 16 (ucast (ucast (drop_bit 16 v) :: u8))
        OR push_bit 24 (ucast (ucast (drop_bit 24 v) :: u8))"
    by (simp add: load32_def store32_def)
  also have "\<dots> = v"
  proof (rule bit_word_eqI)
    fix n :: nat
    assume "n < LENGTH(32)"
    then show "bit ((ucast (ucast v :: u8) :: usize) OR push_bit 8 (ucast (ucast (drop_bit 8 v) :: u8))
        OR push_bit 16 (ucast (ucast (drop_bit 16 v) :: u8))
        OR push_bit 24 (ucast (ucast (drop_bit 24 v) :: u8))) n = bit v n"
      by (cases "n < 24"; cases "n < 16") (auto simp: bit_simps)
  qed
  finally show ?thesis .
qed

lemma store32_outside: "4 \<le> x - a \<Longrightarrow> store32 m a v x = m x"
proof -
  assume "4 \<le> x - a"
  then have "x \<noteq> a" "x \<noteq> a + 1" "x \<noteq> a + 2" "x \<noteq> a + 3"
    by (auto simp: word_le_nat_alt)
  then show ?thesis
    by (simp add: store32_def)
qed

lemma load32_cong:
  assumes "\<And>i. i < 4 \<Longrightarrow> m (a + i) = m' (a + i)"
  shows "load32 m a = load32 m' a"
  using assms [of 0] assms [of 1] assms [of 2] assms [of 3] by (simp add: load32_def)

lemma store32_load32: "store32 m a (load32 m a) = m"
proof -
  have high: "\<not> bit (m x) k" if "8 \<le> k" for x k
    using bit_imp_le_length [of "m x" k] that by auto
  have "(ucast (load32 m a) :: u8) = m a"
    by (rule bit_word_eqI) (auto simp: load32_def bit_simps high)
  moreover have "(ucast (drop_bit 8 (load32 m a)) :: u8) = m (a + 1)"
    by (rule bit_word_eqI) (auto simp: load32_def bit_simps high)
  moreover have "(ucast (drop_bit 16 (load32 m a)) :: u8) = m (a + 2)"
    by (rule bit_word_eqI) (auto simp: load32_def bit_simps high)
  moreover have "(ucast (drop_bit 24 (load32 m a)) :: u8) = m (a + 3)"
    by (rule bit_word_eqI) (auto simp: load32_def bit_simps high)
  ultimately show ?thesis
    by (auto simp: store32_def)
qed

section \<open>The interface of the store\<close>

text \<open>
  What the components rely on when they read and write objects in memory: a stored word is loaded
  back, storing what is there changes nothing, a store changes no byte outside the four it covers,
  and a load depends on its four bytes
  only. \<open>byte\<close> reads one byte.
\<close>

locale word_store =
  fixes load :: "'m \<Rightarrow> usize \<Rightarrow> usize"
    and store :: "'m \<Rightarrow> usize \<Rightarrow> usize \<Rightarrow> 'm"
    and byte :: "'m \<Rightarrow> usize \<Rightarrow> u8"
  assumes load_store_same: "load (store m a v) a = v"
    and store_load: "store m a (load m a) = m"
    and byte_store_outside: "4 \<le> x - a \<Longrightarrow> byte (store m a v) x = byte m x"
    and load_byte_cong: "(\<And>i. i < 4 \<Longrightarrow> byte m (a + i) = byte m' (a + i)) \<Longrightarrow> load m a = load m' a"
begin

lemma load_store_apart:
  assumes "apart 4 a b"
  shows "load (store m a v) b = load m b"
proof (rule load_byte_cong)
  fix i :: usize
  assume i: "i < 4"
  have "4 \<le> b - a" and "4 \<le> a - b"
    using assms by (simp_all add: apart_def)
  then have "4 \<le> (b - a) + i"
    using i gap_add [of 4 "b - a" 4 i] by (simp add: word_less_nat_alt)
  then show "byte (store m a v) (b + i) = byte m (b + i)"
    by (intro byte_store_outside) (simp add: algebra_simps)
qed

text \<open>Objects of two words: the first at the object's address, the second four bytes after it.\<close>

lemma pair_same:
  "load (store (store m a v) (a + 4) w) a = v" "load (store (store m a v) (a + 4) w) (a + 4) = w"
  by (simp_all add: load_store_apart load_store_same apart_def word_le_nat_alt)

lemma pair_apart:
  assumes "apart 8 a b"
  shows "load (store (store m a v) (a + 4) w) b = load m b"
    and "load (store (store m a v) (a + 4) w) (b + 4) = load m (b + 4)"
    and "load (store m (a + 4) w) b = load m b"
    and "load (store m (a + 4) w) (b + 4) = load m (b + 4)"
    and "load (store m a v) b = load m b"
    and "load (store m a v) (b + 4) = load m (b + 4)"
proof -
  have "8 \<le> b - a" "8 \<le> a - b"
    using assms by (simp_all add: apart_def)
  moreover have "(a + 4) - b = (a - b) + 4" "b - (a + 4) = (b - a) - 4"
    "(b + 4) - a = (b - a) + 4" "a - (b + 4) = (a - b) - 4" "(b + 4) - (a + 4) = b - a"
    "(a + 4) - (b + 4) = a - b"
    by simp_all
  moreover have "4 \<le> (a - b) + 4" "4 \<le> (b - a) + 4"
    using \<open>8 \<le> b - a\<close> \<open>8 \<le> a - b\<close> gap_add [of 4 "a - b" 8 4] gap_add [of 4 "b - a" 8 4]
    by (simp_all add: gap_le)
  ultimately have "apart 4 a b" "apart 4 (a + 4) b" "apart 4 a (b + 4)" "apart 4 (a + 4) (b + 4)"
    unfolding apart_def by (simp_all only: gap_le gap_sub simp_thms)
  then show "load (store (store m a v) (a + 4) w) b = load m b"
    and "load (store (store m a v) (a + 4) w) (b + 4) = load m (b + 4)"
    and "load (store m (a + 4) w) b = load m b"
    and "load (store m (a + 4) w) (b + 4) = load m (b + 4)"
    and "load (store m a v) b = load m b"
    and "load (store m a v) (b + 4) = load m (b + 4)"
    by (simp_all add: load_store_apart)
qed

lemma pair_byte_outside:
  assumes "8 \<le> x - a"
  shows "byte (store (store m a v) (a + 4) w) x = byte m x"
    and "byte (store m (a + 4) w) x = byte m x"
    and "byte (store m a v) x = byte m x"
proof -
  have "x - (a + 4) = (x - a) - 4"
    by simp
  then have "4 \<le> x - a" "4 \<le> x - (a + 4)"
    using assms by (simp_all only: gap_le gap_sub)
  then show "byte (store (store m a v) (a + 4) w) x = byte m x"
    and "byte (store m (a + 4) w) x = byte m x"
    and "byte (store m a v) x = byte m x"
    by (simp_all add: byte_store_outside)
qed

end

interpretation ram: word_store load32 store32 "\<lambda>m a. m a"
  by unfold_locales (fact load32_store32_same, fact store32_load32, fact store32_outside, erule load32_cong)

section \<open>The state every component extends\<close>

text \<open>
  The components' states are extensions of this record, so a program that only touches memory
  runs in all of them and leaves the other fields as they are. Besides the memory it has the bytes
  sent to the serial port so far.
\<close>

record machine =
  mem :: memory
  uart :: "u8 list"

definition same_outside :: "nat set \<Rightarrow> memory \<Rightarrow> memory \<Rightarrow> bool" where
  "same_outside A m m' \<longleftrightarrow> (\<forall>x. unat x \<notin> A \<longrightarrow> m' x = m x)"

lemma same_outside_refl [simp, intro]: "same_outside A m m"
  by (simp add: same_outside_def)

lemma same_outside_trans:
  "same_outside A m m' \<Longrightarrow> same_outside A m' m'' \<Longrightarrow> same_outside A m m''"
  by (simp add: same_outside_def)

lemma same_outside_mono: "same_outside A m m' \<Longrightarrow> A \<subseteq> B \<Longrightarrow> same_outside B m m'"
  by (auto simp: same_outside_def)

end
