(* ===== verification/Hole.thy ===== *)
theory Hole
  imports HoleLayout Memory
begin

text \<open>
  The pointer code of \<^verbatim>\<open>rust/src/hole.rs\<close>: hole nodes stored in the free memory itself, the
  \<^verbatim>\<open>HoleList\<close> structure, the \<^verbatim>\<open>Cursor\<close> that walks it, and every operation on them, in the order
  of the file. A node takes two words of memory: its size, then the address of the next node, with
  0 for \<^verbatim>\<open>None\<close> (the null niche of \<^verbatim>\<open>Option<NonNull<Hole>>\<close>). The dummy node \<^verbatim>\<open>first\<close> is a field of
  \<^verbatim>\<open>HoleList\<close>, so a \<^verbatim>\<open>NonNull<Hole>\<close> that may point at it is the type \<open>hole_ref\<close>. A \<^verbatim>\<open>Result\<close> is a
  sum, \<open>Inl\<close> for \<^verbatim>\<open>Err\<close> and \<open>Inr\<close> for \<^verbatim>\<open>Ok\<close>.
\<close>

section \<open>Nodes, lists, cursors\<close>

record Hole =
  hsize :: usize
  hnext :: "usize option"

record HoleList =
  hl_first :: Hole
  hl_bottom :: usize
  hl_top :: usize
  hl_pending_extend :: u8

record hole_state = machine +
  holes :: HoleList

datatype hole_ref = Dummy | At usize

record Cursor =
  c_prev :: hole_ref
  c_hole :: usize
  c_top :: usize

record HoleInfo =
  hi_addr :: usize
  hi_size :: usize

definition enc_link :: "usize option \<Rightarrow> usize" where
  "enc_link v = (case v of None \<Rightarrow> 0 | Some p \<Rightarrow> p)"

definition dec_link :: "usize \<Rightarrow> usize option" where
  "dec_link w = (if w = 0 then None else Some w)"

definition read_hole :: "memory \<Rightarrow> usize \<Rightarrow> Hole" where
  "read_hole m a = \<lparr>hsize = load32 m a, hnext = dec_link (load32 m (a + 4))\<rparr>"

definition write_hsize :: "memory \<Rightarrow> usize \<Rightarrow> usize \<Rightarrow> memory" where
  "write_hsize m a v = store32 m a v"

definition write_hnext :: "memory \<Rightarrow> usize \<Rightarrow> usize option \<Rightarrow> memory" where
  "write_hnext m a v = store32 m (a + 4) (enc_link v)"

definition write_hole :: "memory \<Rightarrow> usize \<Rightarrow> Hole \<Rightarrow> memory" where
  "write_hole m a h = write_hnext (write_hsize m a (hsize h)) a (hnext h)"

definition get_hole :: "hole_ref \<Rightarrow> ('x hole_state_scheme, Hole) prog" where
  "get_hole r = gets (\<lambda>s. case r of Dummy \<Rightarrow> hl_first (holes s) | At a \<Rightarrow> read_hole (mem s) a)"

definition set_next :: "hole_ref \<Rightarrow> usize option \<Rightarrow> ('x hole_state_scheme, unit) prog" where
  "set_next r v = modify (\<lambda>s. case r of
       Dummy \<Rightarrow> s\<lparr>holes := (holes s)\<lparr>hl_first := (hl_first (holes s))\<lparr>hnext := v\<rparr>\<rparr>\<rparr>
     | At a \<Rightarrow> s\<lparr>mem := write_hnext (mem s) a v\<rparr>)"

definition set_size :: "usize \<Rightarrow> usize \<Rightarrow> ('x hole_state_scheme, unit) prog" where
  "set_size a v = modify (\<lambda>s. s\<lparr>mem := write_hsize (mem s) a v\<rparr>)"

definition ptr_write :: "usize \<Rightarrow> Hole \<Rightarrow> ('x machine_scheme, unit) prog" where
  "ptr_write a h = modify (\<lambda>s. s\<lparr>mem := write_hole (mem s) a h\<rparr>)"

section \<open>Walking the list\<close>

definition Cursor_next :: "Cursor \<Rightarrow> ('x hole_state_scheme, Cursor option) prog" where
  "Cursor_next self = bind (get_hole (At (c_hole self))) (\<lambda>h.
     ret (map_option (\<lambda>nhole. \<lparr>c_prev = At (c_hole self), c_hole = nhole, c_top = c_top self\<rparr>) (hnext h)))"

definition Cursor_current :: "Cursor \<Rightarrow> ('x hole_state_scheme, Hole) prog" where
  "Cursor_current self = get_hole (At (c_hole self))"

definition Cursor_previous :: "Cursor \<Rightarrow> ('x hole_state_scheme, Hole) prog" where
  "Cursor_previous self = get_hole (c_prev self)"

section \<open>Splitting a hole\<close>

text \<open>
  The first block of \<^verbatim>\<open>split_current\<close>: where the allocation and its paddings go, or \<open>None\<close> where
  the code returns \<^verbatim>\<open>Err(self)\<close>.
\<close>

definition split_plan :: "profile \<Rightarrow> usize \<Rightarrow> usize \<Rightarrow> Layout \<Rightarrow>
    ('s, (HoleInfo option \<times> usize \<times> usize \<times> HoleInfo option) option) prog" where
  "split_plan b hole_addr_u8 hole_size required_layout =
     (let required_size = lsize required_layout; required_align = lalign required_layout in
      if hole_size < required_size then ret None else
      bind (align_up hole_addr_u8 required_align) (\<lambda>up.
      bind (if hole_addr_u8 = up then ret (None, hole_addr_u8)
            else bind (HoleList_min_size b) (\<lambda>min_size.
                 let new_start = hole_addr_u8 + min_size in
                 bind (align_up new_start required_align) (\<lambda>aligned_addr.
                 bind (usize_sub b aligned_addr hole_addr_u8) (\<lambda>pad.
                 ret (Some \<lparr>hi_addr = hole_addr_u8, hi_size = pad\<rparr>, aligned_addr)))))
      (\<lambda>(front_padding, aligned_addr).
      let allocation_end = aligned_addr + required_size; hole_end = hole_addr_u8 + hole_size in
      if hole_end < allocation_end then ret None else
      bind (usize_sub b hole_end allocation_end) (\<lambda>back_padding_size.
      if back_padding_size = 0 then ret (Some (front_padding, aligned_addr, required_size, None)) else
      bind (align_up allocation_end align_of_Hole) (\<lambda>back_padding_start.
      let back_padding_end = back_padding_start + size_of_Hole in
      if back_padding_end \<le> hole_end
      then ret (Some (front_padding, aligned_addr, required_size,
             Some \<lparr>hi_addr = back_padding_start, hi_size = back_padding_size\<rparr>))
      else ret None)))))"

text \<open>The pointer surgery that follows it.\<close>

definition split_surgery :: "Cursor \<Rightarrow> HoleInfo option \<Rightarrow> HoleInfo option \<Rightarrow>
    ('x hole_state_scheme, unit) prog" where
  "split_surgery self front_padding back_padding =
     bind (set_next (c_prev self) None) (\<lambda>_.
     bind (get_hole (At (c_hole self))) (\<lambda>h.
     let maybe_next_addr = hnext h in
     bind (set_next (At (c_hole self)) None) (\<lambda>_.
     case front_padding of
       None \<Rightarrow> (case back_padding of
           None \<Rightarrow> set_next (c_prev self) maybe_next_addr
         | Some singlepad \<Rightarrow>
             bind (ptr_write (hi_addr singlepad) \<lparr>hsize = hi_size singlepad, hnext = maybe_next_addr\<rparr>) (\<lambda>_.
             set_next (c_prev self) (Some (hi_addr singlepad))))
     | Some frontpad \<Rightarrow> (case back_padding of
           None \<Rightarrow>
             bind (ptr_write (hi_addr frontpad) \<lparr>hsize = hi_size frontpad, hnext = maybe_next_addr\<rparr>) (\<lambda>_.
             set_next (c_prev self) (Some (hi_addr frontpad)))
         | Some backpad \<Rightarrow>
             bind (ptr_write (hi_addr backpad) \<lparr>hsize = hi_size backpad, hnext = maybe_next_addr\<rparr>) (\<lambda>_.
             bind (ptr_write (hi_addr frontpad) \<lparr>hsize = hi_size frontpad, hnext = Some (hi_addr backpad)\<rparr>) (\<lambda>_.
             set_next (c_prev self) (Some (hi_addr frontpad))))))))"

definition split_current :: "profile \<Rightarrow> Cursor \<Rightarrow> Layout \<Rightarrow>
    ('x hole_state_scheme, Cursor + usize \<times> usize) prog" where
  "split_current b self required_layout =
     bind (Cursor_current self) (\<lambda>h.
     bind (split_plan b (c_hole self) (hsize h) required_layout) (\<lambda>plan.
     case plan of
       None \<Rightarrow> ret (Inl self)
     | Some (front_padding, alloc_ptr, alloc_size, back_padding) \<Rightarrow>
         bind (split_surgery self front_padding back_padding) (\<lambda>_.
         ret (Inr (alloc_ptr, alloc_size)))))"

section \<open>Merging with the ends of the region\<close>

definition make_hole :: "profile \<Rightarrow> usize \<Rightarrow> usize \<Rightarrow> ('x machine_scheme, usize) prog" where
  "make_hole b addr sz =
     bind (debug_assert b (addr mod align_of_Hole = 0) ''Hole address not aligned!'') (\<lambda>_.
     bind (ptr_write addr \<lparr>hsize = sz, hnext = None\<rparr>) (\<lambda>_.
     ret addr))"

definition check_merge_top :: "profile \<Rightarrow> usize \<Rightarrow> usize \<Rightarrow> ('x hole_state_scheme, unit) prog" where
  "check_merge_top b node tp =
     bind (get_hole (At node)) (\<lambda>h.
     let end_addr = node + hsize h in
     if end_addr < tp then
       bind (align_up end_addr align_of_Hole) (\<lambda>up.
       let next_hole_end = up + size_of_Hole in
       if tp < next_hole_end then
         bind (usize_sub b tp end_addr) (\<lambda>offset.
         bind (usize_add b (hsize h) offset) (\<lambda>sz.
         set_size node sz))
       else ret ())
     else ret ())"

definition check_merge_bottom :: "profile \<Rightarrow> usize \<Rightarrow> usize \<Rightarrow> ('x hole_state_scheme, usize) prog" where
  "check_merge_bottom b node bottom =
     bind (debug_assert b (bottom mod align_of_Hole = 0) ''bottom not aligned'') (\<lambda>_.
     if node < bottom + size_of_Hole then
       bind (usize_sub b node bottom) (\<lambda>offset.
       bind (get_hole (At node)) (\<lambda>h.
       bind (usize_add b (hsize h) offset) (\<lambda>sz.
       make_hole b bottom sz)))
     else ret node)"

section \<open>The list and its cursor\<close>

definition HoleList_empty :: HoleList where
  "HoleList_empty = \<lparr>hl_first = \<lparr>hsize = 0, hnext = None\<rparr>, hl_bottom = 0, hl_top = 0,
     hl_pending_extend = 0\<rparr>"

definition HoleList_cursor :: "('x hole_state_scheme, Cursor option) prog" where
  "HoleList_cursor = gets (\<lambda>s. case hnext (hl_first (holes s)) of
       Some hole \<Rightarrow> Some \<lparr>c_prev = Dummy, c_hole = hole, c_top = hl_top (holes s)\<rparr>
     | None \<Rightarrow> None)"

definition HoleList_new :: "profile \<Rightarrow> usize \<Rightarrow> usize \<Rightarrow> ('x machine_scheme, HoleList) prog" where
  "HoleList_new b hole_addr hole_size =
     bind (HoleList_min_size b) (\<lambda>min_size.
     bind (assert_that (size_of_Hole = min_size) ''size_of Hole == min_size'') (\<lambda>_.
     bind (assert_that (size_of_Hole \<le> hole_size) ''hole_size >= size_of Hole'') (\<lambda>_.
     bind (align_up hole_addr align_of_Hole) (\<lambda>aligned_hole_addr.
     bind (usize_sub b aligned_hole_addr hole_addr) (\<lambda>skip.
     bind (usize_sub b hole_size skip) (\<lambda>requested_hole_size.
     bind (align_down_size requested_hole_size align_of_Hole) (\<lambda>aligned_hole_size.
     bind (assert_that (size_of_Hole \<le> aligned_hole_size) ''aligned_hole_size >= size_of Hole'') (\<lambda>_.
     bind (ptr_write aligned_hole_addr \<lparr>hsize = aligned_hole_size, hnext = None\<rparr>) (\<lambda>_.
     bind (assert_that (hole_addr + hole_size = aligned_hole_addr + requested_hole_size)
            ''end of the region'') (\<lambda>_.
     bind (usize_sub b requested_hole_size aligned_hole_size) (\<lambda>pending.
     ret \<lparr>hl_first = \<lparr>hsize = 0, hnext = Some aligned_hole_addr\<rparr>,
          hl_bottom = aligned_hole_addr,
          hl_top = aligned_hole_addr + aligned_hole_size,
          hl_pending_extend = ucast pending\<rparr>)))))))))))"

definition HoleList_first_hole :: "('x hole_state_scheme, (usize \<times> usize) option) prog" where
  "HoleList_first_hole = gets (\<lambda>s. map_option (\<lambda>hole. (hole, hsize (read_hole (mem s) hole)))
     (hnext (hl_first (holes s))))"

section \<open>Allocation\<close>

text \<open>
  The \<^verbatim>\<open>loop\<close> of \<^verbatim>\<open>allocate_first_fit\<close>: it stops with an allocation or at the end of the list,
  and follows a cyclic list for ever.
\<close>

partial_function (option) allocate_loop :: "profile \<Rightarrow> Layout \<Rightarrow> Cursor \<Rightarrow> 'x hole_state_scheme \<Rightarrow>
    (panic + (unit + usize \<times> Layout) \<times> 'x hole_state_scheme) option" where
  "allocate_loop b aligned_layout cursor s =
     bind (split_current b cursor aligned_layout) (\<lambda>r s.
       (case r of
          Inr ok \<Rightarrow> ret (if fst ok = 0 then Inl () else Inr (fst ok, aligned_layout)) s
        | Inl curs \<Rightarrow> bind (Cursor_next curs) (\<lambda>nxt s.
            (case nxt of None \<Rightarrow> ret (Inl ()) s
             | Some cursor' \<Rightarrow> allocate_loop b aligned_layout cursor' s)) s)) s"

declare allocate_loop.simps [code]

definition HoleList_allocate_first_fit :: "profile \<Rightarrow> Layout \<Rightarrow>
    ('x hole_state_scheme, unit + usize \<times> Layout) prog" where
  "HoleList_allocate_first_fit b layout =
     bind (HoleList_align_layout b layout) (\<lambda>al. case al of
       Inl _ \<Rightarrow> ret (Inl ())
     | Inr aligned_layout \<Rightarrow> bind HoleList_cursor (\<lambda>c. case c of
           None \<Rightarrow> ret (Inl ())
         | Some cursor \<Rightarrow> allocate_loop b aligned_layout cursor))"

section \<open>Deallocation\<close>

definition try_insert_back :: "profile \<Rightarrow> Cursor \<Rightarrow> usize \<Rightarrow> usize \<Rightarrow>
    ('x hole_state_scheme, Cursor + Cursor) prog" where
  "try_insert_back b self node bottom =
     (if node < c_hole self then
        bind (get_hole (At node)) (\<lambda>h.
        bind (assert_that (node + hsize h \<le> c_hole self)
               ''Freed node aliases existing hole! Bad free?'') (\<lambda>_.
        bind (Cursor_previous self) (\<lambda>pv.
        bind (debug_assert b (hsize pv = 0) ''previous is the dummy'') (\<lambda>_.
        bind (check_merge_bottom b node bottom) (\<lambda>node'.
        bind (set_next (c_prev self) (Some node')) (\<lambda>_.
        bind (set_next (At node') (Some (c_hole self))) (\<lambda>_.
        ret (Inr \<lparr>c_prev = c_prev self, c_hole = node, c_top = c_top self\<rparr>))))))))
      else ret (Inl self))"

definition try_insert_after :: "profile \<Rightarrow> Cursor \<Rightarrow> usize \<Rightarrow> ('x hole_state_scheme, unit + unit) prog" where
  "try_insert_after b self node =
     bind (get_hole (At node)) (\<lambda>nh.
     let node_size = hsize nh in
     bind (Cursor_current self) (\<lambda>cur.
     bind (case hnext cur of
             None \<Rightarrow> ret True
           | Some nxt \<Rightarrow>
               if node < nxt then
                 bind (assert_that (node + node_size \<le> nxt)
                        ''Freed node aliases existing hole! Bad free?'') (\<lambda>_. ret True)
               else ret False) (\<lambda>here.
     if \<not> here then ret (Inl ()) else
     bind (debug_assert b (c_hole self < node) ''Hole list out of order?'') (\<lambda>_.
     bind (assert_that (c_hole self + hsize cur \<le> node) ''Freed node aliases existing hole! Bad free?'') (\<lambda>_.
     bind (get_hole (At (c_hole self))) (\<lambda>h.
     let maybe_next = hnext h in
     bind (set_next (At (c_hole self)) (Some node)) (\<lambda>_.
     bind (set_next (At node) maybe_next) (\<lambda>_.
     ret (Inr ())))))))))"

text \<open>The \<^verbatim>\<open>for\<close> loop of \<^verbatim>\<open>try_merge_next_n\<close>, over the number of rounds left.\<close>

fun merge_next_loop :: "profile \<Rightarrow> nat \<Rightarrow> usize \<Rightarrow> usize \<Rightarrow> ('x hole_state_scheme, unit) prog" where
  "merge_next_loop b 0 hole tp = ret ()"
| "merge_next_loop b (Suc n) hole tp =
     bind (get_hole (At hole)) (\<lambda>h. case hnext h of
       None \<Rightarrow> check_merge_top b hole tp
     | Some nxt \<Rightarrow>
         if hole + hsize h = nxt then
           bind (get_hole (At nxt)) (\<lambda>nh.
           bind (set_next (At nxt) None) (\<lambda>_.
           bind (set_next (At hole) (hnext nh)) (\<lambda>_.
           bind (get_hole (At hole)) (\<lambda>h'.
           bind (usize_add b (hsize h') (hsize nh)) (\<lambda>sz.
           bind (set_size hole sz) (\<lambda>_.
           merge_next_loop b n hole tp))))))
         else merge_next_loop b n nxt tp)"

definition try_merge_next_n :: "profile \<Rightarrow> Cursor \<Rightarrow> nat \<Rightarrow> ('x hole_state_scheme, unit) prog" where
  "try_merge_next_n b self mx = merge_next_loop b mx (c_hole self) (c_top self)"

text \<open>The \<^verbatim>\<open>while let\<close> of \<^verbatim>\<open>deallocate\<close>, which looks for the freed node's place.\<close>

partial_function (option) find_home :: "profile \<Rightarrow> usize \<Rightarrow> Cursor \<Rightarrow> 'x hole_state_scheme \<Rightarrow>
    (panic + Cursor \<times> 'x hole_state_scheme) option" where
  "find_home b hole cursor s =
     bind (try_insert_after b cursor hole) (\<lambda>r s.
       (case r of
          Inr _ \<Rightarrow> ret cursor s
        | Inl _ \<Rightarrow> bind (Cursor_next cursor) (\<lambda>nxt.
            bind (expect_option nxt ''Reached end of holes without finding deallocation hole!'')
              (\<lambda>cursor'. find_home b hole cursor')) s)) s"

declare find_home.simps [code]

definition deallocate :: "profile \<Rightarrow> usize \<Rightarrow> usize \<Rightarrow> ('x hole_state_scheme, unit) prog" where
  "deallocate b addr sz =
     bind (make_hole b addr sz) (\<lambda>hole.
     bind HoleList_cursor (\<lambda>c. case c of
       None \<Rightarrow>
         bind (gets holes) (\<lambda>list.
         bind (check_merge_bottom b hole (hl_bottom list)) (\<lambda>hole'.
         bind (check_merge_top b hole' (hl_top list)) (\<lambda>_.
         set_next Dummy (Some hole'))))
     | Some cursor \<Rightarrow>
         bind (gets (\<lambda>s. hl_bottom (holes s))) (\<lambda>bottom.
         bind (try_insert_back b cursor hole bottom) (\<lambda>r. case r of
           Inr cursor' \<Rightarrow> try_merge_next_n b cursor' 1
         | Inl cursor' \<Rightarrow> bind (find_home b hole cursor') (\<lambda>cursor''. try_merge_next_n b cursor'' 2)))))"

definition HoleList_deallocate :: "profile \<Rightarrow> usize \<Rightarrow> Layout \<Rightarrow> ('x hole_state_scheme, Layout) prog" where
  "HoleList_deallocate b ptr layout =
     bind (HoleList_align_layout b layout) (\<lambda>al. case al of
       Inl _ \<Rightarrow> panic UnwrapErr
     | Inr aligned_layout \<Rightarrow> bind (deallocate b ptr (lsize aligned_layout)) (\<lambda>_. ret aligned_layout))"

section \<open>Growing the region\<close>

definition HoleList_extend :: "profile \<Rightarrow> usize \<Rightarrow> ('x hole_state_scheme, unit) prog" where
  "HoleList_extend b by =
     bind (gets holes) (\<lambda>self.
     bind (assert_that (hl_top self \<noteq> 0) ''tried to extend an empty heap'') (\<lambda>_.
     let tp = hl_top self in
     bind (align_offset tp align_of_Hole) (\<lambda>dead_space.
     bind (debug_assert b (0 = dead_space) ''dead space detected during extend'') (\<lambda>_.
     bind (HoleList_min_size b) (\<lambda>min_size.
     bind (debug_assert b (ucast (hl_pending_extend self) < min_size)
            ''pending extend was larger than expected'') (\<lambda>_.
     bind (usize_add b (ucast (hl_pending_extend self)) by) (\<lambda>extend_by.
     if extend_by < min_size then
       modify (\<lambda>s. s\<lparr>holes := (holes s)\<lparr>hl_pending_extend := ucast extend_by\<rparr>\<rparr>)
     else
       bind (align_down_size extend_by align_of_Hole) (\<lambda>new_hole_size.
       case from_size_align new_hole_size 1 of
         Inl _ \<Rightarrow> panic UnwrapErr
       | Inr layout \<Rightarrow>
           bind (HoleList_deallocate b tp layout) (\<lambda>_.
           bind (modify (\<lambda>s. s\<lparr>holes := (holes s)\<lparr>hl_top := tp + new_hole_size\<rparr>\<rparr>)) (\<lambda>_.
           bind (usize_sub b extend_by new_hole_size) (\<lambda>pending.
           modify (\<lambda>s. s\<lparr>holes := (holes s)\<lparr>hl_pending_extend := ucast pending\<rparr>\<rparr>))))))))))))"

end
