(* ===== verification/HoleSpec.thy ===== *)
theory HoleSpec
  imports HoleLayout
begin

text \<open>
  The abstract hole list: free regions \<open>(address, size)\<close> on natural numbers, in address order. The
  two list algorithms the pointer code of \<^verbatim>\<open>rust/src/hole.rs\<close> implements are stated here as
  structural recursions (\<open>first_fit\<close> takes a block from the first hole it fits in, \<open>insert_hole\<close>
  puts a block back and merges it with its neighbours), together with the invariant \<open>holes_wf\<close>
  and what the algorithms do to the set of free bytes.
\<close>

type_synonym region = "nat \<times> nat"

section \<open>Well-formed hole lists\<close>

text \<open>
  Every hole is word aligned, has room for its own node, and ends below \<open>hi\<close>; the next hole starts
  after at least one byte that is not free, so the list is sorted, disjoint and fully merged. The
  first argument is the least address the next hole may have.
\<close>

fun holes_wf :: "nat \<Rightarrow> nat \<Rightarrow> region list \<Rightarrow> bool" where
  "holes_wf lo hi [] \<longleftrightarrow> lo \<le> Suc hi"
| "holes_wf lo hi ((a, s) # hs) \<longleftrightarrow>
     lo \<le> a \<and> 4 dvd a \<and> 4 dvd s \<and> 8 \<le> s \<and> a + s \<le> hi \<and> holes_wf (Suc (a + s)) hi hs"

fun after :: "nat \<Rightarrow> region list \<Rightarrow> nat" where
  "after lo [] = lo"
| "after lo ((a, s) # hs) = after (Suc (a + s)) hs"

fun free_bytes :: "region list \<Rightarrow> nat set" where
  "free_bytes [] = {}"
| "free_bytes ((a, s) # hs) = {a..<a + s} \<union> free_bytes hs"

definition free_total :: "region list \<Rightarrow> nat" where
  "free_total hs = sum_list (map snd hs)"

lemma free_total_simps [simp]:
  "free_total [] = 0" "free_total ((a, s) # hs) = s + free_total hs"
  "free_total (xs @ ys) = free_total xs + free_total ys"
  by (simp_all add: free_total_def)

lemma free_bytes_append [simp]: "free_bytes (xs @ ys) = free_bytes xs \<union> free_bytes ys"
  by (induction xs) auto

lemma holes_wf_le: "holes_wf lo hi hs \<Longrightarrow> lo \<le> Suc hi"
  by (induction hs arbitrary: lo) force+

lemma holes_wf_mono: "holes_wf lo hi hs \<Longrightarrow> lo' \<le> lo \<Longrightarrow> holes_wf lo' hi hs"
  by (cases hs) auto

lemma holes_wf_hi_mono: "holes_wf lo hi hs \<Longrightarrow> hi \<le> hi' \<Longrightarrow> holes_wf lo hi' hs"
  by (induction hs arbitrary: lo) auto

lemma holes_wf_append:
  "holes_wf lo hi (xs @ ys) \<longleftrightarrow> holes_wf lo hi xs \<and> holes_wf (after lo xs) hi ys"
  by (induction xs arbitrary: lo) (auto dest: holes_wf_le)

lemma after_ge: "holes_wf lo hi hs \<Longrightarrow> lo \<le> after lo hs"
  by (induction hs arbitrary: lo) force+

lemma holes_wf_prefix: "holes_wf lo hi (xs @ ys) \<Longrightarrow> holes_wf lo hi xs"
  by (simp add: holes_wf_append)

lemma holes_wf_suffix: "holes_wf lo hi (xs @ ys) \<Longrightarrow> holes_wf lo hi ys"
  using after_ge [of lo hi xs] by (auto simp: holes_wf_append intro: holes_wf_mono)

lemma free_bytes_lower: "holes_wf lo hi hs \<Longrightarrow> x \<in> free_bytes hs \<Longrightarrow> lo \<le> x"
  by (induction hs arbitrary: lo) force+

lemma free_bytes_upper: "holes_wf lo hi hs \<Longrightarrow> x \<in> free_bytes hs \<Longrightarrow> x < hi"
  by (induction hs arbitrary: lo) force+

lemma hole_in_free_bytes: "(a, s) \<in> set hs \<Longrightarrow> {a..<a + s} \<subseteq> free_bytes hs"
  by (induction hs rule: free_bytes.induct) auto

lemma holes_wf_member:
  "holes_wf lo hi hs \<Longrightarrow> (a, s) \<in> set hs \<Longrightarrow>
     lo \<le> a \<and> 4 dvd a \<and> 4 dvd s \<and> 8 \<le> s \<and> a + s \<le> hi"
  by (induction hs arbitrary: lo) force+

lemma holes_wf_before:
  "holes_wf lo hi (xs @ ys) \<Longrightarrow> (a, s) \<in> set xs \<Longrightarrow> (b, t) \<in> set ys \<Longrightarrow> a + s < b"
proof (induction xs arbitrary: lo)
  case (Cons x xs)
  show ?case
  proof (cases "x = (a, s)")
    case True
    then have "holes_wf (Suc (a + s)) hi (xs @ ys)"
      using Cons.prems by simp
    then show ?thesis
      using Cons.prems(3) holes_wf_member [of "Suc (a + s)" hi "xs @ ys" b t] by auto
  next
    case False
    then show ?thesis
      using Cons by (cases x) auto
  qed
qed simp

lemma finite_free_bytes [simp]: "finite (free_bytes hs)"
  by (induction hs rule: free_bytes.induct) auto

text \<open>The free bytes are counted by the sizes of the holes.\<close>

lemma card_free_bytes: "holes_wf lo hi hs \<Longrightarrow> card (free_bytes hs) = free_total hs"
proof (induction hs arbitrary: lo)
  case (Cons h hs)
  obtain a s where h: "h = (a, s)"
    by (cases h)
  have wf: "holes_wf (Suc (a + s)) hi hs"
    using Cons.prems by (simp add: h)
  have "{a..<a + s} \<inter> free_bytes hs = {}"
    using free_bytes_lower [OF wf] by force
  then show ?case
    using Cons.IH [OF wf] by (simp add: h card_Un_disjoint)
qed simp

section \<open>Taking a block\<close>

text \<open>
  Where a block of \<open>n\<close> bytes aligned to \<open>al\<close> goes in the hole \<open>(a, s)\<close>: at its start when that is
  aligned, otherwise after a front padding that still holds a node; what is left behind the block
  must be nothing or hold a node. The result names the front padding, the block and the rear padding.
\<close>

definition carve :: "nat \<Rightarrow> nat \<Rightarrow> region \<Rightarrow> (region option \<times> nat \<times> region option) option" where
  "carve n al h = (case h of (a, s) \<Rightarrow>
     let p = (if al dvd a then a else align_upn (a + 8) al);
         front = (if al dvd a then None else Some (a, p - a))
     in if s < n \<or> a + s < p + n then None
        else if p + n = a + s then Some (front, p, None)
        else if p + n + 8 \<le> a + s then Some (front, p, Some (p + n, a + s - (p + n)))
        else None)"

fun parts :: "region option \<Rightarrow> region option \<Rightarrow> region list" where
  "parts None None = []"
| "parts None (Some r) = [r]"
| "parts (Some f) None = [f]"
| "parts (Some f) (Some r) = [f, r]"

fun first_fit :: "nat \<Rightarrow> nat \<Rightarrow> region list \<Rightarrow> (nat \<times> region list) option" where
  "first_fit n al [] = None"
| "first_fit n al (h # hs) = (case carve n al h of
     Some (front, p, rear) \<Rightarrow> Some (p, parts front rear @ hs)
   | None \<Rightarrow> (case first_fit n al hs of None \<Rightarrow> None | Some (p, hs') \<Rightarrow> Some (p, h # hs')))"

text \<open>What a successful carving gives, for sizes and alignments the allocator uses.\<close>

lemma carve_Some:
  assumes "carve n (2 ^ k) (a, s) = Some (front, p, rear)"
    and "4 dvd a" and "4 dvd s" and "4 dvd n" and "8 \<le> n"
  shows "2 ^ k dvd p" and "4 dvd p" and "a \<le> p" and "p + n \<le> a + s"
    and "front = (if p = a then None else Some (a, p - a))" and "p \<noteq> a \<Longrightarrow> a + 8 \<le> p"
    and "rear = (if p + n = a + s then None else Some (p + n, a + s - (p + n)))"
    and "p + n \<noteq> a + s \<Longrightarrow> p + n + 8 \<le> a + s"
proof -
  define q where "q = (if 2 ^ k dvd a then a else align_upn (a + 8) (2 ^ k))"
  have pq: "p = q" and front: "front = (if 2 ^ k dvd a then None else Some (a, q - a))"
    and le: "q + n \<le> a + s"
    and rear: "rear = (if q + n = a + s then None else Some (q + n, a + s - (q + n)))"
    and room: "q + n \<noteq> a + s \<Longrightarrow> q + n + 8 \<le> a + s"
    using assms(1) by (auto simp: carve_def q_def Let_def split: if_splits)
  have "2 ^ k dvd q"
    by (simp add: q_def align_upn_dvd)
  moreover have "a + 8 \<le> q" if "\<not> 2 ^ k dvd a"
    using that align_upn_ge [of "a + 8" "2 ^ k"] by (simp add: q_def)
  moreover have "4 dvd q"
    using assms(2) pow2_dvd_4_cases [of a k] \<open>2 ^ k dvd q\<close> by (auto simp: q_def intro: dvd_trans)
  ultimately show "2 ^ k dvd p" and "4 dvd p" and "a \<le> p" and "p + n \<le> a + s"
    and "front = (if p = a then None else Some (a, p - a))" and "p \<noteq> a \<Longrightarrow> a + 8 \<le> p"
    and "rear = (if p + n = a + s then None else Some (p + n, a + s - (p + n)))"
    and "p + n \<noteq> a + s \<Longrightarrow> p + n + 8 \<le> a + s"
    using le room front rear by (auto simp: pq q_def)
qed

lemma carve_parts:
  assumes "carve n (2 ^ k) (a, s) = Some (front, p, rear)"
    and "holes_wf lo hi ((a, s) # hs)" and "4 dvd n" and "8 \<le> n"
  shows "holes_wf lo hi (parts front rear @ hs)"
    and "free_bytes (parts front rear) = {a..<a + s} - {p..<p + n}"
    and "free_total (parts front rear) + n = s"
proof -
  note c = carve_Some [OF assms(1) _ _ assms(3,4)]
  have wf: "lo \<le> a" "4 dvd a" "4 dvd s" "8 \<le> s" "a + s \<le> hi" "holes_wf (Suc (a + s)) hi hs"
    using assms(2) by simp_all
  have mono: "holes_wf x hi hs" if "x \<le> Suc (a + s)" for x
    using wf(6) that by (rule holes_wf_mono)
  have d: "4 dvd p - a" "4 dvd p + n" "4 dvd a + s - (p + n)"
    using c(2) wf(2,3) assms(3) by (auto intro: dvd_diff_nat)
  show "holes_wf lo hi (parts front rear @ hs)"
    using wf c(3,4,6,8) d assms(3,4) unfolding c(5,7) [OF wf(2,3)]
    by (auto intro!: mono dvd_diff_nat)
  show "free_bytes (parts front rear) = {a..<a + s} - {p..<p + n}"
    using c(3,4) [OF wf(2,3)] unfolding c(5,7) [OF wf(2,3)] by auto
  show "free_total (parts front rear) + n = s"
    using c(3,4) [OF wf(2,3)] unfolding c(5,7) [OF wf(2,3)] by auto
qed

text \<open>First fit keeps the list well formed and takes exactly the block from the free bytes.\<close>

lemma first_fit_Some:
  assumes "first_fit n (2 ^ k) hs = Some (p, hs')" and "holes_wf lo hi hs" and "4 dvd n" and "8 \<le> n"
  shows "holes_wf lo hi hs' \<and> 2 ^ k dvd p \<and> 4 dvd p \<and> {p..<p + n} \<subseteq> free_bytes hs \<and>
    free_bytes hs' = free_bytes hs - {p..<p + n} \<and> free_total hs' + n = free_total hs"
  using assms(1,2)
proof (induction hs arbitrary: lo hs')
  case (Cons h hs)
  obtain a s where h: "h = (a, s)"
    by (cases h)
  have wf: "holes_wf (Suc (a + s)) hi hs" "4 dvd a" "4 dvd s"
    using Cons.prems(2) by (simp_all add: h)
  show ?case
  proof (cases "carve n (2 ^ k) h")
    case None
    then obtain hs'' where hs'': "first_fit n (2 ^ k) hs = Some (p, hs'')" "hs' = (a, s) # hs''"
      using Cons.prems(1) by (auto simp: h split: option.splits)
    note IH = Cons.IH [OF hs''(1) wf(1)]
    then have "{p..<p + n} \<inter> {a..<a + s} = {}"
      using free_bytes_lower [OF wf(1)] by force
    then show ?thesis
      using IH Cons.prems(2) by (auto simp: h hs''(2))
  next
    case (Some r)
    then obtain front rear where c: "carve n (2 ^ k) (a, s) = Some (front, p, rear)"
      and hs': "hs' = parts front rear @ hs"
      using Cons.prems(1) by (cases r) (auto simp: h)
    note wf' = Cons.prems(2) [unfolded h]
    have "free_bytes hs \<inter> {p..<p + n} = {}"
      using carve_Some(4) [OF c wf(2,3) assms(3,4)] free_bytes_lower [OF wf(1)] by force
    then show ?thesis
      using carve_parts [OF c wf' assms(3,4)] carve_Some(1-4) [OF c wf(2,3) assms(3,4)]
      by (auto simp: h hs')
  qed
qed simp

lemma first_fit_None: "first_fit n al hs = None \<longleftrightarrow> (\<forall>h\<in>set hs. carve n al h = None)"
proof (induction hs)
  case (Cons h hs)
  then show ?case
    by (cases "carve n al h"; cases "first_fit n al hs") auto
qed simp

text \<open>The block comes from the first hole that can be carved.\<close>

lemma first_fit_split:
  assumes "first_fit n al hs = Some (p, hs')"
  obtains pre h post front rear where "hs = pre @ h # post" and "\<forall>g\<in>set pre. carve n al g = None"
    and "carve n al h = Some (front, p, rear)" and "hs' = pre @ parts front rear @ post"
  using assms
proof (induction hs arbitrary: hs' thesis)
  case (Cons h hs)
  show ?case
  proof (cases "carve n al h")
    case None
    then obtain hs'' where hs'': "first_fit n al hs = Some (p, hs'')" "hs' = h # hs''"
      using Cons.prems(2) by (auto split: option.splits)
    show ?thesis
      by (rule Cons.IH [OF _ hs''(1)]) (use None hs''(2) Cons.prems(1) [of "h # _"] in auto)
  next
    case (Some r)
    then show ?thesis
      using Cons.prems(1) [of "[]" h hs] Cons.prems(2) by (cases r) auto
  qed
qed simp

section \<open>Returning a block\<close>

fun glue :: "region \<Rightarrow> region list \<Rightarrow> region list" where
  "glue (a, s) [] = [(a, s)]"
| "glue (a, s) ((b, t) # hs) = (if a + s = b then (a, s + t) # hs else (a, s) # (b, t) # hs)"

fun insert_hole :: "region \<Rightarrow> region list \<Rightarrow> region list" where
  "insert_hole (a, s) [] = [(a, s)]"
| "insert_hole (a, s) ((b, t) # hs) =
     (if a < b then glue (a, s) ((b, t) # hs)
      else if b + t = a then glue (b, t + s) hs
      else (b, t) # insert_hole (a, s) hs)"

lemma glue_wf:
  assumes "holes_wf (a + s) hi hs" and "lo \<le> a" and "4 dvd a" and "4 dvd s" and "8 \<le> s" and "a + s \<le> hi"
  shows "holes_wf lo hi (glue (a, s) hs)"
    and "free_bytes (glue (a, s) hs) = {a..<a + s} \<union> free_bytes hs"
    and "free_total (glue (a, s) hs) = s + free_total hs"
proof -
  show "holes_wf lo hi (glue (a, s) hs)"
    using assms by (cases hs) (auto simp: algebra_simps)
  show "free_bytes (glue (a, s) hs) = {a..<a + s} \<union> free_bytes hs"
    using assms(1) by (cases hs) (auto split: if_splits)
  show "free_total (glue (a, s) hs) = s + free_total hs"
    by (cases hs) auto
qed

lemma holes_wf_raise:
  assumes "holes_wf (Suc a) hi hs" and "{a..<a + s} \<inter> free_bytes hs = {}" and "a + s \<le> hi"
  shows "holes_wf (a + s) hi hs"
proof (cases hs)
  case (Cons g gs)
  then obtain c u where g: "hs = (c, u) # gs"
    by (cases g) auto
  then have "c \<in> free_bytes hs" "a < c"
    using assms(1) by auto
  then have "c \<notin> {a..<a + s}"
    using assms(2) by blast
  then show ?thesis
    using assms(1) \<open>a < c\<close> by (simp add: g)
qed (use assms(3) in simp)

text \<open>A block that overlaps no hole is put back: the free bytes grow by exactly that block.\<close>

lemma insert_hole_wf:
  assumes "holes_wf lo hi hs" and "lo \<le> a" and "4 dvd a" and "4 dvd s" and "8 \<le> s" and "a + s \<le> hi"
    and "{a..<a + s} \<inter> free_bytes hs = {}"
  shows "holes_wf lo hi (insert_hole (a, s) hs) \<and>
    free_bytes (insert_hole (a, s) hs) = free_bytes hs \<union> {a..<a + s} \<and>
    free_total (insert_hole (a, s) hs) = free_total hs + s"
  using assms(1,2,7)
proof (induction hs arbitrary: lo)
  case Nil
  then show ?case
    using assms(3-6) by simp
next
  case (Cons h hs)
  obtain b t where h: "h = (b, t)"
    by (cases h)
  have wf: "lo \<le> b" "4 dvd b" "4 dvd t" "8 \<le> t" "b + t \<le> hi" "holes_wf (Suc (b + t)) hi hs"
    using Cons.prems(1) by (simp_all add: h)
  have disj: "{a..<a + s} \<inter> {b..<b + t} = {}" "{a..<a + s} \<inter> free_bytes hs = {}"
    using Cons.prems(3) unfolding h free_bytes.simps by blast+
  show ?case
  proof (cases "a < b")
    case True
    then have "a + s \<le> b"
      using disjoint_intervals [OF disj(1)] wf(4) assms(5) by simp
    then have "holes_wf (a + s) hi ((b, t) # hs)"
      using wf by simp
    then show ?thesis
      using glue_wf [of a s hi "(b, t) # hs" lo] Cons.prems(2) assms(3-6) True
      by (auto simp: h)
  next
    case False
    then have "b + t \<le> a"
      using disjoint_intervals [OF disj(1)] wf(4) assms(5) by simp
    show ?thesis
    proof (cases "b + t = a")
      case True
      have "holes_wf (b + (t + s)) hi hs"
        using holes_wf_raise [of a hi hs s] wf(6) disj(2) True assms(6)
        by (simp flip: add.assoc)
      note g = glue_wf [OF this wf(1,2)]
      have "{b..<b + (t + s)} = {b..<b + t} \<union> {a..<a + s}"
        using True by auto
      then show ?thesis
        using g wf(3,4) assms(4,6) True False by (simp add: h add.assoc Un_ac)
    next
      case False
      then have "Suc (b + t) \<le> a"
        using \<open>b + t \<le> a\<close> by simp
      then show ?thesis
        using Cons.IH [OF wf(6) _ disj(2)] wf \<open>\<not> a < b\<close> False by (simp add: h Un_ac)
    qed
  qed
qed

text \<open>Putting a block back that was just taken restores the list.\<close>

lemma insert_hole_skip:
  "(\<And>b t. (b, t) \<in> set pre \<Longrightarrow> b + t < a) \<Longrightarrow> insert_hole (a, s) (pre @ rest) = pre @ insert_hole (a, s) rest"
proof (induction pre)
  case (Cons h pre)
  obtain b t where h: "h = (b, t)"
    by (cases h)
  have "b + t < a" "insert_hole (a, s) (pre @ rest) = pre @ insert_hole (a, s) rest"
    using Cons by (simp_all add: h)
  then show ?case
    by (simp add: h)
qed simp

lemma glue_apart: "holes_wf (Suc (a + s)) hi hs \<Longrightarrow> glue (a, s) hs = (a, s) # hs"
  by (cases hs) auto

lemma carve_insert:
  assumes c: "carve n (2 ^ k) (a, s) = Some (front, p, rear)" and wf: "holes_wf lo hi ((a, s) # hs)"
    and n: "4 dvd n" "8 \<le> n"
  shows "insert_hole (p, n) (parts front rear @ hs) = (a, s) # hs"
proof -
  have d: "4 dvd a" "4 dvd s" and hs: "holes_wf (Suc (a + s)) hi hs"
    using wf by auto
  note f = carve_Some [OF c d n]
  have whole: "insert_hole (a, s) hs = (a, s) # hs"
    using glue_apart [OF hs] hs by (cases hs) auto
  show ?thesis
    using f(3,4) whole glue_apart [OF hs] n unfolding f(5,7) by auto
qed

lemma first_fit_insert:
  assumes "first_fit n (2 ^ k) hs = Some (p, hs')" and wf: "holes_wf lo hi hs" and n: "4 dvd n" "8 \<le> n"
  shows "insert_hole (p, n) hs' = hs"
proof -
  obtain pre h post front rear where hs: "hs = pre @ h # post" "hs' = pre @ parts front rear @ post"
    and c: "carve n (2 ^ k) h = Some (front, p, rear)"
    by (rule first_fit_split [OF assms(1)])
  obtain a s where h: "h = (a, s)"
    by (cases h)
  have as: "4 dvd a" "4 dvd s"
    using holes_wf_member [OF wf, of a s] by (auto simp: hs h)
  have "b + t < p" if "(b, t) \<in> set pre" for b t
    using holes_wf_before [of lo hi pre "h # post" b t a s] that wf carve_Some(3) [OF c [unfolded h] as n]
    by (simp add: hs h)
  then have "insert_hole (p, n) hs' = pre @ insert_hole (p, n) (parts front rear @ post)"
    unfolding hs(2) by (rule insert_hole_skip)
  also have "insert_hole (p, n) (parts front rear @ post) = h # post"
    unfolding h by (rule carve_insert [OF c [unfolded h] _ n, of lo hi])
      (use holes_wf_suffix [of lo hi pre "h # post"] wf in \<open>simp add: hs h\<close>)
  finally show ?thesis
    by (simp add: hs(1))
qed

section \<open>Canonical form\<close>

text \<open>Since holes never touch, a list of holes is determined by its free bytes.\<close>

lemma first_interval:
  fixes a z c u :: nat
  assumes eq: "{a..<a + z} \<union> A = {c..<c + u} \<union> B" and above: "\<forall>x\<in>A. a + z < x" "\<forall>x\<in>B. c + u < x"
    and pos: "0 < z" "0 < u"
  shows "a = c \<and> z = u \<and> A = B"
proof -
  have start: "c \<le> a" if "{a..<a + z} \<union> A = {c..<c + u} \<union> B" "\<forall>x\<in>B. c + u < x" "0 < z" for a z c u :: nat and A B
  proof -
    have "a \<in> {c..<c + u} \<union> B"
      using that(1,3) by (metis Un_iff atLeastLessThan_iff less_add_same_cancel1 order_refl)
    then show ?thesis
      using that(2) by auto
  qed
  have ac: "a = c"
    using start [OF eq above(2) pos(1)] start [OF eq [symmetric] above(1) pos(2)] by simp
  have len: "u \<le> z" if "{a..<a + z} \<union> A = {a..<a + u} \<union> B" "\<forall>x\<in>A. a + z < x" for z u A B
  proof (rule ccontr)
    assume "\<not> u \<le> z"
    then have "a + z \<in> {a..<a + z} \<union> A"
      using that(1) by auto
    then show False
      using that(2) by auto
  qed
  have zu: "z = u"
    using len [of z A u B] len [of u B z A] eq above ac by simp
  have "A = ({a..<a + z} \<union> A) - {a..<a + z}" "B = ({c..<c + u} \<union> B) - {c..<c + u}"
    using above by fastforce+
  then show ?thesis
    using ac zu eq by simp
qed

lemma holes_canonical:
  "holes_wf lo hi hs \<Longrightarrow> holes_wf lo' hi hs' \<Longrightarrow> free_bytes hs = free_bytes hs' \<Longrightarrow> hs = hs'"
proof (induction hs arbitrary: lo lo' hs')
  case Nil
  then show ?case
    by (cases hs') auto
next
  case (Cons h hs)
  obtain a z where h: "h = (a, z)"
    by (cases h)
  have w: "holes_wf (Suc (a + z)) hi hs" "8 \<le> z"
    using Cons.prems(1) by (simp_all add: h)
  obtain c u hs2 where hs': "hs' = (c, u) # hs2"
    using Cons.prems(3) w(2) by (cases hs') (auto simp: h)
  have w2: "holes_wf (Suc (c + u)) hi hs2" "8 \<le> u"
    using Cons.prems(2) by (simp_all add: hs')
  have "a = c \<and> z = u \<and> free_bytes hs = free_bytes hs2"
    by (rule first_interval) (use Cons.prems(3) w w2 free_bytes_lower [OF w(1)] free_bytes_lower [OF w2(1)] in \<open>auto simp: h hs' Suc_le_eq\<close>)
  then show ?case
    using Cons.IH [OF w(1) w2(1)] by (simp add: h hs')
qed

end
