(* ===== verification/HoleList.thy ===== *)
theory HoleList
  imports Hole HoleSpec
begin

text \<open>
  How a chain of nodes in memory represents a hole list (\<open>seg\<close>), and what the single memory
  operations of \<open>Hole\<close> do to it. The programs only ever change the memory and the link of the
  dummy node, so every state they reach has the form \<open>with_list s m n\<close>; the rules in \<open>hole_run\<close>
  run one step of a program on such a state.
\<close>

named_theorems hole_run "one step of a hole-list program on a state \<open>with_list s m n\<close>"

section \<open>States of a list operation\<close>

definition with_list :: "'x hole_state_scheme \<Rightarrow> memory \<Rightarrow> usize option \<Rightarrow> 'x hole_state_scheme" where
  "with_list s m n =
     s\<lparr>mem := m, holes := (holes s)\<lparr>hl_first := (hl_first (holes s))\<lparr>hnext := n\<rparr>\<rparr>\<rparr>"

lemma with_list_id: "with_list s (mem s) (hnext (hl_first (holes s))) = s"
  by (simp add: with_list_def)

lemma with_list_select [simp]:
  "mem (with_list s m n) = m" "hnext (hl_first (holes (with_list s m n))) = n"
  "hsize (hl_first (holes (with_list s m n))) = hsize (hl_first (holes s))"
  "hl_top (holes (with_list s m n)) = hl_top (holes s)"
  "hl_bottom (holes (with_list s m n)) = hl_bottom (holes s)"
  "hl_pending_extend (holes (with_list s m n)) = hl_pending_extend (holes s)"
  "with_list (with_list s m n) m' n' = with_list s m' n'"
  by (simp_all add: with_list_def)

lemma with_list_update:
  "(with_list s m n)\<lparr>mem := m'\<rparr> = with_list s m' n"
  "(with_list s m n)\<lparr>holes := (holes (with_list s m n))
     \<lparr>hl_first := (hl_first (holes (with_list s m n)))\<lparr>hnext := v\<rparr>\<rparr>\<rparr> = with_list s m v"
  by (cases s, simp add: with_list_def)+

lemma with_list_run [hole_run]:
  "bind (get_hole (At a)) g (with_list s m n) = g (read_hole m a) (with_list s m n)"
  "bind (get_hole Dummy) g (with_list s m n) = g ((hl_first (holes s))\<lparr>hnext := n\<rparr>) (with_list s m n)"
  "bind (set_next (At a) v) g' (with_list s m n) = g' () (with_list s (write_hnext m a v) n)"
  "bind (set_next Dummy v) g' (with_list s m n) = g' () (with_list s m v)"
  "bind (set_size a w) g' (with_list s m n) = g' () (with_list s (write_hsize m a w) n)"
  "bind (ptr_write a h) g' (with_list s m n) = g' () (with_list s (write_hole m a h) n)"
  "set_next (At a) v (with_list s m n) = Ret () (with_list s (write_hnext m a v) n)"
  "set_next Dummy v (with_list s m n) = Ret () (with_list s m v)"
  "set_size a w (with_list s m n) = Ret () (with_list s (write_hsize m a w) n)"
  "bind HoleList_cursor g'' (with_list s m n) = g'' (case n of
       Some hole \<Rightarrow> Some \<lparr>c_prev = Dummy, c_hole = hole, c_top = hl_top (holes s)\<rparr>
     | None \<Rightarrow> None) (with_list s m n)"
  by (simp_all add: bind_def get_hole_def gets_def set_next_def modify_def set_size_def
      ptr_write_def HoleList_cursor_def with_list_update split: option.split)
    (simp add: with_list_def)

section \<open>Nodes\<close>

lemma dec_enc [simp]: "v \<noteq> Some 0 \<Longrightarrow> dec_link (enc_link v) = v"
  by (auto simp: dec_link_def enc_link_def split: option.split)

lemma read_write_same [simp]:
  "hnext h \<noteq> Some 0 \<Longrightarrow> read_hole (write_hole m a h) a = h"
  "v \<noteq> Some 0 \<Longrightarrow> read_hole (write_hnext m a v) a = (read_hole m a)\<lparr>hnext := v\<rparr>"
  "read_hole (write_hsize m a w) a = (read_hole m a)\<lparr>hsize := w\<rparr>"
  by (simp_all add: read_hole_def write_hole_def write_hnext_def write_hsize_def ram.pair_same
      ram.load_store_same ram.load_store_apart apart_def word_le_nat_alt)

lemma read_write_apart:
  assumes "apart 8 a b"
  shows "read_hole (write_hole m a h) b = read_hole m b"
    and "read_hole (write_hnext m a v) b = read_hole m b"
    and "read_hole (write_hsize m a w) b = read_hole m b"
  using ram.pair_apart [OF assms]
  by (simp_all add: read_hole_def write_hole_def write_hnext_def write_hsize_def)

lemma word_diff_outside:
  assumes "unat (x::usize) \<notin> {a..<a + 8}" and "a + 8 \<le> 2 ^ 32"
  shows "8 \<le> x - word_of_nat a"
proof -
  have "unat (word_of_nat a :: usize) = a"
    using assms(2) by simp
  then show ?thesis
    unfolding word_le_nat_alt unat_sub_if' using assms by auto
qed

lemma write_outside:
  assumes "a + 8 \<le> 2 ^ 32"
  shows "same_outside {a..<a + 8} m (write_hole m (word_of_nat a) h)"
    and "same_outside {a..<a + 8} m (write_hnext m (word_of_nat a) v)"
    and "same_outside {a..<a + 8} m (write_hsize m (word_of_nat a) w)"
  using word_diff_outside [OF _ assms] ram.pair_byte_outside
  by (auto simp: same_outside_def write_hole_def write_hnext_def write_hsize_def)

lemma apart_nat:
  assumes "a + 8 \<le> b \<or> b + 8 \<le> a" and "a + 8 \<le> 2 ^ 32" and "b + 8 \<le> 2 ^ 32"
  shows "apart 8 (word_of_nat a) (word_of_nat b)"
  using assms by (intro apartI) auto

section \<open>Chains of nodes\<close>

fun seg :: "memory \<Rightarrow> usize option \<Rightarrow> region list \<Rightarrow> usize option \<Rightarrow> bool" where
  "seg m p [] q \<longleftrightarrow> p = q"
| "seg m p ((a, s) # hs) q \<longleftrightarrow>
     p = Some (word_of_nat a) \<and> hsize (read_hole m (word_of_nat a)) = word_of_nat s \<and>
     seg m (hnext (read_hole m (word_of_nat a))) hs q"

lemma seg_append [simp]: "seg m p (xs @ ys) q \<longleftrightarrow> (\<exists>r. seg m p xs r \<and> seg m r ys q)"
  by (induction xs arbitrary: p) auto

lemma seg_cong:
  assumes "\<And>a s. (a, s) \<in> set hs \<Longrightarrow> read_hole m' (word_of_nat a) = read_hole m (word_of_nat a)"
  shows "seg m' p hs q \<longleftrightarrow> seg m p hs q"
  using assms by (induction hs arbitrary: p) force+

fun head_link :: "region list \<Rightarrow> usize option \<Rightarrow> usize option" where
  "head_link [] q = q"
| "head_link ((a, s) # hs) q = Some (word_of_nat a)"

lemma seg_head: "seg m p hs q \<Longrightarrow> p = head_link hs q"
  by (cases hs) auto

lemma head_link_nonnull:
  assumes "holes_wf lo hi hs" and "0 < lo" and "hi \<le> 2 ^ 32" and "q \<noteq> Some 0"
  shows "head_link hs q \<noteq> Some 0"
proof (cases hs)
  case (Cons h hs')
  then obtain a s where h: "hs = (a, s) # hs'"
    by (cases h) auto
  then show ?thesis
    using assms by auto
qed (use assms in simp)

text \<open>The node before a suffix of the list: the dummy, or the last node of the prefix.\<close>

definition prev_ref :: "region list \<Rightarrow> hole_ref" where
  "prev_ref pre = (if pre = [] then Dummy else At (word_of_nat (fst (last pre))))"

definition relink_mem :: "memory \<Rightarrow> region list \<Rightarrow> usize option \<Rightarrow> memory" where
  "relink_mem m pre v = (if pre = [] then m else write_hnext m (word_of_nat (fst (last pre))) v)"

definition relink_head :: "usize option \<Rightarrow> region list \<Rightarrow> usize option \<Rightarrow> usize option" where
  "relink_head n pre v = (if pre = [] then v else n)"

lemma relink_head_twice [simp]: "relink_head (relink_head n pre v) pre w = relink_head n pre w"
  by (simp add: relink_head_def)

lemma set_next_prev [hole_run]:
  "bind (set_next (prev_ref pre) v) g (with_list s m n)
     = g () (with_list s (relink_mem m pre v) (relink_head n pre v))"
  "set_next (prev_ref pre) v (with_list s m n)
     = Ret () (with_list s (relink_mem m pre v) (relink_head n pre v))"
  by (simp_all add: prev_ref_def relink_mem_def relink_head_def hole_run)

lemma relink_seg:
  assumes "seg m n pre r" and "holes_wf lo hi pre" and "hi \<le> 2 ^ 32" and "v \<noteq> Some 0"
  shows "seg (relink_mem m pre v) (relink_head n pre v) pre v"
proof (cases pre rule: rev_cases)
  case Nil
  then show ?thesis
    by (simp add: relink_head_def)
next
  case (snoc xs h)
  obtain b t where h: "h = (b, t)"
    by (cases h)
  have wf: "holes_wf lo hi (xs @ [(b, t)])"
    using assms(2) by (simp add: snoc h)
  have b: "b + 8 \<le> hi"
    using holes_wf_member [OF wf, of b t] by simp
  have "read_hole (write_hnext m (word_of_nat b) v) (word_of_nat a) = read_hole m (word_of_nat a)"
    if "(a, s) \<in> set xs" for a s
  proof -
    have "a + s < b" "8 \<le> s"
      using holes_wf_before [OF wf that] holes_wf_member [OF wf, of a s] that by auto
    then show ?thesis
      using b assms(3) by (intro read_write_apart apart_nat) auto
  qed
  then have "seg (write_hnext m (word_of_nat b) v) n xs q \<longleftrightarrow> seg m n xs q" for q
    by (rule seg_cong)
  then show ?thesis
    using assms(1,4) by (auto simp: snoc h relink_mem_def relink_head_def)
qed

lemma relink_apart:
  assumes "\<And>a s. (a, s) \<in> set pre \<Longrightarrow> apart 8 (word_of_nat a) x"
  shows "read_hole (relink_mem m pre v) x = read_hole m x"
  using assms [of "fst (last pre)" "snd (last pre)"] by (auto simp: relink_mem_def read_write_apart)

lemma relink_outside:
  assumes "holes_wf lo hi pre" and "hi \<le> 2 ^ 32"
  shows "same_outside (free_bytes pre) m (relink_mem m pre v)"
proof (cases "pre = []")
  case False
  define b where "b = fst (last pre)"
  have mem: "(b, snd (last pre)) \<in> set pre"
    using False by (simp add: b_def)
  then have *: "8 \<le> snd (last pre)" "b + snd (last pre) \<le> hi"
    using holes_wf_member [OF assms(1)] by blast+
  then have "{b..<b + 8} \<subseteq> free_bytes pre"
    using hole_in_free_bytes [OF mem] by auto
  then show ?thesis
    using write_outside(2) [of b m v] * assms(2) False
    by (auto simp: relink_mem_def b_def [symmetric] intro: same_outside_mono)
qed (simp add: relink_mem_def)

section \<open>Writing new nodes\<close>

fun write_nodes :: "memory \<Rightarrow> region list \<Rightarrow> usize option \<Rightarrow> memory" where
  "write_nodes m [] q = m"
| "write_nodes m ((a, s) # hs) q =
     write_hole (write_nodes m hs q) (word_of_nat a) \<lparr>hsize = word_of_nat s, hnext = head_link hs q\<rparr>"

lemma write_nodes_apart:
  assumes "\<And>a s. (a, s) \<in> set hs \<Longrightarrow> apart 8 (word_of_nat a) x"
  shows "read_hole (write_nodes m hs q) x = read_hole m x"
  using assms
proof (induction hs)
  case (Cons h hs)
  obtain a s where h: "h = (a, s)"
    by (cases h)
  have "apart 8 (word_of_nat a) x"
    using Cons.prems [of a s] by (simp add: h)
  moreover have "read_hole (write_nodes m hs q) x = read_hole m x"
    by (rule Cons.IH, rule Cons.prems, rule list.set_intros)
  ultimately show ?case
    by (simp add: h read_write_apart)
qed simp

lemma write_nodes_seg:
  assumes "holes_wf lo hi hs" and "0 < lo" and "hi \<le> 2 ^ 32" and "q \<noteq> Some 0"
  shows "seg (write_nodes m hs q) (head_link hs q) hs q"
  using assms(1,2)
proof (induction hs arbitrary: lo)
  case (Cons h hs)
  obtain a s where h: "h = (a, s)"
    by (cases h)
  have wf: "holes_wf (Suc (a + s)) hi hs" and a: "8 \<le> s" "a + s \<le> hi"
    using Cons.prems(1) by (simp_all add: h)
  have "head_link hs q \<noteq> Some 0"
    using wf assms(3,4) by (intro head_link_nonnull) auto
  moreover have "seg (write_hole (write_nodes m hs q) (word_of_nat a) x) p hs r
      \<longleftrightarrow> seg (write_nodes m hs q) p hs r" for x p r
  proof (rule seg_cong)
    fix b t
    assume "(b, t) \<in> set hs"
    then show "read_hole (write_hole (write_nodes m hs q) (word_of_nat a) x) (word_of_nat b)
        = read_hole (write_nodes m hs q) (word_of_nat b)"
      using holes_wf_member [OF wf, of b t] a assms(3) by (intro read_write_apart apart_nat) auto
  qed
  ultimately show ?case
    using Cons.IH [OF wf] by (simp add: h)
qed simp

lemma write_nodes_outside:
  assumes "holes_wf lo hi hs" and "hi \<le> 2 ^ 32"
  shows "same_outside (free_bytes hs) m (write_nodes m hs q)"
  using assms(1)
proof (induction hs arbitrary: lo)
  case (Cons h hs)
  obtain a s where h: "h = (a, s)"
    by (cases h)
  have wf: "holes_wf (Suc (a + s)) hi hs" and a: "8 \<le> s" "a + s \<le> hi"
    using Cons.prems by (simp_all add: h)
  have "same_outside {a..<a + 8} (write_nodes m hs q) (write_nodes m (h # hs) q)"
    using write_outside(1) a assms(2) by (simp add: h)
  then have "same_outside (free_bytes (h # hs)) (write_nodes m hs q) (write_nodes m (h # hs) q)"
    by (rule same_outside_mono) (use a in \<open>auto simp: h\<close>)
  moreover have "same_outside (free_bytes (h # hs)) m (write_nodes m hs q)"
    by (rule same_outside_mono [OF Cons.IH [OF wf]]) (auto simp: h)
  ultimately show ?case
    by (rule same_outside_trans [rotated])
qed simp

end
