(* ===== verification/HoleAlloc.thy ===== *)
theory HoleAlloc
  imports HoleList
begin

text \<open>
  \<^verbatim>\<open>allocate_first_fit\<close> implements \<open>first_fit\<close>: the plan of \<^verbatim>\<open>split_current\<close> is \<open>carve\<close>, its pointer
  surgery replaces the hole by its paddings, and the loop returns on every well-formed list. The
  region ends below \<open>addr_limit\<close>, so no address computed on the way wraps.
\<close>

text \<open>An alignment is at most \<open>2 ^ 30\<close> when the layout has a size, and one node may follow the block.\<close>

definition addr_limit :: nat where
  "addr_limit = 0xBFFFFFF8"

definition info :: "region \<Rightarrow> HoleInfo" where
  "info r = \<lparr>hi_addr = word_of_nat (fst r), hi_size = word_of_nat (snd r)\<rparr>"

section \<open>The plan\<close>

lemma pow2_le_2_30:
  assumes "(2::nat) ^ k < 2 ^ 31"
  shows "(2::nat) ^ k \<le> 2 ^ 30"
proof -
  have "k < 31"
    using assms by (rule power_less_imp_less_exp [rotated]) simp
  then show ?thesis
    by (intro power_increasing) auto
qed

lemma align_up_nat:
  assumes "is_power_of_two al" and "align_upn x (unat al) < 2 ^ 32" and "x < 2 ^ 32"
  shows "align_up (word_of_nat x) al = ret (word_of_nat (align_upn x (unat al)))"
proof -
  let ?w = "word_of_nat x :: usize"
  have "unat (?w + (al - ?w mod al) mod al) = align_upn x (unat al)"
    using unat_align_up [OF assms(1), of ?w] assms(2,3) by simp
  then have "word_of_nat (unat (?w + (al - ?w mod al) mod al)) = (word_of_nat (align_upn x (unat al)) :: usize)"
    by (simp only:)
  then show ?thesis
    by (simp add: align_up_eq [OF assms(1)])
qed

lemma align_upn_fixed: "0 < n \<Longrightarrow> x = align_upn x n \<longleftrightarrow> n dvd x"
  using align_upn_dvd [of n x] by (auto simp: align_upn_id)

text \<open>Where the block goes: at the start of the hole, or behind a front padding that can hold a node.\<close>

definition placed :: "nat \<Rightarrow> nat \<Rightarrow> region option \<times> nat" where
  "placed A a = (if A dvd a then (None, a) else (Some (a, align_upn (a + 8) A - a), align_upn (a + 8) A))"

lemma carve_placed:
  "carve N A (a, sz) = (case placed A a of (front, p) \<Rightarrow>
     if sz < N \<or> a + sz < p + N then None else if p + N = a + sz then Some (front, p, None)
     else if p + N + 8 \<le> a + sz then Some (front, p, Some (p + N, a + sz - (p + N))) else None)"
  by (simp add: carve_def placed_def Let_def)

lemma placed_bounds:
  assumes "placed A a = (front, p)" and "A = 2 ^ k" and "4 dvd a"
  shows "a \<le> p" "p < a + 8 + A" "4 dvd p"
proof -
  have A: "0 < A"
    by (simp add: assms(2))
  show "a \<le> p" "p < a + 8 + A"
    using assms(1) align_upn_ge [of "a + 8" A] align_upn_less [OF A, of "a + 8"] A by (auto simp: placed_def split: if_splits)
  show "4 dvd p"
    using assms(1,3) pow2_dvd_4_cases [of a k] align_upn_dvd [OF A, of "a + 8"]
    by (auto simp: placed_def assms(2) split: if_splits intro: dvd_trans)
qed

lemma plan_front:
  assumes al: "is_power_of_two al" and top: "a + 8 + unat al < 2 ^ 32" and pl: "placed (unat al) a = (front, p)"
  shows "bind (align_up (word_of_nat a) al) (\<lambda>up.
      bind (if word_of_nat a = up then ret (None, word_of_nat a)
        else bind (HoleList_min_size b) (\<lambda>min_size.
             let new_start = word_of_nat a + min_size in
             bind (align_up new_start al) (\<lambda>aligned_addr.
             bind (usize_sub b aligned_addr (word_of_nat a)) (\<lambda>pad.
             ret (Some \<lparr>hi_addr = word_of_nat a, hi_size = pad\<rparr>, aligned_addr))))) g) =
    (g (map_option info front, word_of_nat p) :: ('s, 'c) prog)"
proof -
  let ?A = "unat al"
  have A: "0 < ?A"
    using is_power_of_two_pos [OF al] by simp
  have up: "(align_up (word_of_nat a) al :: ('s, usize) prog) = ret (word_of_nat (align_upn a ?A))"
    using align_up_nat [OF al, of a] align_upn_less [OF A, of a] top by simp
  have up8: "(align_up (word_of_nat a + 8) al :: ('s, usize) prog) = ret (word_of_nat (align_upn (a + 8) ?A))"
    using align_up_nat [OF al, of "a + 8"] align_upn_less [OF A, of "a + 8"] top by (simp add: add.commute)
  have fit: "(word_of_nat a = (word_of_nat (align_upn a ?A) :: usize)) = (?A dvd a)"
    using align_upn_fixed [OF A, of a] align_upn_less [OF A, of a] top by simp
  show ?thesis
  proof (cases "?A dvd a")
    case True
    then show ?thesis
      using pl fit up by (simp add: placed_def)
  next
    case False
    then have p: "front = Some (a, p - a)" "p = align_upn (a + 8) ?A" "a \<le> p" "p < 2 ^ 32"
      using pl align_upn_ge [of "a + 8" ?A] align_upn_less [OF A, of "a + 8"] A top by (auto simp: placed_def)
    then have "(usize_sub b (word_of_nat p) (word_of_nat a) :: ('s, usize) prog) = ret (word_of_nat (p - a))"
      by (simp add: usize_sub_ok)
    then show ?thesis
      using False fit up up8 p(1,2) by (simp add: info_def Let_def)
  qed
qed

lemma plan_rear:
  assumes "E < 2 ^ 32" and "H + 8 < 2 ^ 32" and "4 dvd E"
  shows "(if word_of_nat H < (word_of_nat E :: usize) then ret None else
      bind (usize_sub b (word_of_nat H) (word_of_nat E)) (\<lambda>back_padding_size.
      if back_padding_size = 0 then ret (Some (front, p, n, None)) else
      bind (align_up (word_of_nat E) align_of_Hole) (\<lambda>back_padding_start.
      let back_padding_end = back_padding_start + size_of_Hole in
      if back_padding_end \<le> word_of_nat H
      then ret (Some (front, p, n, Some \<lparr>hi_addr = back_padding_start, hi_size = back_padding_size\<rparr>))
      else ret None))) =
    ret (if H < E then None else if E = H then Some (front, p, n, None)
      else if E + 8 \<le> H then Some (front, p, n, Some (info (E, H - E))) else None)"
proof (cases "E \<le> H")
  case True
  have e4: "(align_up (word_of_nat E) align_of_Hole :: ('s, usize) prog) = ret (word_of_nat E)"
    using align_up_nat [of 4 E] assms by (simp add: align_upn_id align_of_Hole_def)
  have e8: "word_of_nat E + size_of_Hole = word_of_nat (E + 8)"
    by (simp add: size_of_Hole_def)
  have sub: "(usize_sub b (word_of_nat H) (word_of_nat E) :: ('s, usize) prog) = ret (word_of_nat (H - E))"
    using True assms by simp
  have le: "word_of_nat (E + 8) \<le> (word_of_nat H :: usize) \<longleftrightarrow> E + 8 \<le> H"
    using True assms by (intro word_of_nat_le_iff) simp_all
  show ?thesis
    unfolding sub bind_ret e4 Let_def e8 using le True assms by (simp add: info_def)
next
  case False
  then show ?thesis
    using assms by simp
qed

lemma split_plan_eq:
  assumes al: "is_power_of_two (lalign l)" and total: "unat (lsize l) + unat (lalign l) \<le> 2 ^ 31"
    and n: "8 \<le> unat (lsize l)" "4 dvd unat (lsize l)"
    and hole: "4 dvd a" "4 dvd sz" "8 \<le> sz" "a + sz \<le> addr_limit"
  shows "(split_plan b (word_of_nat a) (word_of_nat sz) l :: ('s, _) prog) =
    ret (map_option (\<lambda>(front, p, rear). (map_option info front, word_of_nat p, lsize l, map_option info rear))
          (carve (unat (lsize l)) (unat (lalign l)) (a, sz)))"
proof -
  obtain k where k: "unat (lalign l) = 2 ^ k"
    using al by (auto elim: is_power_of_two_unat)
  then have A: "unat (lalign l) \<le> 2 ^ 30"
    using pow2_le_2_30 [of k] total n(1) by auto
  obtain front p where pl: "placed (unat (lalign l)) a = (front, p)"
    by fastforce
  note p = placed_bounds [OF pl k hole(1)]
  have less: "word_of_nat sz < lsize l \<longleftrightarrow> sz < unat (lsize l)"
    using hole(4) by (simp add: addr_limit_def word_less_nat_alt)
  show ?thesis
  proof (cases "sz < unat (lsize l)")
    case True
    then show ?thesis
      by (simp add: split_plan_def Let_def less carve_placed pl)
  next
    case False
    define E where "E = p + unat (lsize l)"
    define H where "H = a + sz"
    have sums: "word_of_nat p + lsize l = word_of_nat E" "word_of_nat a + (word_of_nat sz :: usize) = word_of_nat H"
      by (simp_all add: E_def H_def)
    have top: "a + 8 + unat (lalign l) < 2 ^ 32" "E < 2 ^ 32" "H + 8 < 2 ^ 32" "4 dvd E"
      using p(2) False hole(3,4) A p(3) n(2) by (simp_all add: E_def H_def addr_limit_def)
    have "(split_plan b (word_of_nat a) (word_of_nat sz) l :: ('s, _) prog) =
      ret (if H < E then None else if E = H then Some (map_option info front, word_of_nat p, lsize l, None)
        else if E + 8 \<le> H then Some (map_option info front, word_of_nat p, lsize l, Some (info (E, H - E))) else None)"
      using False unfolding split_plan_def Let_def [of "lsize l"] Let_def [of "lalign l"] less
      by (simp only: if_False plan_front [OF al top(1) pl] prod.case sums Let_def [of "word_of_nat E"] Let_def [of "word_of_nat H"]
          plan_rear [OF top(2-4)])
    then show ?thesis
      using False by (simp add: carve_placed pl E_def H_def)
  qed
qed

section \<open>The surgery\<close>

lemma link_nonnull:
  assumes "seg m (hnext (read_hole m x)) hs None" and "holes_wf lo hi hs" and "0 < lo" and "hi \<le> 2 ^ 32"
  shows "hnext (read_hole m x) \<noteq> Some 0"
  using head_link_nonnull [OF assms(2-4), of None] seg_head [OF assms(1)] by simp

lemma split_surgery_run:
  "split_surgery \<lparr>c_prev = prev_ref pre, c_hole = x, c_top = tp\<rparr> (map_option info front) (map_option info rear)
     (with_list s m n) =
   (let m1 = relink_mem m pre None; q = hnext (read_hole m1 x);
        m2 = write_nodes (write_hnext m1 x None) (parts front rear) q
    in Ret () (with_list s (relink_mem m2 pre (head_link (parts front rear) q))
         (relink_head n pre (head_link (parts front rear) q))))"
  by (cases front; cases rear) (auto simp: split_surgery_def hole_run info_def Let_def)

lemma split_surgery_bind:
  assumes "m1 = relink_mem m pre None" and "q = hnext (read_hole m1 x)"
    and "m2 = write_nodes (write_hnext m1 x None) (parts front rear) q"
  shows "bind (split_surgery \<lparr>c_prev = prev_ref pre, c_hole = x, c_top = tp\<rparr>
      (map_option info front) (map_option info rear)) g (with_list s m n) =
    g () (with_list s (relink_mem m2 pre (head_link (parts front rear) q))
         (relink_head n pre (head_link (parts front rear) q)))"
  by (rule bind_Ret) (simp add: split_surgery_run Let_def assms)

text \<open>The nodes of the list lie apart from the bytes of a hole in it.\<close>

lemma hole_between:
  assumes wf: "holes_wf lo hi (pre @ (a, sz) # post)"
  shows "holes_wf lo hi pre" "holes_wf (Suc (a + sz)) hi post" "8 \<le> sz" "a + sz \<le> hi" "lo \<le> a"
    and "(b, t) \<in> set pre \<Longrightarrow> b + 8 \<le> a" and "(c, u) \<in> set post \<Longrightarrow> a + sz < c \<and> c + 8 \<le> hi"
proof -
  show wfs: "holes_wf lo hi pre" "holes_wf (Suc (a + sz)) hi post" "8 \<le> sz" "a + sz \<le> hi" "lo \<le> a"
    using wf holes_wf_member [OF wf, of a sz] by (auto simp: holes_wf_append)
  show "b + 8 \<le> a" if "(b, t) \<in> set pre"
    using holes_wf_before [OF wf that, of a sz] holes_wf_member [OF wfs(1) that] by simp
  show "a + sz < c \<and> c + 8 \<le> hi" if "(c, u) \<in> set post"
    using holes_wf_member [OF wfs(2) that] by auto
qed

lemma relink_apart_after:
  assumes wf: "holes_wf lo hi (pre @ (a, sz) # post)" and hi: "hi \<le> 2 ^ 32" and y: "a \<le> y" "y + 8 \<le> hi"
  shows "read_hole (relink_mem m pre v) (word_of_nat y) = read_hole m (word_of_nat y)"
  using hole_between(6) [OF wf] hi y by (intro relink_apart) (fastforce intro!: apart_nat)

lemma fill_hole_apart:
  assumes rs: "holes_wf a (a + sz) rs" and hi: "a + sz \<le> hi" "hi \<le> 2 ^ 32" "8 \<le> sz"
    and y: "y + 8 \<le> hi" "y + 8 \<le> a \<or> a + sz \<le> y"
  shows "read_hole (write_nodes (write_hnext m (word_of_nat a) None) rs q) (word_of_nat y) = read_hole m (word_of_nat y)"
proof -
  have "apart 8 (word_of_nat z) (word_of_nat y)" if "a \<le> z" "z + 8 \<le> a + sz" for z
    using that hi y by (auto intro!: apart_nat)
  moreover have "a \<le> z \<and> z + 8 \<le> a + sz" if "(z, t) \<in> set rs" for z t
    using holes_wf_member [OF rs that] by auto
  ultimately show ?thesis
    using hi(3) by (subst write_nodes_apart) (simp_all add: read_write_apart)
qed

lemma split_surgery_seg:
  assumes wf: "holes_wf lo hi (pre @ (a, sz) # post)" and lo: "0 < lo" and hi: "hi \<le> addr_limit"
    and seg: "seg m n (pre @ (a, sz) # post) None"
    and rs: "holes_wf a (a + sz) rs"
    and x: "x = word_of_nat a" and m1: "m1 = relink_mem m pre None"
    and q: "q = hnext (read_hole m1 x)"
    and m2: "m2 = write_nodes (write_hnext m1 x None) rs q"
  shows "seg (relink_mem m2 pre (head_link rs q)) (relink_head n pre (head_link rs q)) (pre @ rs @ post) None"
proof -
  let ?m = "relink_mem m2 pre (head_link rs q)"
  note b = hole_between [OF wf]
  have hi': "hi \<le> 2 ^ 32"
    using hi by (simp add: addr_limit_def)
  note after = relink_apart_after [OF wf hi']
  note filled = fill_hole_apart [OF rs b(4) hi' b(3), of _ m1 q, folded x, folded m2]
  obtain r where segs: "seg m n pre r" "r = Some x" "seg m (hnext (read_hole m x)) post None"
    using seg x by auto
  have q': "q = hnext (read_hole m x)"
    unfolding q m1 x using after b(3,4) by simp
  then have q0: "q \<noteq> Some 0"
    using link_nonnull [OF segs(3) b(2)] hi' by simp
  have v0: "head_link rs q \<noteq> Some 0"
    using head_link_nonnull [OF rs _ _ q0] lo b(4,5) hi' by simp
  have "seg m1 (relink_head n pre None) pre None"
    unfolding m1 using segs(1) b(1) hi' by (rule relink_seg) simp
  moreover have "read_hole m2 (word_of_nat c) = read_hole m1 (word_of_nat c)" if "(c, t) \<in> set pre" for c t
    using b(3,4) b(6) [OF that] by (intro filled) auto
  ultimately have "seg m2 (relink_head n pre None) pre None"
    using seg_cong [of pre m2 m1] by blast
  from relink_seg [OF this b(1) hi' v0]
  have "seg ?m (relink_head n pre (head_link rs q)) pre (head_link rs q)"
    by simp
  moreover have "seg ?m (head_link rs q) rs q"
  proof -
    have "seg m2 (head_link rs q) rs q"
      unfolding m2 using rs _ _ q0 by (rule write_nodes_seg) (use lo b(4,5) hi' in auto)
    moreover have "read_hole ?m (word_of_nat y) = read_hole m2 (word_of_nat y)" if "(y, u) \<in> set rs" for y u
      using holes_wf_member [OF rs that] b(4) by (intro after) auto
    ultimately show ?thesis
      using seg_cong [of rs ?m m2] by blast
  qed
  moreover have "seg ?m q post None"
  proof -
    have "read_hole ?m (word_of_nat c) = read_hole m (word_of_nat c)" if "(c, u) \<in> set post" for c u
      using b(7) [OF that] b(3) after [of c] filled [of c] unfolding m1 by simp
    then show ?thesis
      using seg_cong [of post ?m m] segs(3) q' by blast
  qed
  ultimately show ?thesis
    by auto
qed

lemma split_surgery_outside:
  assumes wf: "holes_wf lo hi (pre @ (a, sz) # post)" and hi: "hi \<le> addr_limit" and rs: "holes_wf a (a + sz) rs"
    and x: "x = word_of_nat a" and m1: "m1 = relink_mem m pre None"
    and m2: "m2 = write_nodes (write_hnext m1 x None) rs q"
  shows "same_outside (free_bytes (pre @ (a, sz) # post)) m (relink_mem m2 pre v)"
proof -
  let ?F = "free_bytes (pre @ (a, sz) # post)"
  note b = hole_between [OF wf]
  have hi': "hi \<le> 2 ^ 32"
    using hi by (simp add: addr_limit_def)
  have sub: "free_bytes pre \<subseteq> ?F" "{a..<a + 8} \<subseteq> ?F" "free_bytes rs \<subseteq> ?F"
    using free_bytes_lower [OF rs] free_bytes_upper [OF rs] b(3) by auto
  have "same_outside ?F m m1"
    unfolding m1 using relink_outside [OF b(1) hi'] sub(1) by (rule same_outside_mono)
  moreover have "same_outside ?F m1 (write_hnext m1 x None)"
    unfolding x using write_outside(2) sub(2) by (rule same_outside_mono) (use b(3,4) hi' in simp)
  moreover have "same_outside ?F (write_hnext m1 x None) m2"
    unfolding m2 using write_nodes_outside [OF rs] sub(3) by (rule same_outside_mono) (use b(4) hi' in simp)
  moreover have "same_outside ?F m2 (relink_mem m2 pre v)"
    using relink_outside [OF b(1) hi'] sub(1) by (rule same_outside_mono)
  ultimately show ?thesis
    by (blast intro: same_outside_trans)
qed

section \<open>One round of the loop\<close>

text \<open>The layouts the loop works with: sizes already rounded up to whole words.\<close>

definition whole_words :: "Layout \<Rightarrow> bool" where
  "whole_words l \<longleftrightarrow> is_power_of_two (lalign l) \<and> unat (lsize l) + unat (lalign l) \<le> 2 ^ 31 \<and>
     8 \<le> unat (lsize l) \<and> 4 dvd unat (lsize l)"

lemma hole_facts:
  assumes "holes_wf lo hi (pre @ (a, sz) # post)"
  shows "4 dvd a" "4 dvd sz" "8 \<le> sz" "a + sz \<le> hi" "lo \<le> a"
  using holes_wf_member [OF assms, of a sz] by auto

lemma split_current_None:
  assumes "whole_words l" and wf: "holes_wf lo hi (pre @ (a, sz) # post)" and hi: "hi \<le> addr_limit"
    and seg: "seg m n (pre @ (a, sz) # post) None"
    and "carve (unat (lsize l)) (unat (lalign l)) (a, sz) = None"
  shows "split_current b \<lparr>c_prev = prev_ref pre, c_hole = word_of_nat a, c_top = tp\<rparr> l (with_list s m n)
    = Ret (Inl \<lparr>c_prev = prev_ref pre, c_hole = word_of_nat a, c_top = tp\<rparr>) (with_list s m n)"
proof -
  have "hsize (read_hole m (word_of_nat a)) = word_of_nat sz"
    using seg by auto
  then show ?thesis
    using assms(1,5) hole_facts [OF wf] hi
    by (simp add: split_current_def Cursor_current_def hole_run whole_words_def split_plan_eq run_simps)
qed

lemma split_current_Some:
  assumes l: "whole_words l" and wf: "holes_wf lo hi (pre @ (a, sz) # post)"
    and lo: "0 < lo" and hi: "hi \<le> addr_limit" and seg: "seg m n (pre @ (a, sz) # post) None"
    and c: "carve (unat (lsize l)) (unat (lalign l)) (a, sz) = Some (front, p, rear)"
  shows "\<exists>m' n'. split_current b \<lparr>c_prev = prev_ref pre, c_hole = word_of_nat a, c_top = tp\<rparr> l (with_list s m n)
      = Ret (Inr (word_of_nat p, lsize l)) (with_list s m' n') \<and>
    seg m' n' (pre @ parts front rear @ post) None \<and>
    same_outside (free_bytes (pre @ (a, sz) # post)) m m'"
proof -
  define x where "x = (word_of_nat a :: usize)"
  define m1 where "m1 = relink_mem m pre None"
  define q where "q = hnext (read_hole m1 x)"
  define m2 where "m2 = write_nodes (write_hnext m1 x None) (parts front rear) q"
  obtain k where k: "unat (lalign l) = 2 ^ k"
    using l by (auto simp: whole_words_def elim: is_power_of_two_unat)
  note wf2 = wf [unfolded holes_wf_append]
  note parts = carve_parts [OF c [unfolded k] conjunct2 [OF wf2]]
  have "holes_wf a (a + sz) [(a, sz)]"
    using hole_facts [OF wf] by simp
  from carve_parts(1) [OF c [unfolded k] this] have rs: "holes_wf a (a + sz) (parts front rear)"
    using l by (simp add: whole_words_def)
  have rwf: "holes_wf lo hi (pre @ parts front rear @ post)"
    using parts(1) l conjunct1 [OF wf2] unfolding holes_wf_append [of lo hi pre]
    by (simp add: whole_words_def)
  have h: "hsize (read_hole m x) = word_of_nat sz"
    using seg by (auto simp: x_def)
  have "split_current b \<lparr>c_prev = prev_ref pre, c_hole = x, c_top = tp\<rparr> l (with_list s m n)
      = Ret (Inr (word_of_nat p, lsize l)) (with_list s (relink_mem m2 pre (head_link (parts front rear) q))
          (relink_head n pre (head_link (parts front rear) q)))"
    using l hole_facts [OF wf] hi c h
    by (simp add: split_current_def Cursor_current_def hole_run whole_words_def x_def split_plan_eq
        split_surgery_bind [OF m1_def q_def m2_def, unfolded x_def] run_simps)
  then show ?thesis
    using split_surgery_seg [OF wf lo hi seg rs x_def m1_def q_def m2_def]
      split_surgery_outside [OF wf hi rs x_def m1_def m2_def] unfolding x_def
    by blast
qed

section \<open>The loop and the whole allocation\<close>

lemma Cursor_next_run:
  assumes "seg m n (pre @ (a, sz) # post) None"
  shows "Cursor_next \<lparr>c_prev = pr, c_hole = word_of_nat a, c_top = tp\<rparr> (with_list s m n) =
    Ret (case post of [] \<Rightarrow> None
         | (c, u) # _ \<Rightarrow> Some \<lparr>c_prev = prev_ref (pre @ [(a, sz)]), c_hole = word_of_nat c, c_top = tp\<rparr>)
      (with_list s m n)"
proof -
  have "hnext (read_hole m (word_of_nat a)) = head_link post None"
    using assms by (auto dest: seg_head)
  then show ?thesis
    by (auto simp: Cursor_next_def hole_run run_simps prev_ref_def split: list.split)
qed

lemma allocate_loop_None:
  assumes "whole_words l" and "holes_wf lo hi (pre @ (a, sz) # post)" and "hi \<le> addr_limit"
    and seg: "seg m n (pre @ (a, sz) # post) None"
    and "carve (unat (lsize l)) (unat (lalign l)) (a, sz) = None"
  shows "allocate_loop b l \<lparr>c_prev = prev_ref pre, c_hole = word_of_nat a, c_top = tp\<rparr> (with_list s m n) =
    (case post of [] \<Rightarrow> Ret (Inl ()) (with_list s m n)
     | (c, u) # _ \<Rightarrow> allocate_loop b l
         \<lparr>c_prev = prev_ref (pre @ [(a, sz)]), c_hole = word_of_nat c, c_top = tp\<rparr> (with_list s m n))"
  by (subst allocate_loop.simps)
    (auto simp: bind_def split_current_None [OF assms] Cursor_next_run [OF seg] run_simps split: list.split)

lemma allocate_loop_Some:
  assumes l: "whole_words l" and wf: "holes_wf lo hi (pre @ (a, sz) # post)"
    and lo: "0 < lo" and hi: "hi \<le> addr_limit" and seg: "seg m n (pre @ (a, sz) # post) None"
    and c: "carve (unat (lsize l)) (unat (lalign l)) (a, sz) = Some (front, p, rear)"
  shows "\<exists>m' n'. allocate_loop b l \<lparr>c_prev = prev_ref pre, c_hole = word_of_nat a, c_top = tp\<rparr> (with_list s m n)
      = Ret (Inr (word_of_nat p, l)) (with_list s m' n') \<and>
    seg m' n' (pre @ parts front rear @ post) None \<and>
    same_outside (free_bytes (pre @ (a, sz) # post)) m m'"
proof -
  obtain m' n' where run: "split_current b \<lparr>c_prev = prev_ref pre, c_hole = word_of_nat a, c_top = tp\<rparr> l
      (with_list s m n) = Ret (Inr (word_of_nat p, lsize l)) (with_list s m' n')"
    and seg': "seg m' n' (pre @ parts front rear @ post) None"
    and out: "same_outside (free_bytes (pre @ (a, sz) # post)) m m'"
    using split_current_Some [OF assms] by blast
  obtain k where k: "unat (lalign l) = 2 ^ k"
    using l by (auto simp: whole_words_def elim: is_power_of_two_unat)
  have "0 < p" "p < 2 ^ 32"
    using carve_Some(3,4) [OF c [unfolded k]] hole_facts [OF wf] l lo hi
    by (auto simp: whole_words_def addr_limit_def)
  then have "allocate_loop b l \<lparr>c_prev = prev_ref pre, c_hole = word_of_nat a, c_top = tp\<rparr> (with_list s m n)
      = Ret (Inr (word_of_nat p, l)) (with_list s m' n')"
    by (subst allocate_loop.simps) (simp add: bind_def run run_simps)
  then show ?thesis
    using seg' out by blast
qed

text \<open>
  From any hole of a well-formed list, the loop returns: with the block of the first hole it fits
  in and the paddings in its place, or with an error and the list unchanged.
\<close>

definition fit_result :: "Layout \<Rightarrow> region list \<Rightarrow> unit + usize \<times> Layout" where
  "fit_result l hs = (case first_fit (unat (lsize l)) (unat (lalign l)) hs of
     None \<Rightarrow> Inl () | Some (p, _) \<Rightarrow> Inr (word_of_nat p, l))"

definition fit_holes :: "Layout \<Rightarrow> region list \<Rightarrow> region list" where
  "fit_holes l hs = (case first_fit (unat (lsize l)) (unat (lalign l)) hs of None \<Rightarrow> hs | Some (_, hs') \<Rightarrow> hs')"

lemma fit_carve_Some:
  assumes "carve (unat (lsize l)) (unat (lalign l)) h = Some (front, p, rear)"
  shows "fit_result l (h # hs) = Inr (word_of_nat p, l)" "fit_holes l (h # hs) = parts front rear @ hs"
  using assms by (simp_all add: fit_result_def fit_holes_def)

lemma fit_carve_None:
  assumes "carve (unat (lsize l)) (unat (lalign l)) h = None"
  shows "fit_result l (h # hs) = fit_result l hs" "fit_holes l (h # hs) = h # fit_holes l hs"
  using assms by (auto simp: fit_result_def fit_holes_def split: option.split)

lemma allocate_loop_run:
  assumes l: "whole_words l" and lo: "0 < lo" and hi: "hi \<le> addr_limit"
    and "holes_wf lo hi (pre @ (a, sz) # post)" and "seg m n (pre @ (a, sz) # post) None"
  shows "\<exists>m' n'. allocate_loop b l \<lparr>c_prev = prev_ref pre, c_hole = word_of_nat a, c_top = tp\<rparr> (with_list s m n)
      = Ret (fit_result l ((a, sz) # post)) (with_list s m' n') \<and>
    seg m' n' (pre @ fit_holes l ((a, sz) # post)) None \<and>
    same_outside (free_bytes (pre @ (a, sz) # post)) m m'"
  using assms(4,5)
proof (induction post arbitrary: pre a sz)
  case Nil
  show ?case
  proof (cases "carve (unat (lsize l)) (unat (lalign l)) (a, sz)")
    case None
    then show ?thesis
      using allocate_loop_None [OF l Nil.prems(1) hi Nil.prems(2) None, of b tp s] Nil.prems(2)
      by (intro exI [of _ m] exI [of _ n]) (simp add: fit_result_def fit_holes_def)
  next
    case (Some r)
    then obtain front p rear where r: "carve (unat (lsize l)) (unat (lalign l)) (a, sz) = Some (front, p, rear)"
      by (cases r) auto
    show ?thesis
      using allocate_loop_Some [OF l Nil.prems(1) lo hi Nil.prems(2) r] by (simp add: fit_carve_Some [OF r])
  qed
next
  case (Cons h post)
  obtain c u where h: "h = (c, u)"
    by (cases h)
  show ?case
  proof (cases "carve (unat (lsize l)) (unat (lalign l)) (a, sz)")
    case None
    then show ?thesis
      using Cons.IH [of "pre @ [(a, sz)]" c u] Cons.prems
        allocate_loop_None [OF l Cons.prems(1) hi Cons.prems(2) None, of b tp s]
      by (simp add: h fit_carve_None)
  next
    case (Some r)
    then obtain front p rear where r: "carve (unat (lsize l)) (unat (lalign l)) (a, sz) = Some (front, p, rear)"
      by (cases r) auto
    show ?thesis
      using allocate_loop_Some [OF l Cons.prems(1) lo hi Cons.prems(2) r] by (simp add: fit_carve_Some [OF r])
  qed
qed

end
