(* ===== verification/HoleFree.thy ===== *)
theory HoleFree
  imports HoleAlloc
begin

text \<open>
  \<^verbatim>\<open>deallocate\<close> implements \<open>insert_hole\<close>: the freed block becomes a node, the walk finds its place
  between its neighbours, and the bounded merge joins it with those it touches. No assertion of
  the code fails for a block that overlaps no hole.
\<close>

section \<open>Lists whose neighbours may touch\<close>

text \<open>During a deallocation a list is sorted and disjoint, but not yet merged.\<close>

fun spaced :: "nat \<Rightarrow> region list \<Rightarrow> bool" where
  "spaced hi [] \<longleftrightarrow> True"
| "spaced hi ((a, s) # hs) \<longleftrightarrow> 8 \<le> s \<and> a + s \<le> hi \<and> (\<forall>(b, t)\<in>set hs. a + s \<le> b) \<and> spaced hi hs"

lemma spaced_append:
  "spaced hi (xs @ ys) \<longleftrightarrow> spaced hi xs \<and> spaced hi ys \<and> (\<forall>(a, s)\<in>set xs. \<forall>(b, t)\<in>set ys. a + s \<le> b)"
  by (induction xs rule: spaced.induct) auto

lemma spaced_member: "spaced hi hs \<Longrightarrow> (a, s) \<in> set hs \<Longrightarrow> 8 \<le> s \<and> a + s \<le> hi"
  by (induction hs rule: spaced.induct) auto

lemma holes_wf_spaced: "holes_wf lo hi hs \<Longrightarrow> spaced hi hs"
proof (induction hs arbitrary: lo)
  case (Cons h hs)
  obtain a s where h: "h = (a, s)"
    by (cases h)
  have wf: "holes_wf (Suc (a + s)) hi hs"
    using Cons.prems by (simp add: h)
  show ?case
    using Cons.IH [OF wf] Cons.prems holes_wf_member [OF wf] by (fastforce simp: h)
qed simp

text \<open>No four bytes are left over between a block and the ends of the region.\<close>

definition no_gap :: "nat \<Rightarrow> nat \<Rightarrow> nat \<Rightarrow> nat \<Rightarrow> bool" where
  "no_gap lo tp a z \<longleftrightarrow> (a = lo \<or> lo + 8 \<le> a) \<and> (a + z + 8 \<le> tp \<or> tp \<le> a + z)"

section \<open>Linking a node into the chain\<close>

lemma spaced_apart:
  assumes "spaced hi (xs @ (a, s) # ys)" and "hi \<le> 2 ^ 32" and "(b, t) \<in> set xs \<union> set ys"
  shows "apart 8 (word_of_nat a) (word_of_nat b)"
  using assms spaced_member [OF assms(1), of b t]
  by (auto simp: spaced_append intro!: apart_nat)

lemma insert_node_outside:
  assumes "holes_wf lo hi P" and "hi \<le> 2 ^ 32" and "8 \<le> z" and "a + z \<le> hi"
  shows "same_outside (free_bytes P \<union> {a..<a + z}) m (write_hnext (relink_mem m P v) (word_of_nat a) q)"
proof (rule same_outside_trans)
  show "same_outside (free_bytes P \<union> {a..<a + z}) m (relink_mem m P v)"
    using relink_outside [OF assms(1,2)] by (rule same_outside_mono) simp
  show "same_outside (free_bytes P \<union> {a..<a + z}) (relink_mem m P v) (write_hnext (relink_mem m P v) (word_of_nat a) q)"
    using write_outside(2) by (rule same_outside_mono) (use assms(2-) in auto)
qed

lemma insert_node_seg:
  assumes sp: "spaced hi (P @ (a, z) # Q)" and hi: "hi \<le> 2 ^ 32" and a0: "0 < a"
    and wf: "holes_wf lo hi (P @ Q)" "0 < lo"
    and seg: "seg m n (P @ Q) None" and node: "hsize (read_hole m (word_of_nat a)) = word_of_nat z"
  shows "seg (write_hnext (relink_mem m P (Some (word_of_nat a))) (word_of_nat a) (head_link Q None))
      (relink_head n P (Some (word_of_nat a))) (P @ (a, z) # Q) None" (is "seg ?m' ?n' _ _")
    and "same_outside (free_bytes P \<union> {a..<a + z}) m
      (write_hnext (relink_mem m P (Some (word_of_nat a))) (word_of_nat a) (head_link Q None))"
proof -
  let ?x = "word_of_nat a :: usize"
  let ?m1 = "relink_mem m P (Some ?x)"
  obtain r where segs: "seg m n P r" "seg m r Q None"
    using seg by auto
  have wfP: "holes_wf lo hi P" and wfQ: "holes_wf lo hi Q"
    using wf(1) by (rule holes_wf_prefix, rule holes_wf_suffix)
  have az: "8 \<le> z" "a + z \<le> hi"
    using sp by (auto simp: spaced_append)
  have x0: "Some ?x \<noteq> Some 0"
    using a0 az hi by auto
  have q0: "head_link Q None \<noteq> Some 0"
    using head_link_nonnull [OF wfQ wf(2) hi] by simp
  have ap: "apart 8 ?x (word_of_nat b)" "apart 8 (word_of_nat b) ?x"
    if "(b, t) \<in> set P \<union> set Q" for b t
    using spaced_apart [OF sp hi that] by (simp_all add: apart_sym)
  have "seg ?m1 ?n' P (Some ?x)"
    using segs(1) wfP hi x0 by (rule relink_seg)
  moreover have "read_hole ?m' (word_of_nat b) = read_hole ?m1 (word_of_nat b)" if "(b, t) \<in> set P" for b t
    using ap(1) [of b t] that by (simp add: read_write_apart)
  ultimately have segP: "seg ?m' ?n' P (Some ?x)"
    using seg_cong [of P ?m' ?m1] by blast
  have "read_hole ?m1 ?x = read_hole m ?x"
    using ap(2) by (intro relink_apart) auto
  then have at: "read_hole ?m' ?x = \<lparr>hsize = word_of_nat z, hnext = head_link Q None\<rparr>"
    using q0 node by simp
  have "seg ?m' r Q None"
  proof -
    have "read_hole ?m' (word_of_nat c) = read_hole m (word_of_nat c)" if c: "(c, u) \<in> set Q" for c u
    proof -
      have "apart 8 (word_of_nat b) (word_of_nat c)" if "(b, t) \<in> set P" for b t
        using holes_wf_before [OF wf(1) that c] holes_wf_member [OF wf(1), of b t]
          holes_wf_member [OF wf(1), of c u] that c hi
        by (intro apart_nat) auto
      then show ?thesis
        using ap(1) [of c u] c by (simp add: read_write_apart relink_apart)
    qed
    then show ?thesis
      using seg_cong [of Q ?m' m] segs(2) by blast
  qed
  then show "seg ?m' ?n' (P @ (a, z) # Q) None"
    using segP at seg_head [OF segs(2)] by auto
  show "same_outside (free_bytes P \<union> {a..<a + z}) m ?m'"
    using wfP hi az by (rule insert_node_outside)
qed

section \<open>The ends of the region\<close>

lemma check_merge_top_id:
  assumes "hsize (read_hole m (word_of_nat a)) = word_of_nat z" and "a + z + 8 \<le> unat tp \<or> unat tp \<le> a + z"
    and "4 dvd a + z" and "a + z \<le> addr_limit"
  shows "check_merge_top b (word_of_nat a) tp (with_list s m n) = Ret () (with_list s m n)"
    and "bind (check_merge_top b (word_of_nat a) tp) g (with_list s m n) = g () (with_list s m n)"
proof -
  have e: "word_of_nat a + (word_of_nat z :: usize) = word_of_nat (a + z)"
    by simp
  have up: "align_up (word_of_nat (a + z)) align_of_Hole = ret (word_of_nat (a + z))"
    using align_up_nat [of 4 "a + z"] assms(3,4) by (simp add: align_upn_id align_of_Hole_def addr_limit_def)
  have "word_of_nat (a + z) + size_of_Hole = word_of_nat (a + z + 8)"
    by (simp add: size_of_Hole_def)
  moreover have "unat (word_of_nat (a + z + 8) :: usize) = a + z + 8" "unat (word_of_nat (a + z) :: usize) = a + z"
    using assms(4) by (simp_all add: addr_limit_def del: of_nat_add)
  ultimately show run: "check_merge_top b (word_of_nat a) tp (with_list s m n) = Ret () (with_list s m n)"
    using assms(1,2) unfolding check_merge_top_def with_list_run Let_def assms(1) e up bind_ret
    by (auto simp: word_less_nat_alt run_simps)
  show "bind (check_merge_top b (word_of_nat a) tp) g (with_list s m n) = g () (with_list s m n)"
    by (simp add: bind_def run)
qed

lemma make_hole_run:
  assumes "4 dvd a" and "a < 2 ^ 32"
  shows "bind (make_hole b (word_of_nat a) v) g (with_list s m n) =
    g (word_of_nat a) (with_list s (write_hole m (word_of_nat a) \<lparr>hsize = v, hnext = None\<rparr>) n)"
proof -
  have "unat (word_of_nat a mod 4 :: usize) = 0"
    using assms by (simp add: unat_mod dvd_eq_mod_eq_0)
  then have "(word_of_nat a :: usize) mod align_of_Hole = 0"
    by (simp add: align_of_Hole_def unat_eq_0)
  then show ?thesis
    by (simp add: make_hole_def hole_run)
qed

lemma write_read_hole: "write_hole m x (read_hole m x) = m"
proof -
  have "enc_link (dec_link w) = w" for w
    by (simp add: enc_link_def dec_link_def)
  then show ?thesis
    by (simp add: write_hole_def write_hsize_def write_hnext_def read_hole_def ram.store_load)
qed

lemma check_merge_bottom_id:
  assumes node: "read_hole m (word_of_nat a) = \<lparr>hsize = v, hnext = None\<rparr>"
    and a: "a = lo \<or> lo + 8 \<le> a" and "4 dvd lo" and "a < 2 ^ 32"
  shows "bind (check_merge_bottom b (word_of_nat a) (word_of_nat lo)) g (with_list s m n)
    = g (word_of_nat a) (with_list s m n)"
proof -
  have lo: "lo < 2 ^ 32"
    using a assms(4) by auto
  then have "unat (word_of_nat lo mod 4 :: usize) = 0"
    using assms(3) by (simp add: unat_mod dvd_eq_mod_eq_0)
  then have dbg: "(word_of_nat lo :: usize) mod align_of_Hole = 0"
    by (simp add: align_of_Hole_def unat_eq_0)
  show ?thesis
  proof (cases "a = lo")
    case True
    then show ?thesis
      using dbg node lo write_read_hole [of m "word_of_nat lo"] assms(3)
      by (simp add: check_merge_bottom_def hole_run make_hole_run)
  next
    case False
    then have "lo + 8 < 2 ^ 32" "lo + 8 \<le> a"
      using a assms(4) by auto
    then have "\<not> word_of_nat a < (word_of_nat lo + size_of_Hole :: usize)"
      using assms(4) word_of_nat_less_iff [of a "lo + 8"] by (simp add: size_of_Hole_def)
    then show ?thesis
      using dbg by (simp add: check_merge_bottom_def)
  qed
qed

section \<open>Merging\<close>

lemma spaced_merge:
  "spaced hi (pre @ (a, z) # (a + z, u) # post) \<Longrightarrow> spaced hi (pre @ (a, z + u) # post)"
  by (fastforce simp: spaced_append)

lemma merge_nodes_outside:
  assumes "c = a + z" and "8 \<le> z" and "8 \<le> u" and "c + u \<le> hi" and "hi \<le> 2 ^ 32"
  shows "same_outside {a..<c + u} m
    (write_hsize (write_hnext (write_hnext m (word_of_nat c) None) (word_of_nat a) q) (word_of_nat a) n)"
proof (rule same_outside_trans [OF same_outside_trans])
  show "same_outside {a..<c + u} m (write_hnext m (word_of_nat c) None)"
    using write_outside(2) by (rule same_outside_mono) (use assms in auto)
  show "same_outside {a..<c + u} (write_hnext m (word_of_nat c) None) (write_hnext (write_hnext m (word_of_nat c) None) (word_of_nat a) q)"
    using write_outside(2) by (rule same_outside_mono) (use assms in auto)
  show "same_outside {a..<c + u} (write_hnext (write_hnext m (word_of_nat c) None) (word_of_nat a) q)
      (write_hsize (write_hnext (write_hnext m (word_of_nat c) None) (word_of_nat a) q) (word_of_nat a) n)"
    using write_outside(3) by (rule same_outside_mono) (use assms in auto)
qed

lemma merge_step_touching:
  assumes sp: "spaced hi (pre @ (a, z) # (c, u) # post)" and hi: "hi \<le> addr_limit" and c: "c = a + z"
    and seg: "seg m n (pre @ (a, z) # (c, u) # post) None" and post0: "head_link post None \<noteq> Some 0"
  shows "\<exists>m'. merge_next_loop b (Suc k) (word_of_nat a) tp (with_list s m n)
      = merge_next_loop b k (word_of_nat a) tp (with_list s m' n) \<and>
    seg m' n (pre @ (a, z + u) # post) None \<and> same_outside {a..<c + u} m m'"
proof -
  have hi': "hi \<le> 2 ^ 32"
    using hi by (simp add: addr_limit_def)
  have sz: "8 \<le> z" "8 \<le> u" "c + u \<le> hi"
    using sp by (auto simp: spaced_append)
  define x y where "x = (word_of_nat a :: usize)" and "y = (word_of_nat c :: usize)"
  define q where "q = head_link post None"
  define m' where "m' = write_hsize (write_hnext (write_hnext m y None) x q) x (word_of_nat (z + u))"
  have xy: "apart 8 y x"
    unfolding x_def y_def using sz c hi' by (intro apart_nat) auto
  obtain r where segs: "seg m n pre r" "r = Some x" "hsize (read_hole m x) = word_of_nat z"
      "hnext (read_hole m x) = Some y" "hsize (read_hole m y) = word_of_nat u"
      "hnext (read_hole m y) = q" "seg m q post None"
    using seg seg_head [of m "hnext (read_hole m y)" post None] by (auto simp: x_def y_def q_def)
  have q0: "q \<noteq> Some 0"
    using post0 by (simp add: q_def)
  have sum: "unat (word_of_nat z :: usize) + unat (word_of_nat u :: usize) < 2 ^ 32"
    using sz c hi by (simp add: addr_limit_def)
  have run: "merge_next_loop b (Suc k) x tp (with_list s m n) = merge_next_loop b k x tp (with_list s m' n)"
    using segs xy sum by (simp add: hole_run read_write_apart m'_def y_def c q0 flip: x_def)
  have at: "read_hole m' (word_of_nat d) = read_hole m (word_of_nat d)"
    if "(d, t) \<in> set pre \<union> set post" for d t
  proof -
    have "apart 8 x (word_of_nat d)" "apart 8 y (word_of_nat d)"
      using spaced_apart [OF sp hi', of d t] spaced_apart [of hi "pre @ [(a, z)]" c u post d t] sp hi' that
      by (auto simp: x_def y_def)
    then show ?thesis
      by (simp add: m'_def read_write_apart)
  qed
  have "seg m' n pre r" "seg m' q post None"
    using seg_cong [of pre m' m] seg_cong [of post m' m] segs(1,7) at by blast+
  moreover have "read_hole m' x = \<lparr>hsize = word_of_nat (z + u), hnext = q\<rparr>"
    using post0 by (simp add: m'_def q_def)
  ultimately have "seg m' n (pre @ (a, z + u) # post) None"
    using segs(2) by (auto simp: x_def)
  moreover have "same_outside {a..<c + u} m m'"
    unfolding m'_def x_def y_def using c sz hi' by (rule merge_nodes_outside)
  ultimately show ?thesis
    using run unfolding x_def by blast
qed

lemma merge_step_apart:
  assumes "seg m n (pre @ (a, z) # (c, u) # post) None" and "a + z < c" and "c < 2 ^ 32"
  shows "merge_next_loop b (Suc k) (word_of_nat a) tp (with_list s m n)
    = merge_next_loop b k (word_of_nat c) tp (with_list s m n)"
proof -
  have "hnext (read_hole m (word_of_nat a)) = Some (word_of_nat c)"
    and "hsize (read_hole m (word_of_nat a)) = word_of_nat z"
    using assms(1) by auto
  moreover have "word_of_nat a + word_of_nat z \<noteq> (word_of_nat c :: usize)"
    using assms(2,3) word_of_nat_inject [of "a + z" c] by simp
  ultimately show ?thesis
    by (simp add: hole_run)
qed

lemma merge_step_last:
  assumes "seg m n (pre @ [(a, z)]) None" and "a + z + 8 \<le> unat tp \<or> unat tp \<le> a + z"
    and "4 dvd a + z" and "a + z \<le> addr_limit"
  shows "merge_next_loop b (Suc k) (word_of_nat a) tp (with_list s m n) = Ret () (with_list s m n)"
proof -
  have "hnext (read_hole m (word_of_nat a)) = None" "hsize (read_hole m (word_of_nat a)) = word_of_nat z"
    using assms(1) by auto
  then show ?thesis
    using check_merge_top_id [OF _ assms(2-4)] by (simp add: hole_run)
qed

text \<open>One round of merging at a node is \<open>glue\<close>.\<close>

lemma merge_glue:
  assumes sp: "spaced hi (pre @ (a, z) # Q)" and hi: "hi \<le> addr_limit"
    and seg: "seg m n (pre @ (a, z) # Q) None" and wfQ: "holes_wf lo hi Q" "0 < lo"
    and e: "a + z + 8 \<le> unat tp \<or> unat tp \<le> a + z" "4 dvd a + z"
  shows "\<exists>m'. merge_next_loop b (Suc 0) (word_of_nat a) tp (with_list s m n) = Ret () (with_list s m' n) \<and>
    seg m' n (pre @ glue (a, z) Q) None \<and> same_outside ({a..<a + z} \<union> free_bytes Q) m m'"
proof (cases Q)
  case Nil
  have "a + z \<le> addr_limit"
    using sp hi by (auto simp: spaced_append)
  then show ?thesis
    using merge_step_last [of m n pre a z, OF _ e] seg Nil by fastforce
next
  case (Cons h post)
  obtain c u where Q: "Q = (c, u) # post"
    using Cons by (cases h) auto
  have c: "a + z \<le> c" "c + u \<le> hi"
    using sp by (auto simp: Q spaced_append)
  show ?thesis
  proof (cases "a + z = c")
    case True
    have "holes_wf (Suc (c + u)) hi post"
      using wfQ(1) by (simp add: Q)
    then have "head_link post None \<noteq> Some 0"
      using head_link_nonnull [of "Suc (c + u)" hi post None] hi by (simp add: addr_limit_def)
    from merge_step_touching [OF sp [unfolded Q] hi True [symmetric] seg [unfolded Q] this, of b 0 tp s]
    obtain m' where "merge_next_loop b (Suc 0) (word_of_nat a) tp (with_list s m n) = Ret () (with_list s m' n)"
      and "seg m' n (pre @ (a, z + u) # post) None" and "same_outside {a..<c + u} m m'"
      by (auto simp: run_simps)
    moreover have "{a..<c + u} \<subseteq> {a..<a + z} \<union> free_bytes Q"
      using True by (auto simp: Q)
    ultimately show ?thesis
      using True by (auto simp: Q intro: same_outside_mono)
  next
    case False
    then have "merge_next_loop b (Suc 0) (word_of_nat a) tp (with_list s m n) = Ret () (with_list s m n)"
      using merge_step_apart [OF seg [unfolded Q], of b 0 tp s] c hi by (simp add: addr_limit_def run_simps)
    then show ?thesis
      using seg False by (auto simp: Q)
  qed
qed

section \<open>Finding the place of the freed node\<close>

lemma spaced_insert:
  assumes wf: "holes_wf lo hi (P @ Q)" and az: "8 \<le> z" "a + z \<le> hi"
    and disj: "{a..<a + z} \<inter> free_bytes (P @ Q) = {}"
    and P: "\<And>b t. (b, t) \<in> set P \<Longrightarrow> b \<le> a" and Q: "\<And>c u. (c, u) \<in> set Q \<Longrightarrow> a < c"
  shows "spaced hi (P @ (a, z) # Q)"
proof -
  have dj: "a + z \<le> b \<or> b + t \<le> a" if "(b, t) \<in> set (P @ Q)" for b t
  proof (rule disjoint_intervals)
    show "{a..<a + z} \<inter> {b..<b + t} = {}"
      using disj hole_in_free_bytes [OF that] by blast
  qed (use az holes_wf_member [OF wf that] in auto)
  have "b + t \<le> a" if "(b, t) \<in> set P" for b t
    using dj [of b t] P [OF that] that az by auto
  moreover have "a + z \<le> c" if "(c, u) \<in> set Q" for c u
    using dj [of c u] Q [OF that] that by auto
  ultimately show ?thesis
    using holes_wf_spaced [OF wf] az by (auto simp: spaced_append)
qed

lemma try_insert_after_skip:
  assumes seg: "seg m n (pre @ (b0, t) # (c, u) # post) None" and "c \<le> a" and "a < 2 ^ 32"
  shows "try_insert_after b \<lparr>c_prev = pr, c_hole = word_of_nat b0, c_top = tp\<rparr> (word_of_nat a) (with_list s m n)
    = Ret (Inl ()) (with_list s m n)"
proof -
  have "hnext (read_hole m (word_of_nat b0)) = Some (word_of_nat c)"
    using seg by auto
  moreover have "\<not> word_of_nat a < (word_of_nat c :: usize)"
    using assms(2,3) by simp
  ultimately show ?thesis
    by (simp add: try_insert_after_def Cursor_current_def hole_run run_simps)
qed

lemma try_insert_after_here:
  assumes seg: "seg m n (P @ (b0, t) # Q) None" and sp: "spaced hi (P @ (b0, t) # (a, z) # Q)"
    and hi: "hi \<le> addr_limit" and node: "hsize (read_hole m (word_of_nat a)) = word_of_nat z"
  shows "try_insert_after b \<lparr>c_prev = pr, c_hole = word_of_nat b0, c_top = tp\<rparr> (word_of_nat a)
      (with_list (s :: 'x hole_state_scheme) m n)
    = Ret (Inr ()) (with_list s (write_hnext (relink_mem m (P @ [(b0, t)]) (Some (word_of_nat a)))
        (word_of_nat a) (head_link Q None)) n)"
proof -
  have nxt: "hnext (read_hole m (word_of_nat b0)) = head_link Q None"
    and bs: "hsize (read_hole m (word_of_nat b0)) = word_of_nat t"
    using seg by (auto dest: seg_head)
  have b0: "8 \<le> t" "b0 + t \<le> a" "8 \<le> z" "a + z \<le> hi"
    using sp by (auto simp: spaced_append)
  have lt: "word_of_nat b0 < (word_of_nat a :: usize)" "word_of_nat b0 + word_of_nat t \<le> (word_of_nat a :: usize)"
    using b0 hi word_of_nat_le_iff [of "b0 + t" a] by (simp_all add: addr_limit_def)
  have here: "(case head_link Q None of None \<Rightarrow> ret True
      | Some nxt \<Rightarrow> if word_of_nat a < nxt then
          bind (assert_that (word_of_nat a + word_of_nat z \<le> nxt)
            ''Freed node aliases existing hole! Bad free?'') (\<lambda>_. ret True)
        else ret False) = (ret True :: ('x hole_state_scheme, bool) prog)"
  proof (cases Q)
    case (Cons h Q')
    then obtain c u where h: "Q = (c, u) # Q'"
      by (cases h) auto
    then have "a + z \<le> c" "c < 2 ^ 32"
      using sp hi by (auto simp: spaced_append addr_limit_def)
    then show ?thesis
      using b0 word_of_nat_le_iff [of "a + z" c] by (simp add: h)
  qed simp
  show ?thesis
    unfolding try_insert_after_def Cursor_current_def Cursor.simps Let_def with_list_run nxt bs node here
    by (simp add: hole_run nxt lt run_simps relink_mem_def)
qed

text \<open>The memory after the node at \<open>a\<close> is linked in behind the holes \<open>P\<close> and before \<open>Q\<close>.\<close>

definition linked :: "memory \<Rightarrow> region list \<Rightarrow> nat \<Rightarrow> region list \<Rightarrow> memory" where
  "linked m P a Q = write_hnext (relink_mem m P (Some (word_of_nat a))) (word_of_nat a) (head_link Q None)"

lemma find_home_run:
  assumes hi: "hi \<le> addr_limit" and az: "8 \<le> z" "a + z \<le> hi"
    and node: "hsize (read_hole m (word_of_nat a)) = word_of_nat z"
    and "holes_wf lo hi (pre @ (c, u) # post)" and "{a..<a + z} \<inter> free_bytes (pre @ (c, u) # post) = {}"
    and "seg m n (pre @ (c, u) # post) None" and "c \<le> a"
  shows "\<exists>P c' u' Q. pre @ (c, u) # post = P @ (c', u') # Q \<and> spaced hi (P @ (c', u') # (a, z) # Q) \<and>
    find_home b (word_of_nat a) \<lparr>c_prev = prev_ref pre, c_hole = word_of_nat c, c_top = tp\<rparr> (with_list s m n)
      = Ret \<lparr>c_prev = prev_ref P, c_hole = word_of_nat c', c_top = tp\<rparr>
          (with_list s (linked m (P @ [(c', u')]) a Q) n)"
  using assms(5-8)
proof (induction post arbitrary: pre c u)
  case Nil
  have sp: "spaced hi ((pre @ [(c, u)]) @ (a, z) # [])"
    using Nil.prems holes_wf_before [OF Nil.prems(1), of _ _ c u] az
    by (intro spaced_insert [of lo]) fastforce+
  then show ?case
    using try_insert_after_here [OF Nil.prems(3) _ hi node, of b "prev_ref pre" tp s]
    by (intro exI [of _ pre] exI [of _ c] exI [of _ u] exI [of _ "[]"], subst find_home.simps)
      (simp add: bind_def run_simps linked_def)
next
  case (Cons h post)
  obtain d v where h: "h = (d, v)"
    by (cases h)
  have a: "a < 2 ^ 32"
    using az hi by (simp add: addr_limit_def)
  show ?case
  proof (cases "d \<le> a")
    case True
    have "find_home b (word_of_nat a) \<lparr>c_prev = prev_ref pre, c_hole = word_of_nat c, c_top = tp\<rparr> (with_list s m n)
        = find_home b (word_of_nat a)
            \<lparr>c_prev = prev_ref (pre @ [(c, u)]), c_hole = word_of_nat d, c_top = tp\<rparr> (with_list s m n)"
      using try_insert_after_skip [OF Cons.prems(3) [unfolded h] True a, of b "prev_ref pre" tp s]
        Cursor_next_run [OF Cons.prems(3) [unfolded h], of "prev_ref pre" tp s]
      by (subst find_home.simps) (simp add: bind_def run_simps)
    then show ?thesis
      using Cons.IH [of "pre @ [(c, u)]" d v] Cons.prems True by (simp add: h)
  next
    case False
    have sp: "spaced hi ((pre @ [(c, u)]) @ (a, z) # (h # post))"
    proof (rule spaced_insert [of lo])
      show "b \<le> a" if "(b, t) \<in> set (pre @ [(c, u)])" for b t
        using that Cons.prems(4) holes_wf_before [OF Cons.prems(1), of b t c u] by auto
      show "a < e" if "(e, w) \<in> set (h # post)" for e w
        using that False holes_wf_before [of lo hi "pre @ [(c, u), (d, v)]" post d v e w] Cons.prems(1)
        by (auto simp: h)
    qed (use Cons.prems az in auto)
    then show ?thesis
      using try_insert_after_here [OF Cons.prems(3) _ hi node, of b "prev_ref pre" tp s]
      by (intro exI [of _ pre] exI [of _ c] exI [of _ u] exI [of _ "h # post"], subst find_home.simps)
        (simp add: bind_def run_simps linked_def)
  qed
qed

lemma insert_hole_at:
  "spaced hi (P @ (c, u) # (a, z) # Q) \<Longrightarrow> insert_hole (a, z) (P @ (c, u) # Q) =
     P @ (if c + u = a then glue (c, u + z) Q else (c, u) # glue (a, z) Q)"
proof (induction P)
  case Nil
  then show ?case
    by (cases Q) auto
next
  case (Cons h P)
  obtain b t where h: "h = (b, t)"
    by (cases h)
  have "b + t \<le> c" "8 \<le> u" "c + u \<le> a"
    using Cons.prems by (auto simp: h spaced_append)
  then show ?case
    using Cons by (simp add: h)
qed

text \<open>Both merges behind the place found are the two rounds of \<open>insert_hole\<close>.\<close>

lemma merge_two:
  assumes sp: "spaced hi (P @ (c, u) # (a, z) # Q)" and hi: "hi \<le> addr_limit" and a0: "0 < lo"
    and wf: "holes_wf lo hi Q" and seg: "seg m n (P @ (c, u) # (a, z) # Q) None"
    and e: "a + z + 8 \<le> unat tp \<or> unat tp \<le> a + z" "4 dvd a + z"
  shows "\<exists>m'. merge_next_loop b 2 (word_of_nat c) tp (with_list s m n) = Ret () (with_list s m' n) \<and>
    seg m' n (insert_hole (a, z) (P @ (c, u) # Q)) None \<and>
    same_outside ({c..<c + u} \<union> {a..<a + z} \<union> free_bytes Q) m m'"
proof -
  have two: "(2 :: nat) = Suc (Suc 0)"
    by simp
  have ca: "c + u \<le> a" "a + z \<le> hi"
    using sp by (auto simp: spaced_append)
  have Q0: "head_link Q None \<noteq> Some 0"
    using head_link_nonnull [OF wf a0, of None] hi by (simp add: addr_limit_def)
  show ?thesis
  proof (cases "c + u = a")
    case True
    from merge_step_touching [OF sp hi True [symmetric] seg Q0, of b "Suc 0" tp s]
    obtain m1 where run: "merge_next_loop b 2 (word_of_nat c) tp (with_list s m n)
        = merge_next_loop b (Suc 0) (word_of_nat c) tp (with_list s m1 n)"
      and seg1: "seg m1 n (P @ (c, u + z) # Q) None" and out1: "same_outside {c..<a + z} m m1"
      unfolding two by blast
    have sp1: "spaced hi (P @ (c, u + z) # Q)"
      using spaced_merge sp True by blast
    have "c + (u + z) + 8 \<le> unat tp \<or> unat tp \<le> c + (u + z)" "4 dvd c + (u + z)"
      using e True by (auto simp: add.assoc)
    from merge_glue [OF sp1 hi seg1 wf a0 this, of b s]
    obtain m' where "merge_next_loop b (Suc 0) (word_of_nat c) tp (with_list s m1 n) = Ret () (with_list s m' n)"
      and "seg m' n (P @ glue (c, u + z) Q) None" and out2: "same_outside ({c..<c + (u + z)} \<union> free_bytes Q) m1 m'"
      by blast
    moreover have "same_outside ({c..<c + u} \<union> {a..<a + z} \<union> free_bytes Q) m m'"
      using True by (intro same_outside_trans [OF same_outside_mono [OF out1] same_outside_mono [OF out2]]) auto
    ultimately show ?thesis
      using run insert_hole_at [OF sp] True by auto
  next
    case False
    have "merge_next_loop b 2 (word_of_nat c) tp (with_list s m n)
        = merge_next_loop b (Suc 0) (word_of_nat a) tp (with_list s m n)"
      unfolding two by (rule merge_step_apart [OF seg]) (use ca False hi in \<open>auto simp: addr_limit_def\<close>)
    moreover obtain m' where "merge_next_loop b (Suc 0) (word_of_nat a) tp (with_list s m n) = Ret () (with_list s m' n)"
      and "seg m' n ((P @ [(c, u)]) @ glue (a, z) Q) None" and "same_outside ({a..<a + z} \<union> free_bytes Q) m m'"
      using merge_glue [of hi "P @ [(c, u)]" a z Q m n lo tp b s] sp hi seg wf a0 e by auto
    ultimately show ?thesis
      using insert_hole_at [OF sp] False by (auto intro: same_outside_mono)
  qed
qed

section \<open>Insertion before the first hole\<close>

text \<open>The block given back: inside the region, whole words, no free byte in it.\<close>

definition freeable :: "nat \<Rightarrow> nat \<Rightarrow> region list \<Rightarrow> nat \<Rightarrow> nat \<Rightarrow> bool" where
  "freeable lo hi hs a z \<longleftrightarrow> lo \<le> a \<and> 4 dvd a \<and> 4 dvd z \<and> 8 \<le> z \<and> a + z \<le> hi \<and> {a..<a + z} \<inter> free_bytes hs = {}"

lemma freeable_apart:
  assumes "holes_wf lo hi hs" and "freeable lo hi hs a z" and "(b, t) \<in> set hs"
  shows "a + z \<le> b \<or> b + t \<le> a" and "8 \<le> t" and "b + t \<le> hi"
proof -
  show t: "8 \<le> t" "b + t \<le> hi"
    using holes_wf_member [OF assms(1,3)] by auto
  have "{a..<a + z} \<inter> {b..<b + t} = {}"
    using assms(2) hole_in_free_bytes [OF assms(3)] unfolding freeable_def by blast
  then show "a + z \<le> b \<or> b + t \<le> a"
    by (rule disjoint_intervals) (use t assms(2) in \<open>auto simp: freeable_def\<close>)
qed

lemma free_node_apart:
  assumes "holes_wf lo hi hs" and "freeable lo hi hs a z" and "hi \<le> 2 ^ 32" and "(b, t) \<in> set hs"
  shows "apart 8 (word_of_nat a) (word_of_nat b)"
  using freeable_apart [OF assms(1,2,4)] assms(2,3) by (intro apart_nat) (auto simp: freeable_def)

lemma try_insert_back_front:
  assumes "a + z \<le> c" and "8 \<le> z" and "c < 2 ^ 32" and first: "hsize (hl_first (holes s)) = 0"
    and node: "read_hole m (word_of_nat a) = \<lparr>hsize = word_of_nat z, hnext = None\<rparr>"
    and lo: "a = lo \<or> lo + 8 \<le> a" "4 dvd lo"
  shows "bind (try_insert_back b \<lparr>c_prev = Dummy, c_hole = word_of_nat c, c_top = tp\<rparr> (word_of_nat a) (word_of_nat lo))
      g (with_list s m n)
    = g (Inr \<lparr>c_prev = Dummy, c_hole = word_of_nat a, c_top = tp\<rparr>)
        (with_list s (write_hnext m (word_of_nat a) (Some (word_of_nat c))) (Some (word_of_nat a)))"
proof -
  have "word_of_nat a < (word_of_nat c :: usize)" "word_of_nat a + word_of_nat z \<le> (word_of_nat c :: usize)"
    using assms(1-3) word_of_nat_le_iff [of "a + z" c] by simp_all
  then show ?thesis
    using assms(1-3) first
    by (simp add: try_insert_back_def Cursor_previous_def hole_run node check_merge_bottom_id [OF node lo])
qed

lemma try_insert_back_skip:
  assumes "c \<le> a" and "a < 2 ^ 32"
  shows "try_insert_back b \<lparr>c_prev = pr, c_hole = word_of_nat c, c_top = tp\<rparr> (word_of_nat a) bottom
    = ret (Inl \<lparr>c_prev = pr, c_hole = word_of_nat c, c_top = tp\<rparr>)"
  using assms by (simp add: try_insert_back_def)

lemma insert_hole_front: "a < c \<Longrightarrow> insert_hole (a, z) ((c, u) # Q) = glue (a, z) ((c, u) # Q)"
  by simp

section \<open>The whole deallocation\<close>

lemma deallocate_empty:
  assumes "4 dvd lo" and "4 dvd a" and "4 dvd z" and "8 \<le> z" and "0 < a" and "a + z \<le> addr_limit"
    and "no_gap lo (unat (hl_top (holes s))) a z" and "hl_bottom (holes s) = word_of_nat lo"
  shows "\<exists>m'. deallocate b (word_of_nat a) (word_of_nat z) (with_list s m None)
      = Ret () (with_list s m' (Some (word_of_nat a))) \<and>
    seg m' (Some (word_of_nat a)) [(a, z)] None \<and> same_outside {a..<a + z} m m'"
proof -
  define m0 where "m0 = write_hole m (word_of_nat a) \<lparr>hsize = word_of_nat z, hnext = None\<rparr>"
  have node: "read_hole m0 (word_of_nat a) = \<lparr>hsize = word_of_nat z, hnext = None\<rparr>"
    by (simp add: m0_def)
  have a: "a < 2 ^ 32"
    using assms(4,6) by (simp add: addr_limit_def)
  have gap: "a = lo \<or> lo + 8 \<le> a" "a + z + 8 \<le> unat (hl_top (holes s)) \<or> unat (hl_top (holes s)) \<le> a + z"
    using assms(7) by (auto simp: no_gap_def)
  have "deallocate b (word_of_nat a) (word_of_nat z) (with_list s m None)
      = Ret () (with_list s m0 (Some (word_of_nat a)))"
    using assms
    by (simp add: deallocate_def make_hole_run [OF assms(2) a] hole_run bind_gets node run_simps
        check_merge_bottom_id [OF node gap(1) assms(1) a] check_merge_top_id(2) [of m0 a z, OF _ gap(2)]
        flip: m0_def)
  moreover have "same_outside {a..<a + z} m m0"
    unfolding m0_def using write_outside(1) by (rule same_outside_mono) (use assms in \<open>auto simp: addr_limit_def\<close>)
  ultimately show ?thesis
    using node by auto
qed

lemma deallocate_cursor:
  assumes "4 dvd a" and "a < 2 ^ 32"
    and "m0 = write_hole m (word_of_nat a) \<lparr>hsize = word_of_nat z, hnext = None\<rparr>"
  shows "deallocate b (word_of_nat a) (word_of_nat z) (with_list s m (Some c)) =
    bind (try_insert_back b \<lparr>c_prev = Dummy, c_hole = c, c_top = hl_top (holes s)\<rparr> (word_of_nat a)
        (hl_bottom (holes s)))
      (\<lambda>r. case r of
         Inr cursor' \<Rightarrow> try_merge_next_n b cursor' 1
       | Inl cursor' \<Rightarrow> bind (find_home b (word_of_nat a) cursor') (\<lambda>cursor''. try_merge_next_n b cursor'' 2))
      (with_list s m0 (Some c))"
  by (simp add: deallocate_def make_hole_run [OF assms(1,2)] hole_run bind_gets run_simps assms(3)
      del: One_nat_def)

lemma fresh_node_seg:
  assumes "holes_wf lo hi hs" and "freeable lo hi hs a z" and "hi \<le> 2 ^ 32" and "seg m n hs None"
  shows "seg (write_hole m (word_of_nat a) h) n hs None" and "same_outside {a..<a + z} m (write_hole m (word_of_nat a) h)"
proof -
  have z: "8 \<le> z" "a + z \<le> hi"
    using assms(2) by (auto simp: freeable_def)
  have "read_hole (write_hole m (word_of_nat a) h) (word_of_nat b) = read_hole m (word_of_nat b)"
    if "(b, t) \<in> set hs" for b t
    using free_node_apart [OF assms(1-3) that] by (rule read_write_apart)
  then show "seg (write_hole m (word_of_nat a) h) n hs None"
    using seg_cong assms(4) by blast
  show "same_outside {a..<a + z} m (write_hole m (word_of_nat a) h)"
    using write_outside(1) by (rule same_outside_mono) (use z assms(3) in auto)
qed

lemma deallocate_front:
  assumes wf: "holes_wf lo hi ((c, u) # Q)" and fr: "freeable lo hi ((c, u) # Q) a z" and ac: "a < c"
    and hi: "hi \<le> addr_limit" and lo: "0 < lo" "4 dvd lo"
    and gap: "no_gap lo (unat (hl_top (holes s))) a z"
    and list: "hl_bottom (holes s) = word_of_nat lo" "hsize (hl_first (holes s)) = 0"
    and seg: "seg m (Some (word_of_nat c)) ((c, u) # Q) None"
  shows "\<exists>m' n'. deallocate b (word_of_nat a) (word_of_nat z) (with_list s m (Some (word_of_nat c)))
      = Ret () (with_list s m' n') \<and>
    seg m' n' (insert_hole (a, z) ((c, u) # Q)) None \<and>
    same_outside (free_bytes ((c, u) # Q) \<union> {a..<a + z}) m m'"
proof -
  define m0 where "m0 = write_hole m (word_of_nat a) \<lparr>hsize = word_of_nat z, hnext = None\<rparr>"
  define m1 where "m1 = write_hnext m0 (word_of_nat a) (Some (word_of_nat c))"
  have az: "lo \<le> a" "4 dvd a" "4 dvd z" "8 \<le> z" "a + z \<le> hi" "0 < a" "a < 2 ^ 32"
    and hi': "hi \<le> 2 ^ 32"
    using fr lo hi by (auto simp: freeable_def addr_limit_def)
  have node: "read_hole m0 (word_of_nat a) = \<lparr>hsize = word_of_nat z, hnext = None\<rparr>"
    by (simp add: m0_def)
  note fresh = fresh_node_seg [OF wf fr hi' seg, of "\<lparr>hsize = word_of_nat z, hnext = None\<rparr>", folded m0_def]
  have c: "a + z \<le> c" "c < 2 ^ 32"
    using freeable_apart [OF wf fr, of c u] ac hi' by auto
  have sp: "spaced hi ([] @ (a, z) # (c, u) # Q)"
  proof (rule spaced_insert [of lo])
    show "a < d" if "(d, v) \<in> set ((c, u) # Q)" for d v
      using that ac holes_wf_before [of lo hi "[(c, u)]" Q c u d v] wf by auto
  qed (use wf fr az in \<open>auto simp: freeable_def\<close>)
  have gap': "a = lo \<or> lo + 8 \<le> a" "a + z + 8 \<le> unat (hl_top (holes s)) \<or> unat (hl_top (holes s)) \<le> a + z"
    using gap by (auto simp: no_gap_def)
  have "hsize (read_hole m0 (word_of_nat a)) = word_of_nat z" "holes_wf lo hi ([] @ (c, u) # Q)"
    "seg m0 (Some (word_of_nat c)) ([] @ (c, u) # Q) None"
    using node wf fresh(1) by simp_all
  note ins = insert_node_seg [OF sp hi' az(6) this(2) lo(1) this(3) this(1)]
  have segs: "seg m1 (Some (word_of_nat a)) ([] @ (a, z) # (c, u) # Q) None" and out1: "same_outside {a..<a + z} m0 m1"
    using ins by (simp_all add: relink_mem_def relink_head_def m1_def)
  have "4 dvd a + z"
    using az by simp
  from merge_glue [OF sp hi segs wf lo(1) gap'(2) this, of b s]
  obtain m' where run: "merge_next_loop b (Suc 0) (word_of_nat a) (hl_top (holes s)) (with_list s m1 (Some (word_of_nat a)))
        = Ret () (with_list s m' (Some (word_of_nat a)))"
    and "seg m' (Some (word_of_nat a)) (glue (a, z) ((c, u) # Q)) None"
    and out2: "same_outside ({a..<a + z} \<union> free_bytes ((c, u) # Q)) m1 m'"
    by auto
  moreover have "deallocate b (word_of_nat a) (word_of_nat z) (with_list s m (Some (word_of_nat c)))
      = Ret () (with_list s m' (Some (word_of_nat a)))"
    using run by (simp add: deallocate_cursor [OF az(2,7) m0_def] list try_insert_back_front [OF c(1) az(4) c(2) list(2)
          node gap'(1) lo(2)] try_merge_next_n_def flip: m1_def del: merge_next_loop.simps)
  moreover have "same_outside (free_bytes ((c, u) # Q) \<union> {a..<a + z}) m m'"
    using fresh(2) out1 out2
    by (intro same_outside_trans [OF same_outside_mono [OF fresh(2)] same_outside_trans
          [OF same_outside_mono [OF out1] same_outside_mono [OF out2]]]) auto
  ultimately show ?thesis
    using insert_hole_front [OF ac] by metis
qed

lemma deallocate_later:
  assumes wf: "holes_wf lo hi ((c, u) # Q)" and fr: "freeable lo hi ((c, u) # Q) a z" and ca: "c \<le> a"
    and hi: "hi \<le> addr_limit" and lo: "0 < lo"
    and gap: "no_gap lo (unat (hl_top (holes s))) a z"
    and seg: "seg m (Some (word_of_nat c)) ((c, u) # Q) None"
  shows "\<exists>m' n'. deallocate b (word_of_nat a) (word_of_nat z) (with_list s m (Some (word_of_nat c)))
      = Ret () (with_list s m' n') \<and>
    seg m' n' (insert_hole (a, z) ((c, u) # Q)) None \<and>
    same_outside (free_bytes ((c, u) # Q) \<union> {a..<a + z}) m m'"
proof -
  let ?hs = "(c, u) # Q" and ?n = "Some (word_of_nat c :: usize)" and ?tp = "hl_top (holes s)"
  define m0 where "m0 = write_hole m (word_of_nat a) \<lparr>hsize = word_of_nat z, hnext = None\<rparr>"
  have az: "lo \<le> a" "4 dvd a" "4 dvd z" "8 \<le> z" "a + z \<le> hi" "0 < a" "a < 2 ^ 32"
    and disj: "{a..<a + z} \<inter> free_bytes ?hs = {}" and hi': "hi \<le> 2 ^ 32"
    using fr lo hi by (auto simp: freeable_def addr_limit_def)
  have node: "hsize (read_hole m0 (word_of_nat a)) = word_of_nat z"
    by (simp add: m0_def)
  note fresh = fresh_node_seg [OF wf fr hi' seg, of "\<lparr>hsize = word_of_nat z, hnext = None\<rparr>", folded m0_def]
  obtain P c' u' R where split: "?hs = P @ (c', u') # R" and sp: "spaced hi (P @ (c', u') # (a, z) # R)"
    and home: "find_home b (word_of_nat a) \<lparr>c_prev = Dummy, c_hole = word_of_nat c, c_top = ?tp\<rparr> (with_list s m0 ?n)
      = Ret \<lparr>c_prev = prev_ref P, c_hole = word_of_nat c', c_top = ?tp\<rparr>
          (with_list s (linked m0 (P @ [(c', u')]) a R) ?n)"
    using find_home_run [of hi z a m0 lo "[]" c u Q ?n b ?tp s] hi az node wf disj fresh(1) ca
    by (auto simp: prev_ref_def)
  have sp': "spaced hi ((P @ [(c', u')]) @ (a, z) # R)" and wf': "holes_wf lo hi ((P @ [(c', u')]) @ R)"
    and seg': "seg m0 ?n ((P @ [(c', u')]) @ R) None"
    using sp wf fresh(1) by (simp_all add: split)
  have "relink_head ?n (P @ [(c', u')]) v = ?n" for v
    by (simp add: relink_head_def)
  with insert_node_seg [OF sp' hi' az(6) wf' lo seg' node, folded linked_def]
  have segl: "seg (linked m0 (P @ [(c', u')]) a R) ?n (P @ (c', u') # (a, z) # R) None"
    and out1: "same_outside (free_bytes (P @ [(c', u')]) \<union> {a..<a + z}) m0 (linked m0 (P @ [(c', u')]) a R)"
    by simp_all
  have "a + z + 8 \<le> unat ?tp \<or> unat ?tp \<le> a + z" "4 dvd a + z"
    using gap az by (auto simp: no_gap_def)
  from merge_two [OF sp hi lo holes_wf_suffix [OF wf'] segl this, of b s]
  obtain m' where run: "merge_next_loop b 2 (word_of_nat c') ?tp (with_list s (linked m0 (P @ [(c', u')]) a R) ?n)
      = Ret () (with_list s m' ?n)"
    and "seg m' ?n (insert_hole (a, z) ?hs) None"
    and out2: "same_outside ({c'..<c' + u'} \<union> {a..<a + z} \<union> free_bytes R) (linked m0 (P @ [(c', u')]) a R) m'"
    unfolding split by blast
  moreover have "deallocate b (word_of_nat a) (word_of_nat z) (with_list s m ?n) = Ret () (with_list s m' ?n)"
    using home run
    by (simp add: deallocate_cursor [OF az(2,7) m0_def] try_insert_back_skip [OF ca az(7)]
        try_merge_next_n_def bind_def run_simps)
  moreover have "same_outside (free_bytes ?hs \<union> {a..<a + z}) m m'"
    by (intro same_outside_trans [OF same_outside_mono [OF fresh(2)] same_outside_trans
          [OF same_outside_mono [OF out1] same_outside_mono [OF out2]]]) (auto simp: split)
  ultimately show ?thesis
    by blast
qed

text \<open>
  A block that is \<open>freeable\<close> and leaves no unusable gap at either end of the region is put back:
  the call returns, the chain in memory represents \<open>insert_hole\<close>, and only free bytes and the bytes
  of the block were written.
\<close>

lemma deallocate_run:
  assumes wf: "holes_wf lo hi hs" and fr: "freeable lo hi hs a z"
    and hi: "hi \<le> addr_limit" and lo: "0 < lo" "4 dvd lo"
    and gap: "no_gap lo (unat (hl_top (holes s))) a z"
    and list: "hl_bottom (holes s) = word_of_nat lo" "hsize (hl_first (holes s)) = 0"
    and seg: "seg m n hs None"
  shows "\<exists>m' n'. deallocate b (word_of_nat a) (word_of_nat z) (with_list s m n) = Ret () (with_list s m' n') \<and>
    seg m' n' (insert_hole (a, z) hs) None \<and> same_outside (free_bytes hs \<union> {a..<a + z}) m m'"
proof (cases hs)
  case Nil
  have "0 < a" "4 dvd a" "4 dvd z" "8 \<le> z" "a + z \<le> addr_limit"
    using fr lo hi by (auto simp: freeable_def)
  then show ?thesis
    using deallocate_empty [of lo a z s b m] lo gap list seg by (auto simp: Nil)
next
  case (Cons h Q)
  obtain c u where h: "hs = (c, u) # Q"
    using Cons by (cases h) auto
  have n: "n = Some (word_of_nat c)"
    using seg by (simp add: h)
  show ?thesis
  proof (cases "a < c")
    case True
    then show ?thesis
      using deallocate_front [of lo hi c u Q a z s m b] assms by (simp add: h n)
  next
    case False
    then show ?thesis
      using deallocate_later [of lo hi c u Q a z s m b] assms by (simp add: h n)
  qed
qed

end
