(* ===== verification/HoleMisuse.thy ===== *)
theory HoleMisuse
  imports HoleFree
begin

text \<open>
  Giving back a block that is already free: the walk of \<^verbatim>\<open>deallocate\<close> stops at the hole that holds
  it, and an assertion of \<^verbatim>\<open>try_insert_after\<close> fails. In the release build the check is the overlap
  assertion; in the development build an exact double free is caught one line earlier.
\<close>

definition alias_panic :: "profile \<Rightarrow> nat \<Rightarrow> nat \<Rightarrow> panic" where
  "alias_panic b a c = (if b = Dev \<and> a = c then DebugAssertFailed ''Hole list out of order?''
     else AssertFailed ''Freed node aliases existing hole! Bad free?'')"

lemma try_insert_after_alias:
  assumes seg: "seg m n (pre @ (c, u) # post) None" and a: "c \<le> a" "a < c + u" "a + z < 2 ^ 32" "c + u < 2 ^ 32"
    and post: "\<And>d v. (d, v) \<in> set post \<Longrightarrow> a + z \<le> d \<and> d < 2 ^ 32 \<and> a < d"
    and node: "hsize (read_hole m (word_of_nat a)) = word_of_nat z"
  shows "try_insert_after b \<lparr>c_prev = pr, c_hole = word_of_nat c, c_top = tp\<rparr> (word_of_nat a)
      (with_list (s :: 'x hole_state_scheme) m n) = Panics (alias_panic b a c)"
proof -
  have nxt: "hnext (read_hole m (word_of_nat c)) = head_link post None"
    and cs: "hsize (read_hole m (word_of_nat c)) = word_of_nat u"
    using seg by (auto dest: seg_head)
  have here: "(case head_link post None of None \<Rightarrow> ret True
      | Some nxt \<Rightarrow> if word_of_nat a < nxt then
          bind (assert_that (word_of_nat a + word_of_nat z \<le> nxt)
            ''Freed node aliases existing hole! Bad free?'') (\<lambda>_. ret True)
        else ret False) = (ret True :: ('x hole_state_scheme, bool) prog)"
  proof (cases post)
    case (Cons h Q)
    then obtain d v where h: "post = (d, v) # Q"
      by (cases h) auto
    then have "a + z \<le> d" "d < 2 ^ 32" "a < d"
      using post [of d v] by auto
    then show ?thesis
      using a(3) word_of_nat_le_iff [of "a + z" d] by (simp add: h)
  qed simp
  have "\<not> word_of_nat c + word_of_nat u \<le> (word_of_nat a :: usize)"
    using a word_of_nat_le_iff [of "c + u" a] by simp
  moreover have "word_of_nat c < (word_of_nat a :: usize) \<longleftrightarrow> c \<noteq> a"
    using a by auto
  ultimately show ?thesis
    unfolding try_insert_after_def Cursor_current_def Cursor.simps Let_def with_list_run nxt cs node here
    by (auto simp: alias_panic_def debug_assert_def run_simps)
qed

lemma find_home_alias:
  assumes a: "c \<le> a" "a < c + u" "a + z < 2 ^ 32" "c + u < 2 ^ 32"
    and post: "\<And>d v. (d, v) \<in> set post \<Longrightarrow> a + z \<le> d \<and> d < 2 ^ 32 \<and> a < d"
    and node: "hsize (read_hole m (word_of_nat a)) = word_of_nat z"
    and "\<And>d v. (d, v) \<in> set mid \<Longrightarrow> d \<le> a"
    and "seg m n (pre @ mid @ (c, u) # post) None"
  shows "find_home b (word_of_nat a) \<lparr>c_prev = pr, c_hole = word_of_nat (fst (hd (mid @ [(c, u)]))), c_top = tp\<rparr>
      (with_list s m n) = Panics (alias_panic b a c)"
  using assms(7,8)
proof (induction mid arbitrary: pre pr)
  case Nil
  then show ?case
    using try_insert_after_alias [of m n pre c u post a z b pr tp s, OF _ a post node]
    by (subst find_home.simps) (simp add: bind_def)
next
  case (Cons h mid)
  obtain d v where h: "h = (d, v)"
    by (cases h)
  obtain e w mid' where e: "mid @ (c, u) # post = (e, w) # mid'" "fst (hd (mid @ [(c, u)])) = e"
    by (cases mid) auto
  have "e \<le> a"
    using Cons.prems(1) a(1) e by (cases mid) fastforce+
  have seg: "seg m n (pre @ (d, v) # (e, w) # mid') None"
    using Cons.prems(2) e by (simp add: h)
  have "find_home b (word_of_nat a) \<lparr>c_prev = pr, c_hole = word_of_nat d, c_top = tp\<rparr> (with_list s m n)
      = find_home b (word_of_nat a) \<lparr>c_prev = prev_ref (pre @ [(d, v)]), c_hole = word_of_nat e, c_top = tp\<rparr>
          (with_list s m n)"
    using try_insert_after_skip [OF seg \<open>e \<le> a\<close>, of b pr tp s] Cursor_next_run [OF seg, of pr tp s] a(3)
    by (subst find_home.simps) (simp add: bind_def run_simps)
  moreover have "seg m n ((pre @ [(d, v)]) @ mid @ (c, u) # post) None"
    using Cons.prems(2) by (simp add: h)
  then have "find_home b (word_of_nat a) \<lparr>c_prev = prev_ref (pre @ [(d, v)]), c_hole = word_of_nat e, c_top = tp\<rparr>
      (with_list s m n) = Panics (alias_panic b a c)"
    unfolding e(2) [symmetric] by (rule Cons.IH [rotated]) (use Cons.prems(1) in auto)
  ultimately show ?case
    by (simp add: h)
qed

text \<open>A block inside a hole: at its start, or behind its node.\<close>

lemma alias_node_seg:
  assumes wf: "holes_wf lo hi (pre @ (c, u) # post)" and hi: "hi \<le> addr_limit"
    and a: "a = c \<or> c + 8 \<le> a" "8 \<le> z" "a + z \<le> c + u"
    and seg: "seg m n (pre @ (c, u) # post) None"
    and m0: "m0 = write_hole m (word_of_nat a) \<lparr>hsize = word_of_nat z, hnext = None\<rparr>"
  shows "\<exists>u' post'. seg m0 n (pre @ (c, u') # post') None \<and> a < c + u' \<and> c + u' < 2 ^ 32 \<and>
    (\<forall>d v. (d, v) \<in> set post' \<longrightarrow> a + z \<le> d \<and> d < 2 ^ 32 \<and> a < d)"
proof -
  have hi': "hi < 2 ^ 32 - 8"
    using hi by (simp add: addr_limit_def)
  have cu: "8 \<le> u" "c + u \<le> hi"
    using wf holes_wf_member [of lo hi "pre @ (c, u) # post" c u] by auto
  have keep: "read_hole m0 (word_of_nat d) = read_hole m (word_of_nat d)"
    if "d + 8 \<le> a \<or> a + 8 \<le> d" "d + 8 \<le> hi" for d
    unfolding m0 using that a cu hi' by (intro read_write_apart apart_nat) auto
  have pre: "read_hole m0 (word_of_nat d) = read_hole m (word_of_nat d)" if "(d, v) \<in> set pre" for d v
    using holes_wf_before [OF wf that, of c u] holes_wf_member [OF wf, of d v] that a cu by (intro keep) auto
  have post: "c + u < d \<and> d + 8 \<le> hi" if "(d, v) \<in> set post" for d v
    using holes_wf_before [of lo hi "pre @ [(c, u)]" post c u d v] holes_wf_member [OF wf, of d v] wf that by auto
  show ?thesis
  proof (cases "a = c")
    case True
    have "seg m0 n pre r \<longleftrightarrow> seg m n pre r" for r
      using pre by (rule seg_cong)
    then have "seg m0 n (pre @ [(c, z)]) None"
      using seg True by (auto simp: m0)
    then show ?thesis
      using True a cu hi' by (intro exI [of _ z] exI [of _ "[]"]) auto
  next
    case False
    have "read_hole m0 (word_of_nat d) = read_hole m (word_of_nat d)" if "(d, v) \<in> set (pre @ (c, u) # post)" for d v
      using that pre post [of d v] keep [of d] False a cu by auto
    then have "seg m0 n (pre @ (c, u) # post) None"
      using seg_cong seg by blast
    then show ?thesis
      using post a cu hi' by (intro exI [of _ u] exI [of _ post]) fastforce
  qed
qed

lemma deallocate_free_block:
  assumes wf: "holes_wf lo hi (pre @ (c, u) # post)" and hi: "hi \<le> addr_limit"
    and a: "4 dvd a" "a = c \<or> c + 8 \<le> a" "8 \<le> z" "a + z \<le> c + u"
    and seg: "seg m n (pre @ (c, u) # post) None"
  shows "deallocate b (word_of_nat a) (word_of_nat z) (with_list s m n) = Panics (alias_panic b a c)"
proof -
  define m0 where "m0 = write_hole m (word_of_nat a) \<lparr>hsize = word_of_nat z, hnext = None\<rparr>"
  obtain u' post' where seg0: "seg m0 n ([] @ pre @ (c, u') # post') None"
    and u': "a < c + u'" "c + u' < 2 ^ 32"
    and post': "\<And>d v. (d, v) \<in> set post' \<Longrightarrow> a + z \<le> d \<and> d < 2 ^ 32 \<and> a < d"
    using alias_node_seg [OF wf hi a(2-4) seg m0_def] by auto
  have cu: "c + u \<le> hi"
    using wf holes_wf_member [of lo hi "pre @ (c, u) # post" c u] by auto
  have ca: "c \<le> a" "a < 2 ^ 32" "a + z < 2 ^ 32"
    using a cu hi by (auto simp: addr_limit_def)
  have before: "d \<le> a" if "(d, v) \<in> set pre" for d v
    using holes_wf_before [OF wf that, of c u] ca(1) by auto
  define e where "e = fst (hd (pre @ [(c, u')]))"
  have n: "n = Some (word_of_nat e)" and e: "e \<le> a"
    using seg before ca(1) by (cases pre; auto simp: e_def)+
  have node: "hsize (read_hole m0 (word_of_nat a)) = word_of_nat z"
    by (simp add: m0_def)
  have "find_home b (word_of_nat a) \<lparr>c_prev = Dummy, c_hole = word_of_nat e, c_top = hl_top (holes s)\<rparr>
      (with_list s m0 n) = Panics (alias_panic b a c)"
    unfolding e_def by (rule find_home_alias [OF ca(1) u'(1) ca(3) u'(2) post' node before seg0])
  then show ?thesis
    unfolding n by (simp add: deallocate_cursor [OF a(1) ca(2) m0_def] try_insert_back_skip [OF e ca(2)] bind_def run_simps)
qed

end
