(* ===== verification/HoleInv.thy ===== *)
theory HoleInv
  imports HoleMisuse
begin

text \<open>
  The invariant of \<^verbatim>\<open>HoleList\<close> and what its public operations do to it: \<open>list_rep s lo hi hs\<close> says
  that the list in state \<open>s\<close> manages the region from \<open>lo\<close> to \<open>hi\<close> and that its chain of nodes
  represents the holes \<open>hs\<close>.
\<close>

section \<open>The invariant\<close>

definition region_ok :: "nat \<Rightarrow> nat \<Rightarrow> bool" where
  "region_ok lo hi \<longleftrightarrow> 0 < lo \<and> 4 dvd lo \<and> 4 dvd hi \<and> lo + 8 \<le> hi \<and> hi \<le> addr_limit"

definition list_rep :: "'x hole_state_scheme \<Rightarrow> nat \<Rightarrow> nat \<Rightarrow> region list \<Rightarrow> bool" where
  "list_rep s lo hi hs \<longleftrightarrow> region_ok lo hi \<and>
     hl_bottom (holes s) = word_of_nat lo \<and> hl_top (holes s) = word_of_nat hi \<and>
     hsize (hl_first (holes s)) = 0 \<and> unat (hl_pending_extend (holes s)) < 8 \<and>
     holes_wf lo hi hs \<and> seg (mem s) (hnext (hl_first (holes s))) hs None"

lemma list_repD:
  assumes "list_rep s lo hi hs"
  shows "0 < lo" "4 dvd lo" "4 dvd hi" "lo + 8 \<le> hi" "hi \<le> addr_limit" "hi < 2 ^ 32"
    and "hl_bottom (holes s) = word_of_nat lo" "hl_top (holes s) = word_of_nat hi"
    and "hsize (hl_first (holes s)) = 0" "unat (hl_pending_extend (holes s)) < 8"
    and "holes_wf lo hi hs" "seg (mem s) (hnext (hl_first (holes s))) hs None"
  using assms by (auto simp: list_rep_def region_ok_def addr_limit_def)

lemma list_rep_with:
  assumes "list_rep s lo hi hs" and "holes_wf lo hi hs'" and "seg m n hs' None"
  shows "list_rep (with_list s m n) lo hi hs'"
  using assms by (auto simp: list_rep_def)

lemma read_hole_cong:
  assumes "\<And>k. k < 8 \<Longrightarrow> m' (a + k) = m (a + k)"
  shows "read_hole m' a = read_hole m a"
proof -
  have k: "k < 8" "4 + k < 8" if "k < 4" for k :: usize
    using that unat_add_32 [of 4 k] by (auto simp: word_less_nat_alt)
  then have "load32 m' a = load32 m a" "load32 m' (a + 4) = load32 m (a + 4)"
    using assms assms [OF k(2)] by (auto intro!: ram.load_byte_cong simp: add.assoc)
  then show ?thesis
    by (simp add: read_hole_def)
qed

text \<open>Bytes that are not free may be written by their owners at any time.\<close>

lemma list_rep_frame:
  assumes rep: "list_rep s lo hi hs" and out: "same_outside X (mem s) (mem s')" and "X \<inter> free_bytes hs = {}"
    and "holes s' = holes s"
  shows "list_rep s' lo hi hs"
proof -
  note r = list_repD [OF rep]
  have "read_hole (mem s') (word_of_nat a) = read_hole (mem s) (word_of_nat a)" if "(a, t) \<in> set hs" for a t
  proof -
    have t: "8 \<le> t" "a + t \<le> hi"
      using holes_wf_member [OF r(11) that] by auto
    have "mem s' (word_of_nat a + k) = mem s (word_of_nat a + k)" if k: "k < 8" for k
    proof -
      have "unat k < 8"
        using k by (simp add: word_less_nat_alt)
      moreover have "unat (word_of_nat a :: usize) = a"
        using t r(6) by simp
      ultimately have "unat (word_of_nat a + k) = a + unat k"
        using t r(6) by (simp add: unat_add_32)
      then have "unat (word_of_nat a + k) \<in> free_bytes hs"
        using hole_in_free_bytes [OF \<open>(a, t) \<in> set hs\<close>] t \<open>unat k < 8\<close> by auto
      then have "unat (word_of_nat a + k) \<notin> X"
        using assms(3) by blast
      then show ?thesis
        using out by (simp add: same_outside_def)
    qed
    then show ?thesis
      by (rule read_hole_cong)
  qed
  then have "seg (mem s') (hnext (hl_first (holes s))) hs None"
    using seg_cong r(12) by blast
  then show ?thesis
    using rep assms(4) by (simp add: list_rep_def)
qed

section \<open>A new list\<close>

text \<open>The region \<^verbatim>\<open>HoleList::new\<close> keeps of the memory it is given: whole words.\<close>

definition new_bottom :: "nat \<Rightarrow> nat" where
  "new_bottom addr = align_upn addr 4"

definition new_top :: "nat \<Rightarrow> nat \<Rightarrow> nat" where
  "new_top addr sz = addr + sz - (addr + sz) mod 4"

lemma new_region:
  assumes "0 < addr" and "addr + sz \<le> addr_limit" and "new_bottom addr + 8 \<le> new_top addr sz"
  shows "region_ok (new_bottom addr) (new_top addr sz)" and "addr \<le> new_bottom addr" and "new_top addr sz \<le> addr + sz"
  using assms align_upn_dvd [of 4 addr] align_upn_ge [of addr 4]
  by (auto simp: region_ok_def new_bottom_def new_top_def dvd_eq_mod_eq_0 minus_mod_eq_mult_div)

lemma usize_sub_nat:
  assumes "y \<le> x" and "x < 2 ^ 32"
  shows "usize_sub b (word_of_nat x) (word_of_nat y) = ret (word_of_nat (x - y))"
  using assms by simp

lemma align_down_nat:
  assumes "x < 2 ^ 32"
  shows "align_down_size (word_of_nat x) align_of_Hole = ret (word_of_nat (x - x mod 4))"
proof -
  have "unat (word_of_nat x - word_of_nat x mod 4 :: usize) = x - x mod 4"
    using align_down_size_value(2) [of 4 "word_of_nat x"] assms by simp
  then have "word_of_nat x - word_of_nat x mod 4 = (word_of_nat (x - x mod 4) :: usize)"
    by (metis of_nat_unat ucast_id)
  then show ?thesis
    by (simp add: align_down_size_value(1) align_of_Hole_def)
qed

lemma HoleList_new_run:
  assumes "0 < addr" and lim: "addr + sz \<le> addr_limit" and room: "new_bottom addr + 8 \<le> new_top addr sz"
  shows "HoleList_new b (word_of_nat addr) (word_of_nat sz) s =
    Ret \<lparr>hl_first = \<lparr>hsize = 0, hnext = Some (word_of_nat (new_bottom addr))\<rparr>,
         hl_bottom = word_of_nat (new_bottom addr), hl_top = word_of_nat (new_top addr sz),
         hl_pending_extend = word_of_nat (addr + sz - new_top addr sz)\<rparr>
      (s\<lparr>mem := write_hole (mem s) (word_of_nat (new_bottom addr))
         \<lparr>hsize = word_of_nat (new_top addr sz - new_bottom addr), hnext = None\<rparr>\<rparr>)"
proof -
  define lo hi where "lo = new_bottom addr" and "hi = new_top addr sz"
  define r where "r = addr + sz - lo"
  note reg = new_region [OF assms, folded lo_def hi_def]
  have le: "addr \<le> lo" "lo + 8 \<le> hi" "hi \<le> addr + sz" "addr + sz < 2 ^ 32"
    using reg room lim by (auto simp: lo_def hi_def addr_limit_def)
  obtain q where q: "lo = 4 * q"
    using reg(1) by (auto simp: region_ok_def)
  have "addr + sz = lo + r"
    using le by (simp add: r_def)
  then have hi_r: "hi - lo = r - r mod 4"
    using le by (simp add: hi_def new_top_def q)
  have up: "align_up (word_of_nat addr) align_of_Hole = ret (word_of_nat lo)"
    using align_up_nat [of 4 addr] le by (simp add: lo_def new_bottom_def align_of_Hole_def)
  have skip: "usize_sub b (word_of_nat lo) (word_of_nat addr) = ret (word_of_nat (lo - addr))"
    using le by (intro usize_sub_nat) auto
  have req: "usize_sub b (word_of_nat sz) (word_of_nat (lo - addr)) = ret (word_of_nat r)"
  proof -
    have "lo - addr \<le> sz" "sz - (lo - addr) = r" "sz < 2 ^ 32"
      using le by (simp_all add: r_def)
    then show ?thesis
      using usize_sub_nat [of "lo - addr" sz b] by metis
  qed
  have down: "align_down_size (word_of_nat r) align_of_Hole = ret (word_of_nat (hi - lo))"
    unfolding hi_r by (rule align_down_nat) (use le in \<open>simp add: r_def\<close>)
  have pending: "usize_sub b (word_of_nat r) (word_of_nat (hi - lo)) = ret (word_of_nat (addr + sz - hi))"
  proof -
    have "hi - lo \<le> r" "r - (hi - lo) = addr + sz - hi" "r < 2 ^ 32"
      using le by (simp_all add: r_def)
    then show ?thesis
      using usize_sub_nat [of "hi - lo" r b] by metis
  qed
  have words: "word_of_nat addr + word_of_nat sz = (word_of_nat lo + word_of_nat r :: usize)"
    "word_of_nat lo + word_of_nat (hi - lo) = (word_of_nat hi :: usize)"
    "(8 :: usize) \<le> word_of_nat sz" "(8 :: usize) \<le> word_of_nat (hi - lo)"
    using le by (simp_all add: r_def word_le_nat_alt flip: of_nat_add del: of_nat_diff)
  show ?thesis
    unfolding HoleList_new_def min_size_eq bind_ret size_of_Hole_def up skip req down pending
      lo_def [symmetric] hi_def [symmetric]
    using words le(4)
    by (simp add: ptr_write_def run_simps unsigned_of_nat take_bit_nat_eq_self del: of_nat_diff of_nat_add)
qed

text \<open>The new list manages the whole region as one hole.\<close>

lemma HoleList_new_rep:
  assumes "0 < addr" and "addr + sz \<le> addr_limit" and "new_bottom addr + 8 \<le> new_top addr sz"
    and "HoleList_new b (word_of_nat addr) (word_of_nat sz) s = Ret h s'"
    and "holes s'' = h" and "mem s'' = mem s'"
  shows "list_rep s'' (new_bottom addr) (new_top addr sz) [(new_bottom addr, new_top addr sz - new_bottom addr)]"
    and "same_outside {new_bottom addr..<new_bottom addr + 8} (mem s) (mem s'')"
proof -
  define lo hi where "lo = new_bottom addr" and "hi = new_top addr sz"
  note reg = new_region [OF assms(1-3), folded lo_def hi_def]
  have h: "h = \<lparr>hl_first = \<lparr>hsize = 0, hnext = Some (word_of_nat lo)\<rparr>, hl_bottom = word_of_nat lo,
      hl_top = word_of_nat hi, hl_pending_extend = word_of_nat (addr + sz - hi)\<rparr>"
    and m: "mem s'' = write_hole (mem s) (word_of_nat lo) \<lparr>hsize = word_of_nat (hi - lo), hnext = None\<rparr>"
    using assms(4,6) HoleList_new_run [OF assms(1-3), of b s] by (auto simp: lo_def hi_def)
  have "addr + sz - hi < 4"
    by (simp add: hi_def new_top_def)
  then have "unat (word_of_nat (addr + sz - hi) :: u8) < 8"
    by (simp add: unsigned_of_nat take_bit_nat_eq_self)
  moreover have "lo + 8 \<le> hi" "hi \<le> addr_limit"
    using assms(3) reg by (simp_all add: lo_def hi_def region_ok_def)
  ultimately show "list_rep s'' lo hi [(lo, hi - lo)]" "same_outside {lo..<lo + 8} (mem s) (mem s'')"
    unfolding m using reg(1) write_outside(1) [of lo "mem s"]
    by (auto simp: list_rep_def h assms(5) m region_ok_def addr_limit_def dvd_diff_nat)
qed

text \<open>A region with no room for one node is refused.\<close>

lemma HoleList_new_small:
  assumes "0 < addr" and lim: "addr + sz \<le> addr_limit" and small: "new_top addr sz < new_bottom addr + 8"
  shows "HoleList_new b (word_of_nat addr) (word_of_nat sz) s = Panics (AssertFailed
    (if sz < 8 then ''hole_size >= size_of Hole'' else ''aligned_hole_size >= size_of Hole''))"
proof (cases "sz < 8")
  case True
  then have "\<not> (8 :: usize) \<le> word_of_nat sz"
    by (simp add: word_le_nat_alt)
  then show ?thesis
    using True by (simp add: HoleList_new_def size_of_Hole_def run_simps)
next
  case False
  define lo where "lo = new_bottom addr"
  define r where "r = addr + sz - lo"
  have le: "addr \<le> lo" "lo < addr + 4" "addr + sz < 2 ^ 32"
    using align_upn_ge [of addr 4] align_upn_less [of 4 addr] lim by (simp_all add: lo_def new_bottom_def addr_limit_def)
  obtain q where q: "lo = 4 * q"
    using align_upn_dvd [of 4 addr] by (auto simp: lo_def new_bottom_def)
  have "addr + sz = lo + r"
    using le False by (simp add: r_def)
  then have small_r: "r - r mod 4 < 8"
    using small by (simp add: new_top_def q lo_def [symmetric])
  have up: "align_up (word_of_nat addr) align_of_Hole = ret (word_of_nat lo)"
    using align_up_nat [of 4 addr] le False by (simp add: lo_def new_bottom_def align_of_Hole_def)
  have skip: "usize_sub b (word_of_nat lo) (word_of_nat addr) = ret (word_of_nat (lo - addr))"
    using le False by (intro usize_sub_nat) auto
  have "lo - addr \<le> sz" "sz - (lo - addr) = r" "sz < 2 ^ 32"
    using le False by (simp_all add: r_def)
  then have req: "usize_sub b (word_of_nat sz) (word_of_nat (lo - addr)) = ret (word_of_nat r)"
    using usize_sub_nat [of "lo - addr" sz b] by metis
  have down: "align_down_size (word_of_nat r) align_of_Hole = ret (word_of_nat (r - r mod 4))"
    using le by (intro align_down_nat) (simp add: r_def)
  have "(8 :: usize) \<le> word_of_nat sz" "\<not> (8 :: usize) \<le> word_of_nat (r - r mod 4)"
    using False le small_r by (simp_all add: word_le_nat_alt r_def del: of_nat_diff)
  then show ?thesis
    unfolding HoleList_new_def min_size_eq bind_ret size_of_Hole_def up skip req down
    using False by (simp add: run_simps del: of_nat_diff)
qed

section \<open>Allocation\<close>

text \<open>The block an allocation takes, and the holes left, on the abstract list.\<close>

definition fits_layout :: "Layout \<Rightarrow> bool" where
  "fits_layout l \<longleftrightarrow> aligned_size (unat (lsize l)) + unat (lalign l) \<le> 2 ^ 31"

definition block_size :: "Layout \<Rightarrow> nat" where
  "block_size l = aligned_size (unat (lsize l))"

definition list_alloc :: "Layout \<Rightarrow> region list \<Rightarrow> (nat \<times> region list) option" where
  "list_alloc l hs = (if fits_layout l then first_fit (block_size l) (unat (lalign l)) hs else None)"

definition alloc_result :: "Layout \<Rightarrow> region list \<Rightarrow> unit + usize \<times> Layout" where
  "alloc_result l hs = (case list_alloc l hs of
     None \<Rightarrow> Inl () | Some (p, _) \<Rightarrow> Inr (word_of_nat p, \<lparr>lsize = layout_word l, lalign = lalign l\<rparr>))"

definition alloc_holes :: "Layout \<Rightarrow> region list \<Rightarrow> region list" where
  "alloc_holes l hs = (case list_alloc l hs of None \<Rightarrow> hs | Some (_, hs') \<Rightarrow> hs')"

lemma align_layout_run:
  assumes "layout_ok l"
  shows "HoleList_align_layout b l = ret (if fits_layout l then Inr \<lparr>lsize = layout_word l, lalign = lalign l\<rparr>
    else Inl LayoutError)"
  using assms from_size_align_cases [of "lalign l" "layout_word l"] unat_layout_word [OF assms]
  by (simp add: align_layout_eq fits_layout_def layout_ok_def)

lemma block_size_props: "8 \<le> block_size l" "4 dvd block_size l" "unat (lsize l) \<le> block_size l"
  by (simp_all add: block_size_def aligned_size_props)

lemma list_alloc_Some:
  assumes "list_alloc l hs = Some (p, hs')" and "layout_ok l" and "holes_wf lo hi hs"
  shows "holes_wf lo hi hs'" "unat (lalign l) dvd p" "4 dvd p" "{p..<p + block_size l} \<subseteq> free_bytes hs"
    and "free_bytes hs' = free_bytes hs - {p..<p + block_size l}" "free_total hs' + block_size l = free_total hs"
proof -
  obtain k where "unat (lalign l) = 2 ^ k"
    using assms(2) by (auto simp: layout_ok_def elim: is_power_of_two_unat)
  then show "holes_wf lo hi hs'" "unat (lalign l) dvd p" "4 dvd p" "{p..<p + block_size l} \<subseteq> free_bytes hs"
    and "free_bytes hs' = free_bytes hs - {p..<p + block_size l}" "free_total hs' + block_size l = free_total hs"
    using first_fit_Some [of "block_size l" k hs p hs' lo hi] assms block_size_props [of l]
    by (auto simp: list_alloc_def split: if_splits)
qed

lemma list_alloc_insert:
  assumes "list_alloc l hs = Some (p, hs')" and "layout_ok l" and "holes_wf lo hi hs"
  shows "insert_hole (p, block_size l) hs' = hs"
proof -
  obtain k where "unat (lalign l) = 2 ^ k"
    using assms(2) by (auto simp: layout_ok_def elim: is_power_of_two_unat)
  then show ?thesis
    using first_fit_insert [of "block_size l" k hs p hs' lo hi] assms block_size_props [of l]
    by (auto simp: list_alloc_def split: if_splits)
qed

lemma alloc_holes_wf:
  assumes "layout_ok l" and "holes_wf lo hi hs"
  shows "holes_wf lo hi (alloc_holes l hs)"
  using list_alloc_Some [OF _ assms] assms(2) by (auto simp: alloc_holes_def split: option.split)

lemma allocate_first_fit_run:
  assumes rep: "list_rep s lo hi hs" and l: "layout_ok l"
  shows "\<exists>m' n'. HoleList_allocate_first_fit b l s = Ret (alloc_result l hs) (with_list s m' n') \<and>
    list_rep (with_list s m' n') lo hi (alloc_holes l hs) \<and> same_outside (free_bytes hs) (mem s) m'"
proof -
  note r = list_repD [OF rep]
  define m n where "m = mem s" and "n = hnext (hl_first (holes s))"
  have s: "with_list s m n = s" and seg: "seg m n hs None"
    using r by (simp_all add: m_def n_def with_list_id)
  define al where "al = \<lparr>lsize = layout_word l, lalign = lalign l\<rparr>"
  let ?run = "\<lambda>m' n'. HoleList_allocate_first_fit b l (with_list s m n) = Ret (alloc_result l hs) (with_list s m' n')"
  have "\<exists>m' n'. ?run m' n' \<and> seg m' n' (alloc_holes l hs) None \<and> same_outside (free_bytes hs) m m'"
  proof (cases "fits_layout l \<and> hs \<noteq> []")
    case False
    then have "?run m n" "alloc_holes l hs = hs"
      using seg
      by (auto simp: HoleList_allocate_first_fit_def align_layout_run [OF l] alloc_result_def alloc_holes_def
          list_alloc_def hole_run run_simps)
    then show ?thesis
      using seg by auto
  next
    case True
    then obtain a sz post where hs: "hs = (a, sz) # post"
      by (cases hs) auto
    have al_ok: "whole_words al"
      using True l unat_layout_word [OF l] aligned_size_props
      by (auto simp: whole_words_def al_def fits_layout_def layout_ok_def)
    have fit: "fit_result al hs = alloc_result l hs" "fit_holes al hs = alloc_holes l hs"
      using True unat_layout_word [OF l]
      by (auto simp: fit_result_def fit_holes_def alloc_result_def alloc_holes_def list_alloc_def block_size_def
          al_def split: option.split)
    obtain m' n' where loop: "allocate_loop b al \<lparr>c_prev = prev_ref [], c_hole = word_of_nat a,
          c_top = hl_top (holes s)\<rparr> (with_list s m n) = Ret (alloc_result l hs) (with_list s m' n')"
      and "seg m' n' (alloc_holes l hs) None" "same_outside (free_bytes hs) m m'"
      using allocate_loop_run [OF al_ok r(1,5), of "[]" a sz post m n b "hl_top (holes s)" s] r(11) seg fit
      by (auto simp: hs)
    moreover have "n = Some (word_of_nat a)"
      using seg by (simp add: hs)
    then have "?run m' n'"
      using loop True
      by (simp add: HoleList_allocate_first_fit_def align_layout_run [OF l] hole_run prev_ref_def flip: al_def)
    ultimately show ?thesis
      by blast
  qed
  then show ?thesis
    using list_rep_with [OF rep alloc_holes_wf [OF l r(11)]] unfolding s unfolding m_def by blast
qed

section \<open>Deallocation\<close>

lemma HoleList_deallocate_align:
  assumes "layout_ok l" and "fits_layout l"
  shows "HoleList_deallocate b p l =
    bind (deallocate b p (word_of_nat (block_size l))) (\<lambda>_. ret \<lparr>lsize = layout_word l, lalign = lalign l\<rparr>)"
proof -
  have "layout_word l = word_of_nat (block_size l)"
    using unat_layout_word [OF assms(1)] by (metis block_size_def of_nat_unat ucast_id)
  then show ?thesis
    using assms by (simp add: HoleList_deallocate_def align_layout_run)
qed

lemma HoleList_deallocate_run:
  assumes rep: "list_rep s lo hi hs" and l: "layout_ok l" "fits_layout l"
    and fr: "freeable lo hi hs a (block_size l)" and gap: "no_gap lo hi a (block_size l)"
  shows "\<exists>m' n'. HoleList_deallocate b (word_of_nat a) l s
      = Ret \<lparr>lsize = layout_word l, lalign = lalign l\<rparr> (with_list s m' n') \<and>
    list_rep (with_list s m' n') lo hi (insert_hole (a, block_size l) hs) \<and>
    same_outside (free_bytes hs \<union> {a..<a + block_size l}) (mem s) m'"
proof -
  note r = list_repD [OF rep]
  have gap': "no_gap lo (unat (hl_top (holes s))) a (block_size l)"
    using gap r(6,8) by simp
  obtain m' n' where run: "deallocate b (word_of_nat a) (word_of_nat (block_size l)) s = Ret () (with_list s m' n')"
    and seg: "seg m' n' (insert_hole (a, block_size l) hs) None"
    and out: "same_outside (free_bytes hs \<union> {a..<a + block_size l}) (mem s) m'"
    using deallocate_run [OF r(11) fr r(5,1,2) gap' r(7,9,12), of b] by (auto simp: with_list_id)
  have "holes_wf lo hi (insert_hole (a, block_size l) hs)"
    using insert_hole_wf [OF r(11), of a "block_size l"] fr by (auto simp: freeable_def)
  then show ?thesis
    using run list_rep_with [OF rep _ seg] out
    by (auto simp: HoleList_deallocate_align [OF l] bind_def run_simps)
qed

section \<open>Extension\<close>

text \<open>The whole words an extension by \<open>k\<close> bytes adds, with \<open>p\<close> bytes pending before.\<close>

definition grow_size :: "nat \<Rightarrow> nat \<Rightarrow> nat" where
  "grow_size p k = (if p + k < 8 then 0 else p + k - (p + k) mod 4)"

definition grow_holes :: "nat \<Rightarrow> nat \<Rightarrow> region list \<Rightarrow> region list" where
  "grow_holes hi n hs = (if n = 0 then hs else insert_hole (hi, n) hs)"

lemma from_size_align_1:
  "unat n + 1 \<le> 2 ^ 31 \<Longrightarrow> from_size_align n 1 = Inr \<lparr>lsize = n, lalign = 1\<rparr>"
  by (simp add: from_size_align_cases)

lemma extend_layout:
  assumes "8 \<le> n" and "4 dvd n" and "n < 2 ^ 31"
  shows "layout_ok \<lparr>lsize = word_of_nat n, lalign = 1\<rparr>" "fits_layout \<lparr>lsize = word_of_nat n, lalign = 1\<rparr>"
    and "block_size \<lparr>lsize = word_of_nat n, lalign = 1\<rparr> = n"
proof -
  have n: "unat (word_of_nat n :: usize) = n"
    using assms(3) by simp
  have "aligned_size n = n"
    using assms(1,2) by (simp add: aligned_size_def align_upn_id)
  then show "fits_layout \<lparr>lsize = word_of_nat n, lalign = 1\<rparr>" "block_size \<lparr>lsize = word_of_nat n, lalign = 1\<rparr> = n"
    using assms(3) by (simp_all add: fits_layout_def block_size_def n)
  show "layout_ok \<lparr>lsize = word_of_nat n, lalign = 1\<rparr>"
    using assms(3) n by (simp add: layout_ok_def max_size_for_align_def word_le_nat_alt)
qed

text \<open>The new memory is freed into the list, which then ends behind it.\<close>

lemma extend_deallocate:
  assumes rep: "list_rep s lo hi hs" and n: "8 \<le> n" "4 dvd n" "n < 2 ^ 31" "hi + n \<le> addr_limit"
  shows "\<exists>m' n'. HoleList_deallocate b (word_of_nat hi) \<lparr>lsize = word_of_nat n, lalign = 1\<rparr> s
      = Ret \<lparr>lsize = layout_word \<lparr>lsize = word_of_nat n, lalign = 1\<rparr>, lalign = 1\<rparr> (with_list s m' n') \<and>
    holes_wf lo (hi + n) (insert_hole (hi, n) hs) \<and>
    seg m' n' (insert_hole (hi, n) hs) None \<and> same_outside (free_bytes hs \<union> {hi..<hi + n}) (mem s) m'"
proof -
  note r = list_repD [OF rep] and l = extend_layout [OF n(1-3)]
  have wf: "holes_wf lo (hi + n) hs"
    using r(11) by (rule holes_wf_hi_mono) simp
  have "{hi..<hi + n} \<inter> free_bytes hs = {}"
    using free_bytes_upper [OF r(11)] by fastforce
  then have fr: "freeable lo (hi + n) hs hi n"
    using r n by (simp add: freeable_def)
  have "no_gap lo (unat (hl_top (holes s))) hi n"
    using r by (simp add: no_gap_def)
  from deallocate_run [OF wf fr n(4) r(1,2) this r(7,9,12), of b]
  obtain m' n' where "deallocate b (word_of_nat hi) (word_of_nat n) s = Ret () (with_list s m' n')"
    and "seg m' n' (insert_hole (hi, n) hs) None" "same_outside (free_bytes hs \<union> {hi..<hi + n}) (mem s) m'"
    by (auto simp: with_list_id)
  moreover have "holes_wf lo (hi + n) (insert_hole (hi, n) hs)"
    using insert_hole_wf [OF wf, of hi n] fr by (simp add: freeable_def)
  ultimately show ?thesis
    by (intro exI [of _ m'] exI [of _ n']) (simp add: HoleList_deallocate_align [OF l(1,2)] l(3) bind_def run_simps)
qed

lemma ucast_u8_small: "x < 8 \<Longrightarrow> unat (ucast (word_of_nat x :: usize) :: u8) = x"
  by (simp add: unsigned_ucast_eq unsigned_of_nat take_bit_nat_eq_self)

text \<open>The multiple of four that is added to the list when at least eight bytes are there.\<close>

lemma grow_part:
  assumes n: "n = x - x mod 4" and x: "\<not> x < (8 :: nat)"
  shows "8 \<le> n" and "4 dvd n" and "n \<le> x" and "x - n < 8"
proof -
  have "x mod 4 < 4"
    by simp
  then show n4: "4 dvd n" and "n \<le> x" and "x - n < 8"
    using n by (auto simp: minus_mod_eq_mult_div)
  have "x < n + 4"
    using n \<open>x mod 4 < 4\<close> by linarith
  then show "8 \<le> n"
    using n4 x by (auto elim!: dvdE)
qed

lemma HoleList_extend_run:
  assumes rep: "list_rep s lo hi hs" and p: "p = unat (hl_pending_extend (holes s))"
    and lim: "hi + (p + k) \<le> addr_limit" and big: "p + k < 2 ^ 31"
  shows "\<exists>s'. HoleList_extend b (word_of_nat k) s = Ret () s' \<and>
    s' = s\<lparr>mem := mem s', holes := holes s'\<rparr> \<and>
    list_rep s' lo (hi + grow_size p k) (grow_holes hi (grow_size p k) hs) \<and>
    unat (hl_pending_extend (holes s')) = p + k - grow_size p k \<and>
    same_outside (free_bytes hs \<union> {hi..<hi + grow_size p k}) (mem s) (mem s')"
proof -
  note r = list_repD [OF rep]
  have pend: "ucast (hl_pending_extend (holes s)) = (word_of_nat p :: usize)"
    by (simp add: p)
  have p8: "p < 8"
    using r(10) p by simp
  have off: "align_offset (word_of_nat hi) align_of_Hole = ret 0"
    using align_offset_zero_iff [of 4 "word_of_nat hi"] r(3,6) by (simp add: align_offset_def align_of_Hole_def)
  have add: "usize_add b (word_of_nat p) (word_of_nat k) = ret (word_of_nat (p + k))"
    using big by simp
  have pre: "hl_top (holes s) \<noteq> 0" "(word_of_nat p :: usize) < 8" "word_of_nat (p + k) < (8 :: usize) \<longleftrightarrow> p + k < 8"
    using r(1,4,6,8) p8 big by (simp_all add: word_less_nat_alt del: of_nat_add)
  show ?thesis
  proof (cases "p + k < 8")
    case True
    then show ?thesis
      using rep pre ucast_u8_small [of "p + k"]
      by (simp add: HoleList_extend_def r(8) off pend add Let_def run_simps grow_size_def grow_holes_def list_rep_def
          del: of_nat_add)
  next
    case False
    define n where "n = p + k - (p + k) mod 4"
    note part = grow_part [OF n_def False]
    have n: "n < 2 ^ 31" "hi + n \<le> addr_limit"
      using part(3) lim big by simp_all
    obtain m' n' where run: "HoleList_deallocate b (word_of_nat hi) \<lparr>lsize = word_of_nat n, lalign = 1\<rparr> s
        = Ret \<lparr>lsize = layout_word \<lparr>lsize = word_of_nat n, lalign = 1\<rparr>, lalign = 1\<rparr> (with_list s m' n')"
      and wf: "holes_wf lo (hi + n) (insert_hole (hi, n) hs)" and seg: "seg m' n' (insert_hole (hi, n) hs) None"
      and out: "same_outside (free_bytes hs \<union> {hi..<hi + n}) (mem s) m'"
      using extend_deallocate [OF rep, of n b] n part(1,2) by blast
    have down: "align_down_size (word_of_nat (p + k)) align_of_Hole = ret (word_of_nat n)"
      using align_down_nat [of "p + k"] big by (simp add: n_def)
    have lay: "from_size_align (word_of_nat n) 1 = Inr \<lparr>lsize = word_of_nat n, lalign = 1\<rparr>"
      using n(1) by (intro from_size_align_1) simp
    have sub: "usize_sub b (word_of_nat (p + k)) (word_of_nat n) = ret (word_of_nat (p + k - n))"
      using part(3) big by (intro usize_sub_nat) auto
    have top: "word_of_nat hi + (word_of_nat n :: usize) = word_of_nat (hi + n)"
      by simp
    show ?thesis
      using rep pre False ucast_u8_small [of "p + k - n"] wf seg out n(2) part(1,2,4)
      by (simp add: HoleList_extend_def r(8) off pend add down lay sub top bind_Ret [where f = "HoleList_deallocate b x y" for x y, OF run] run_simps grow_size_def grow_holes_def
          list_rep_def region_ok_def n_def [symmetric] with_list_def del: of_nat_add of_nat_diff)
  qed
qed

end
