(* ===== verification/LinkedListAllocator.thy ===== *)
theory LinkedListAllocator
  imports HoleInv
begin

text \<open>
  \<^verbatim>\<open>rust/src/linked_list_allocator.rs\<close>: the \<^verbatim>\<open>Heap\<close> that counts the bytes in use on top of a
  \<^verbatim>\<open>HoleList\<close>, and \<^verbatim>\<open>LockedHeap\<close> with its two allocator interfaces. The heap of a program is part
  of its state (the cell inside a \<^verbatim>\<open>LockedHeap\<close>): the fields \<open>holes\<close> and \<open>used\<close> of \<open>heap_state\<close>.
  Every block an allocator gives out stays in a ledger; the invariant says that the blocks of the
  ledger and the holes tile the region of the heap.
\<close>

section \<open>The heap\<close>

record Heap =
  hp_used :: usize
  hp_holes :: HoleList

record heap_state = hole_state +
  used :: usize

definition put_heap :: "Heap \<Rightarrow> ('x heap_state_scheme, unit) prog" where
  "put_heap h = modify (\<lambda>s. s\<lparr>holes := hp_holes h, used := hp_used h\<rparr>)"

definition Heap_empty :: Heap where
  "Heap_empty = \<lparr>hp_used = 0, hp_holes = HoleList_empty\<rparr>"

definition Heap_new :: "profile \<Rightarrow> usize \<Rightarrow> usize \<Rightarrow> ('x machine_scheme, Heap) prog" where
  "Heap_new b heap_bottom heap_size =
     bind (HoleList_new b heap_bottom heap_size) (\<lambda>hl. ret \<lparr>hp_used = 0, hp_holes = hl\<rparr>)"

definition Heap_from_slice :: "profile \<Rightarrow> usize \<Rightarrow> usize \<Rightarrow> ('x machine_scheme, Heap) prog" where
  "Heap_from_slice b address len = Heap_new b address len"

definition Heap_init :: "profile \<Rightarrow> usize \<Rightarrow> usize \<Rightarrow> ('x heap_state_scheme, unit) prog" where
  "Heap_init b heap_bottom heap_size =
     bind (modify (\<lambda>s. s\<lparr>used := 0\<rparr>)) (\<lambda>_.
     bind (HoleList_new b heap_bottom heap_size) (\<lambda>hl.
     modify (\<lambda>s. s\<lparr>holes := hl\<rparr>)))"

definition Heap_bottom :: "'x heap_state_scheme \<Rightarrow> usize" where
  "Heap_bottom s = hl_bottom (holes s)"

definition Heap_init_from_slice :: "profile \<Rightarrow> usize \<Rightarrow> usize \<Rightarrow> ('x heap_state_scheme, unit) prog" where
  "Heap_init_from_slice b address len =
     bind (gets Heap_bottom) (\<lambda>bottom.
     bind (assert_that (bottom = 0) ''The heap has already been initialized.'') (\<lambda>_.
     Heap_init b address len))"

definition Heap_allocate_first_fit :: "profile \<Rightarrow> Layout \<Rightarrow> ('x heap_state_scheme, unit + usize) prog" where
  "Heap_allocate_first_fit b layout =
     bind (HoleList_allocate_first_fit b layout) (\<lambda>r. case r of
       Inr (ptr, aligned_layout) \<Rightarrow>
         bind (gets used) (\<lambda>u.
         bind (usize_add b u (lsize aligned_layout)) (\<lambda>u'.
         bind (modify (\<lambda>s. s\<lparr>used := u'\<rparr>)) (\<lambda>_.
         ret (Inr ptr))))
     | Inl err \<Rightarrow> ret (Inl err))"

definition Heap_deallocate :: "profile \<Rightarrow> usize \<Rightarrow> Layout \<Rightarrow> ('x heap_state_scheme, unit) prog" where
  "Heap_deallocate b ptr layout =
     bind (HoleList_deallocate b ptr layout) (\<lambda>aligned_layout.
     bind (gets used) (\<lambda>u.
     bind (usize_sub b u (lsize aligned_layout)) (\<lambda>u'.
     modify (\<lambda>s. s\<lparr>used := u'\<rparr>))))"

definition Heap_size :: "'x heap_state_scheme \<Rightarrow> usize" where
  "Heap_size s = hl_top (holes s) - hl_bottom (holes s)"

definition Heap_top :: "'x heap_state_scheme \<Rightarrow> usize" where
  "Heap_top s = hl_top (holes s) + ucast (hl_pending_extend (holes s))"

definition Heap_used :: "'x heap_state_scheme \<Rightarrow> usize" where
  "Heap_used s = used s"

definition Heap_free :: "profile \<Rightarrow> ('x heap_state_scheme, usize) prog" where
  "Heap_free b = bind (gets Heap_size) (\<lambda>sz. bind (gets used) (\<lambda>u. usize_sub b sz u))"

definition Heap_extend :: "profile \<Rightarrow> usize \<Rightarrow> ('x heap_state_scheme, unit) prog" where
  "Heap_extend b by = HoleList_extend b by"

section \<open>\<^verbatim>\<open>LockedHeap\<close> as an \<^verbatim>\<open>Allocator\<close> and as the global allocator\<close>

datatype AllocError = AllocError

text \<open>A \<^verbatim>\<open>NonNull<[u8]>\<close> is a pointer and a length. Only \<^verbatim>\<open>Allocator\<close> treats empty layouts specially.\<close>

definition LockedHeap_allocate :: "profile \<Rightarrow> Layout \<Rightarrow> ('x heap_state_scheme, AllocError + usize \<times> usize) prog" where
  "LockedHeap_allocate b layout =
     (if lsize layout = 0 then ret (Inr (lalign layout, 0))
      else bind (Heap_allocate_first_fit b layout) (\<lambda>r. case r of
          Inr ptr \<Rightarrow> ret (Inr (ptr, lsize layout))
        | Inl _ \<Rightarrow> ret (Inl AllocError)))"

definition LockedHeap_deallocate :: "profile \<Rightarrow> usize \<Rightarrow> Layout \<Rightarrow> ('x heap_state_scheme, unit) prog" where
  "LockedHeap_deallocate b ptr layout =
     (if lsize layout \<noteq> 0 then Heap_deallocate b ptr layout else ret ())"

definition LockedHeap_empty :: Heap where
  "LockedHeap_empty = Heap_empty"

definition LockedHeap_new :: "profile \<Rightarrow> usize \<Rightarrow> usize \<Rightarrow> ('x machine_scheme, Heap) prog" where
  "LockedHeap_new b heap_bottom heap_size =
     bind (HoleList_new b heap_bottom heap_size) (\<lambda>hl. ret \<lparr>hp_used = 0, hp_holes = hl\<rparr>)"

definition LockedHeap_init :: "profile \<Rightarrow> usize \<Rightarrow> usize \<Rightarrow> ('x heap_state_scheme, unit) prog" where
  "LockedHeap_init b heap_bottom heap_size = Heap_init b heap_bottom heap_size"

definition LockedHeap_alloc :: "profile \<Rightarrow> Layout \<Rightarrow> ('x heap_state_scheme, usize) prog" where
  "LockedHeap_alloc b layout =
     bind (Heap_allocate_first_fit b layout) (\<lambda>r. ret (case r of Inr allocation \<Rightarrow> allocation | Inl _ \<Rightarrow> 0))"

definition LockedHeap_dealloc :: "profile \<Rightarrow> usize \<Rightarrow> Layout \<Rightarrow> ('x heap_state_scheme, unit) prog" where
  "LockedHeap_dealloc b ptr layout = Heap_deallocate b ptr layout"

section \<open>The ledger\<close>

text \<open>The blocks given out and not yet taken back: each with its address and the layout it was asked for.\<close>

type_synonym ledger = "(nat \<times> Layout) set"

definition block_bytes :: "nat \<times> Layout \<Rightarrow> nat set" where
  "block_bytes x = {fst x..<fst x + block_size (snd x)}"

definition ledger_bytes :: "ledger \<Rightarrow> nat set" where
  "ledger_bytes L = (\<Union>x\<in>L. block_bytes x)"

definition ledger_ok :: "nat \<Rightarrow> nat \<Rightarrow> region list \<Rightarrow> ledger \<Rightarrow> bool" where
  "ledger_ok lo hi hs L \<longleftrightarrow>
     (\<forall>x\<in>L. 4 dvd fst x \<and> unat (lalign (snd x)) dvd fst x \<and> layout_ok (snd x) \<and> fits_layout (snd x)) \<and>
     (\<forall>x\<in>L. \<forall>y\<in>L. x \<noteq> y \<longrightarrow> block_bytes x \<inter> block_bytes y = {}) \<and>
     ledger_bytes L = {lo..<hi} - free_bytes hs"

text \<open>The invariant of the heap.\<close>

definition heap_rep :: "'x heap_state_scheme \<Rightarrow> nat \<Rightarrow> nat \<Rightarrow> region list \<Rightarrow> ledger \<Rightarrow> bool" where
  "heap_rep s lo hi hs L \<longleftrightarrow> list_rep s lo hi hs \<and> ledger_ok lo hi hs L \<and>
     unat (used s) + free_total hs = hi - lo"

lemma heap_repD:
  assumes "heap_rep s lo hi hs L"
  shows "list_rep s lo hi hs" "ledger_ok lo hi hs L" "unat (used s) + free_total hs = hi - lo"
    and "holes_wf lo hi hs" "lo + 8 \<le> hi" "hi < 2 ^ 32" "0 < lo"
  using assms list_repD [of s lo hi hs] by (auto simp: heap_rep_def)

text \<open>The live blocks determine the free list; with none, the heap is one hole.\<close>

lemma heap_rep_canonical:
  assumes "heap_rep s lo hi hs L" and "heap_rep s' lo hi hs' L'" and "ledger_bytes L = ledger_bytes L'"
  shows "hs = hs'"
proof -
  have "free_bytes hs \<subseteq> {lo..<hi}" "free_bytes hs' \<subseteq> {lo..<hi}"
    using free_bytes_lower free_bytes_upper heap_repD(4) [OF assms(1)] heap_repD(4) [OF assms(2)] by auto
  moreover have "{lo..<hi} - free_bytes hs = {lo..<hi} - free_bytes hs'"
    using heap_repD(2) [OF assms(1)] heap_repD(2) [OF assms(2)] assms(3) by (simp add: ledger_ok_def)
  ultimately have "free_bytes hs = free_bytes hs'"
    by blast
  then show ?thesis
    using holes_canonical [OF heap_repD(4) [OF assms(1)] heap_repD(4) [OF assms(2)]] by simp
qed

lemma heap_rep_empty:
  assumes "heap_rep s lo hi hs {}"
  shows "hs = [(lo, hi - lo)]" and "used s = 0"
proof -
  note r = list_repD [OF heap_repD(1) [OF assms]]
  have "free_bytes hs \<subseteq> {lo..<hi}"
    using free_bytes_lower free_bytes_upper heap_repD(4) [OF assms] by auto
  then have "free_bytes hs = free_bytes [(lo, hi - lo)]"
    using heap_repD(2) [OF assms] r(4) by (auto simp: ledger_ok_def ledger_bytes_def)
  moreover have "holes_wf lo hi [(lo, hi - lo)]"
    using r(1-4) by (auto intro: dvd_diff_nat)
  ultimately show hs: "hs = [(lo, hi - lo)]"
    using holes_canonical [OF heap_repD(4) [OF assms]] by blast
  have "unat (used s) = 0"
    using heap_repD(3,5) [OF assms] by (simp add: hs free_total_def)
  then show "used s = 0"
    by (simp add: unat_eq_zero)
qed

lemma ledger_block:
  assumes "ledger_ok lo hi hs L" and "(a, l) \<in> L"
  shows "freeable lo hi hs a (block_size l)" "layout_ok l" "fits_layout l" "unat (lalign l) dvd a"
proof -
  have sub: "{a..<a + block_size l} \<subseteq> {lo..<hi} - free_bytes hs"
  proof -
    have "block_bytes (a, l) \<subseteq> ledger_bytes L"
      using assms(2) by (auto simp: ledger_bytes_def)
    then show ?thesis
      using assms(1) by (simp add: ledger_ok_def block_bytes_def)
  qed
  have pos: "0 < block_size l"
    using block_size_props [of l] by simp
  have "a \<in> {lo..<hi}" "a + (block_size l - 1) \<in> {lo..<hi}"
    using subsetD [OF sub, of a] subsetD [OF sub, of "a + (block_size l - 1)"] pos by auto
  moreover have "{a..<a + block_size l} \<inter> free_bytes hs = {}"
    using sub by blast
  ultimately have "lo \<le> a" "a + block_size l \<le> hi" "{a..<a + block_size l} \<inter> free_bytes hs = {}"
    using pos by auto
  then show "freeable lo hi hs a (block_size l)" "layout_ok l" "fits_layout l" "unat (lalign l) dvd a"
    using assms block_size_props [of l] by (auto simp: freeable_def ledger_ok_def)
qed

text \<open>Every byte of the region lies in a hole or a block of at least eight bytes.\<close>

lemma ledger_cover:
  assumes ok: "ledger_ok lo hi hs L" and wf: "holes_wf lo hi hs" and x: "lo \<le> x" "x < hi"
    and out: "x < a \<or> a + block_size l \<le> x" and al: "(a, l) \<in> L"
  obtains c t where "x \<in> {c..<c + t}" "8 \<le> t" "lo \<le> c" "c + t \<le> hi" "c + t \<le> a \<or> a + block_size l \<le> c"
proof (cases "x \<in> free_bytes hs")
  case True
  then obtain c t where c: "(c, t) \<in> set hs" "x \<in> {c..<c + t}"
    by (induction hs rule: free_bytes.induct) auto
  show thesis
    by (rule that [of c t])
      (use holes_wf_member [OF wf c(1)] freeable_apart(1) [OF wf ledger_block(1) [OF ok al] c(1)] c(2) in auto)
next
  case False
  then have "x \<in> ledger_bytes L"
    using ok x by (auto simp: ledger_ok_def)
  then obtain c k where c: "(c, k) \<in> L" "x \<in> block_bytes (c, k)"
    by (auto simp: ledger_bytes_def)
  have "(c, k) \<noteq> (a, l)"
    using c(2) out by (auto simp: block_bytes_def)
  then have "block_bytes (c, k) \<inter> block_bytes (a, l) = {}"
    using ok al c(1) unfolding ledger_ok_def by blast
  then have "c + block_size k \<le> a \<or> a + block_size l \<le> c"
    unfolding block_bytes_def fst_conv snd_conv
    by (rule disjoint_intervals) (use block_size_props [of l] block_size_props [of k] in auto)
  then show thesis
    using ledger_block(1) [OF ok c(1)] c(2)
    by (intro that [of c "block_size k"]) (auto simp: freeable_def block_bytes_def)
qed

lemma ledger_no_gap:
  assumes ok: "ledger_ok lo hi hs L" and wf: "holes_wf lo hi hs" and al: "(a, l) \<in> L"
  shows "no_gap lo hi a (block_size l)"
proof -
  have fr: "lo \<le> a" "8 \<le> block_size l" "a + block_size l \<le> hi"
    using ledger_block(1) [OF ok al] by (auto simp: freeable_def)
  have "a = lo \<or> lo + 8 \<le> a"
  proof (cases "a = lo")
    case False
    show ?thesis
      by (rule ledger_cover [OF ok wf _ _ _ al, of lo]) (use False fr in auto)
  qed simp
  moreover have "a + block_size l + 8 \<le> hi \<or> hi \<le> a + block_size l"
  proof (cases "a + block_size l = hi")
    case False
    show ?thesis
      by (rule ledger_cover [OF ok wf _ _ _ al, of "hi - 1"]) (use False fr in auto)
  qed simp
  ultimately show ?thesis
    by (simp add: no_gap_def)
qed

lemma free_total_le:
  assumes "holes_wf lo hi hs"
  shows "free_total hs \<le> hi - lo"
proof -
  have "card (free_bytes hs) \<le> card {lo..<hi}"
    using free_bytes_lower [OF assms] free_bytes_upper [OF assms] by (intro card_mono) auto
  then show ?thesis
    by (simp add: card_free_bytes [OF assms])
qed

lemma list_rep_used [simp]: "list_rep (s\<lparr>used := u\<rparr>) lo hi hs = list_rep s lo hi hs"
  by (simp add: list_rep_def)

section \<open>Allocation\<close>

definition alloc_address :: "Layout \<Rightarrow> region list \<Rightarrow> unit + usize" where
  "alloc_address l hs = (case list_alloc l hs of None \<Rightarrow> Inl () | Some (p, _) \<Rightarrow> Inr (word_of_nat p))"

definition alloc_ledger :: "Layout \<Rightarrow> region list \<Rightarrow> ledger \<Rightarrow> ledger" where
  "alloc_ledger l hs L = (case list_alloc l hs of None \<Rightarrow> L | Some (p, _) \<Rightarrow> insert (p, l) L)"

lemma ledger_alloc:
  assumes ok: "ledger_ok lo hi hs L" and wf: "holes_wf lo hi hs" and l: "layout_ok l"
    and fit: "list_alloc l hs = Some (p, hs')"
  shows "ledger_ok lo hi hs' (insert (p, l) L)" and "block_bytes (p, l) \<subseteq> free_bytes hs"
    and "block_bytes (p, l) \<inter> ledger_bytes L = {}" and "(p, l) \<notin> L"
proof -
  note f = list_alloc_Some [OF fit l wf]
  show new: "block_bytes (p, l) \<subseteq> free_bytes hs"
    using f(4) by (simp add: block_bytes_def)
  have in_region: "free_bytes hs \<subseteq> {lo..<hi}"
    using free_bytes_lower [OF wf] free_bytes_upper [OF wf] by auto
  show disj: "block_bytes (p, l) \<inter> ledger_bytes L = {}"
    using new ok by (auto simp: ledger_ok_def)
  have "p \<in> block_bytes (p, l)"
    using block_size_props [of l] by (simp add: block_bytes_def)
  then show "(p, l) \<notin> L"
    using disj by (auto simp: ledger_bytes_def)
  have "fits_layout l"
    using fit by (auto simp: list_alloc_def split: if_splits)
  moreover have "ledger_bytes (insert (p, l) L) = {lo..<hi} - free_bytes hs'"
    using ok new in_region unfolding f(5) by (auto simp: ledger_ok_def ledger_bytes_def block_bytes_def)
  moreover have "block_bytes (p, l) \<inter> block_bytes y = {}" if "y \<in> L" for y
    using disj that by (auto simp: ledger_bytes_def)
  ultimately show "ledger_ok lo hi hs' (insert (p, l) L)"
    using ok l f(2,3) unfolding ledger_ok_def by (auto simp: Int_commute)
qed

lemma Heap_allocate_run:
  assumes rep: "heap_rep s lo hi hs L" and l: "layout_ok l"
  shows "\<exists>s'. Heap_allocate_first_fit b l s = Ret (alloc_address l hs) s' \<and>
    heap_rep s' lo hi (alloc_holes l hs) (alloc_ledger l hs L) \<and> same_outside (free_bytes hs) (mem s) (mem s')"
proof -
  note h = heap_repD [OF rep]
  obtain m' n' where run: "HoleList_allocate_first_fit b l s = Ret (alloc_result l hs) (with_list s m' n')"
    and rep': "list_rep (with_list s m' n') lo hi (alloc_holes l hs)"
    and out: "same_outside (free_bytes hs) (mem s) m'"
    using allocate_first_fit_run [OF h(1) l, of b] by blast
  have us: "used (with_list s m' n') = used s"
    by (simp add: with_list_def)
  show ?thesis
  proof (cases "list_alloc l hs")
    case None
    then show ?thesis
      using run rep' out h us
      by (simp add: Heap_allocate_first_fit_def bind_def alloc_result_def alloc_address_def alloc_holes_def
          alloc_ledger_def heap_rep_def run_simps)
  next
    case (Some r)
    obtain p hs' where p: "list_alloc l hs = Some (p, hs')"
      using Some by (cases r) auto
    note f = list_alloc_Some [OF p l h(4)]
    have w: "unat (layout_word l) = block_size l"
      using unat_layout_word [OF l] by (simp add: block_size_def)
    have sum: "unat (used s) + unat (layout_word l) + free_total hs' = hi - lo"
      using h(3) f(6) w by simp
    then have "unat (used s) + unat (layout_word l) < 2 ^ 32"
      using h(6) by linarith
    moreover from this have "unat (used s + layout_word l) = unat (used s) + unat (layout_word l)"
      by (rule unat_add_32)
    ultimately show ?thesis
      using run rep' out us sum ledger_alloc(1) [OF h(2,4) l p]
      by (simp add: Heap_allocate_first_fit_def bind_def [of "HoleList_allocate_first_fit b l"] alloc_result_def
          alloc_address_def alloc_holes_def alloc_ledger_def heap_rep_def p run_simps)
  qed
qed

section \<open>Deallocation\<close>

lemma ledger_free:
  assumes ok: "ledger_ok lo hi hs L" and wf: "holes_wf lo hi hs" and al: "(a, l) \<in> L"
  shows "ledger_ok lo hi (insert_hole (a, block_size l) hs) (L - {(a, l)})"
    and "ledger_bytes (L - {(a, l)}) = ledger_bytes L - block_bytes (a, l)"
proof -
  have "block_bytes x \<inter> block_bytes (a, l) = {}" if "x \<in> L - {(a, l)}" for x
    using ok al that by (auto simp: ledger_ok_def)
  then show *: "ledger_bytes (L - {(a, l)}) = ledger_bytes L - block_bytes (a, l)"
    by (fastforce simp: ledger_bytes_def)
  have "free_bytes (insert_hole (a, block_size l) hs) = free_bytes hs \<union> block_bytes (a, l)"
    using insert_hole_wf [OF wf] ledger_block(1) [OF ok al] by (simp add: freeable_def block_bytes_def)
  then show "ledger_ok lo hi (insert_hole (a, block_size l) hs) (L - {(a, l)})"
    using ok * unfolding ledger_ok_def by auto
qed

lemma Heap_deallocate_run:
  assumes rep: "heap_rep s lo hi hs L" and al: "(a, l) \<in> L"
  shows "\<exists>s'. Heap_deallocate b (word_of_nat a) l s = Ret () s' \<and>
    heap_rep s' lo hi (insert_hole (a, block_size l) hs) (L - {(a, l)}) \<and>
    same_outside (free_bytes hs \<union> block_bytes (a, l)) (mem s) (mem s')"
proof -
  note h = heap_repD [OF rep]
  note bl = ledger_block [OF h(2) al]
  obtain m' n' where run: "HoleList_deallocate b (word_of_nat a) l s
      = Ret \<lparr>lsize = layout_word l, lalign = lalign l\<rparr> (with_list s m' n')"
    and rep': "list_rep (with_list s m' n') lo hi (insert_hole (a, block_size l) hs)"
    and out: "same_outside (free_bytes hs \<union> {a..<a + block_size l}) (mem s) m'"
    using HoleList_deallocate_run [OF h(1) bl(2,3,1) ledger_no_gap [OF h(2,4) al], of b] by blast
  have us: "used (with_list s m' n') = used s"
    by (simp add: with_list_def)
  have tot: "free_total (insert_hole (a, block_size l) hs) = free_total hs + block_size l"
    and w: "unat (layout_word l) = block_size l"
    using insert_hole_wf [OF h(4)] bl unat_layout_word [OF bl(2)] by (simp_all add: freeable_def block_size_def)
  have "free_total (insert_hole (a, block_size l) hs) \<le> hi - lo"
  proof -
    have wf: "holes_wf lo hi (insert_hole (a, block_size l) hs)"
      using rep' by (simp add: list_rep_def)
    show ?thesis
      using free_total_le [OF wf] .
  qed
  then have le: "unat (layout_word l) \<le> unat (used s)"
    using h(3) tot w by linarith
  moreover from le have "unat (used s - layout_word l) = unat (used s) - unat (layout_word l)"
    by (rule unat_sub_32)
  ultimately show ?thesis
    using run rep' out us h(3) tot w ledger_free(1) [OF h(2,4) al]
    by (simp add: Heap_deallocate_def bind_def [of "HoleList_deallocate b (word_of_nat a) l"] heap_rep_def
        block_bytes_def run_simps)
qed

section \<open>Initialisation and extension\<close>

lemma Heap_init_run:
  assumes "0 < addr" and "addr + sz \<le> addr_limit" and "new_bottom addr + 8 \<le> new_top addr sz"
  shows "\<exists>s'. Heap_init b (word_of_nat addr) (word_of_nat sz) s = Ret () s' \<and>
    heap_rep s' (new_bottom addr) (new_top addr sz) [(new_bottom addr, new_top addr sz - new_bottom addr)] {} \<and>
    Heap_top s' = word_of_nat (addr + sz) \<and>
    same_outside {new_bottom addr..<new_bottom addr + 8} (mem s) (mem s')"
proof -
  define lo hi where "lo = new_bottom addr" and "hi = new_top addr sz"
  obtain h t where run: "HoleList_new b (word_of_nat addr) (word_of_nat sz) (s\<lparr>used := 0\<rparr>) = Ret h t"
    and t: "used t = 0" and h: "hl_top h = word_of_nat hi" "hl_pending_extend h = word_of_nat (addr + sz - hi)"
    using HoleList_new_run [OF assms, of b "s\<lparr>used := 0\<rparr>"] by (simp add: hi_def)
  let ?s' = "t\<lparr>holes := h\<rparr>"
  have "mem (s\<lparr>used := 0\<rparr>) = mem s"
    by simp
  note rep = HoleList_new_rep [OF assms run, of ?s', unfolded this, folded lo_def hi_def]
  have "ledger_ok lo hi [(lo, hi - lo)] {}"
    using assms(3) by (auto simp: ledger_ok_def ledger_bytes_def lo_def hi_def)
  then have "heap_rep ?s' lo hi [(lo, hi - lo)] {}"
    using rep(1) t by (simp add: heap_rep_def)
  moreover have "Heap_top ?s' = word_of_nat (addr + sz)"
  proof -
    have "hi \<le> addr + sz" "addr + sz - hi < 4"
      by (simp_all add: hi_def new_top_def)
    moreover have "(ucast (word_of_nat x :: u8) :: usize) = word_of_nat x" if "x < 4" for x
      using that by (simp add: unsigned_of_nat take_bit_nat_eq_self)
    ultimately show ?thesis
      by (simp add: Heap_top_def h flip: of_nat_add del: of_nat_diff)
  qed
  ultimately show ?thesis
    using rep(2) run by (auto simp: Heap_init_def bind_def [of "HoleList_new b x y" for x y] run_simps lo_def hi_def)
qed

lemma Heap_init_frame:
  assumes "0 < addr" and "addr + sz \<le> addr_limit" and "new_bottom addr + 8 \<le> new_top addr sz"
    and "Heap_init b (word_of_nat addr) (word_of_nat sz) s = Ret () s'"
  shows "s' = s\<lparr>mem := mem s', holes := holes s', used := used s'\<rparr>"
  using assms(4) by (auto simp: Heap_init_def bind_def [of "HoleList_new b x y" for x y] HoleList_new_run [OF assms(1-3)]
      run_simps)

lemma ledger_grow:
  assumes ok: "ledger_ok lo hi hs L" and wf: "holes_wf lo hi hs" and n: "n = 0 \<or> 8 \<le> n" "4 dvd hi" "4 dvd n" "lo \<le> hi"
  shows "ledger_ok lo (hi + n) (grow_holes hi n hs) L" and "free_total (grow_holes hi n hs) = free_total hs + n"
proof -
  have "ledger_ok lo (hi + n) (grow_holes hi n hs) L \<and> free_total (grow_holes hi n hs) = free_total hs + n"
  proof (cases "n = 0")
    case True
    then show ?thesis
      using ok by (simp add: grow_holes_def)
  next
    case False
    have "{hi..<hi + n} \<inter> free_bytes hs = {}"
      using free_bytes_upper [OF wf] by fastforce
    note i = insert_hole_wf [OF holes_wf_hi_mono [OF wf, of "hi + n"] n(4,2,3) _ _ this]
    have "{lo..<hi + n} - (free_bytes hs \<union> {hi..<hi + n}) = {lo..<hi} - free_bytes hs"
      using n(4) by auto
    then show ?thesis
      using i False n(1) ok by (simp add: grow_holes_def ledger_ok_def)
  qed
  then show "ledger_ok lo (hi + n) (grow_holes hi n hs) L" "free_total (grow_holes hi n hs) = free_total hs + n"
    by auto
qed

lemma grow_size_props:
  "grow_size p k = 0 \<or> 8 \<le> grow_size p k" "4 dvd grow_size p k" "grow_size p k \<le> p + k"
  "p + k < grow_size p k + 8"
proof -
  have "8 \<le> x - x mod 4" if "8 \<le> x" for x :: nat
    using div_le_mono [OF that, of 4] by (simp add: minus_mod_eq_mult_div)
  then show "grow_size p k = 0 \<or> 8 \<le> grow_size p k"
    by (simp add: grow_size_def)
  have "(p + k) mod 4 < 4"
    by simp
  then show "4 dvd grow_size p k" "grow_size p k \<le> p + k" "p + k < grow_size p k + 8"
    by (auto simp: grow_size_def minus_mod_eq_mult_div)
qed

text \<open>An extension makes the heap own the bytes behind it, those too few for a node as \<open>pending\<close>.\<close>

lemma Heap_extend_run:
  assumes rep: "heap_rep s lo hi hs L" and p: "p = unat (hl_pending_extend (holes s))"
    and lim: "hi + (p + k) \<le> addr_limit" and big: "p + k < 2 ^ 31"
  shows "\<exists>s'. Heap_extend b (word_of_nat k) s = Ret () s' \<and>
    heap_rep s' lo (hi + grow_size p k) (grow_holes hi (grow_size p k) hs) L \<and>
    unat (hl_pending_extend (holes s')) = p + k - grow_size p k \<and>
    same_outside (free_bytes hs \<union> {hi..<hi + grow_size p k}) (mem s) (mem s')"
proof -
  note h = heap_repD [OF rep] and r = list_repD [OF heap_repD(1) [OF rep]]
  obtain s' where run: "HoleList_extend b (word_of_nat k) s = Ret () s'"
    and keep: "s' = s\<lparr>mem := mem s', holes := holes s'\<rparr>"
    and rep': "list_rep s' lo (hi + grow_size p k) (grow_holes hi (grow_size p k) hs)"
    and rest: "unat (hl_pending_extend (holes s')) = p + k - grow_size p k"
      "same_outside (free_bytes hs \<union> {hi..<hi + grow_size p k}) (mem s) (mem s')"
    using HoleList_extend_run [OF h(1) p lim big, of b] by blast
  have "used s' = used s"
    by (subst keep) simp
  then have "heap_rep s' lo (hi + grow_size p k) (grow_holes hi (grow_size p k) hs) L"
    using ledger_grow [OF h(2,4) grow_size_props(1) r(3) grow_size_props(2), of p k] rep' h(3,5)
    by (simp add: heap_rep_def)
  then show ?thesis
    using run rest by (simp add: Heap_extend_def)
qed

section \<open>A double free\<close>

lemma insert_hole_home:
  assumes "holes_wf lo hi hs" and "freeable lo hi hs a z"
  shows "\<exists>c u. (c, u) \<in> set (insert_hole (a, z) hs) \<and> (a = c \<or> c + 8 \<le> a) \<and> a + z \<le> c + u"
  using assms
proof (induction hs arbitrary: lo)
  case Nil
  then show ?case
    by auto
next
  case (Cons h hs)
  obtain b t where h: "h = (b, t)"
    by (cases h)
  have bt: "8 \<le> t" "a + z \<le> b \<or> b + t \<le> a"
    using freeable_apart [OF Cons.prems, of b t] by (auto simp: h)
  have at_glue: "\<exists>c u. (c, u) \<in> set (glue (d, w) gs) \<and> (a = c \<or> c + 8 \<le> a) \<and> a + z \<le> c + u"
    if "a = d \<or> d + 8 \<le> a" "a + z \<le> d + w" for d w gs
  proof -
    have "\<exists>u. w \<le> u \<and> (d, u) \<in> set (glue (d, w) gs)"
    proof (cases gs)
      case (Cons g gs')
      then obtain c u where "gs = (c, u) # gs'"
        by (cases g) auto
      then show ?thesis
        by (intro exI [of _ "if d + w = c then w + u else w"]) simp
    qed auto
    then show ?thesis
      using that by fastforce
  qed
  show ?case
  proof (cases "a < b \<or> b + t = a")
    case True
    then show ?thesis
      using at_glue [of a z "(b, t) # hs"] at_glue [of b "t + z" hs] bt by (auto simp: h)
  next
    case False
    then have "freeable (Suc (b + t)) hi hs a z"
      using Cons.prems(2) bt by (auto simp: h freeable_def)
    then have "\<exists>c u. (c, u) \<in> set (insert_hole (a, z) hs) \<and> (a = c \<or> c + 8 \<le> a) \<and> a + z \<le> c + u"
      using Cons.IH [of "Suc (b + t)"] Cons.prems(1) by (simp add: h)
    then show ?thesis
      using False by (auto simp: h)
  qed
qed

lemma Heap_deallocate_free:
  assumes rep: "heap_rep s lo hi hs L" and l: "layout_ok l" "fits_layout l"
    and a: "4 dvd a" "a = c \<or> c + 8 \<le> a" "a + block_size l \<le> c + u" and c: "(c, u) \<in> set hs"
  shows "Heap_deallocate b (word_of_nat a) l s = Panics (alias_panic b a c)"
proof -
  note h = heap_repD [OF rep] and r = list_repD [OF heap_repD(1) [OF rep]]
  obtain pre post where hs: "hs = pre @ (c, u) # post"
    using split_list [OF c] by blast
  have "deallocate b (word_of_nat a) (word_of_nat (block_size l)) s = Panics (alias_panic b a c)"
    using deallocate_free_block [of lo hi pre c u post a "block_size l" "mem s" "hnext (hl_first (holes s))" b s]
      r a block_size_props [of l] by (simp add: hs with_list_id)
  then show ?thesis
    by (simp add: Heap_deallocate_def HoleList_deallocate_align [OF l] bind_def)
qed

end
