(* ===== verification/BlockContract.thy ===== *)
theory BlockContract
  imports Memory
begin

text \<open>
  The contract between an allocator of memory blocks and the programs that use it, as a locale, and
  what a client may conclude from it: whatever sequence of requests, returns and writes into live
  blocks a client performs, the blocks it holds never overlap, no call fails, and every byte it wrote
  into a block it still holds is there. The heap provides it (through both interfaces of
  \<^verbatim>\<open>LockedHeap\<close>, in \<open>AllocatorClient\<close>), and so does the page allocator (in \<open>Palloc\<close>).
\<close>

section \<open>What a client may do\<close>

text \<open>
  A client's view: the state, the blocks it holds, and the bytes it has written and not given back.
  Requests have type \<open>'q\<close> (a layout, or nothing), blocks have type \<open>'k\<close>.
\<close>

type_synonym ('s, 'k) client = "'s \<times> 'k set \<times> (nat \<rightharpoonup> u8)"

inductive client_step :: "('q \<Rightarrow> ('s, 'k option) prog) \<Rightarrow> ('k \<Rightarrow> ('s, unit) prog) \<Rightarrow> (usize \<Rightarrow> u8 \<Rightarrow> 's \<Rightarrow> 's) \<Rightarrow>
    ('q \<Rightarrow> bool) \<Rightarrow> ('k \<Rightarrow> nat set) \<Rightarrow> ('s, 'k) client \<Rightarrow> ('s, 'k) client \<Rightarrow> bool"
  for alloc :: "'q \<Rightarrow> ('s, 'k option) prog" and dealloc :: "'k \<Rightarrow> ('s, unit) prog"
    and put :: "usize \<Rightarrow> u8 \<Rightarrow> 's \<Rightarrow> 's" and ok :: "'q \<Rightarrow> bool" and bytes :: "'k \<Rightarrow> nat set"
where
  obtained: "ok q \<Longrightarrow> alloc q s = Ret (Some x) s' \<Longrightarrow>
    client_step alloc dealloc put ok bytes (s, L, c) (s', insert x L, c)"
| refused: "ok q \<Longrightarrow> alloc q s = Ret None s' \<Longrightarrow> client_step alloc dealloc put ok bytes (s, L, c) (s', L, c)"
| returned: "x \<in> L \<Longrightarrow> dealloc x s = Ret () s' \<Longrightarrow>
    client_step alloc dealloc put ok bytes (s, L, c) (s', L - {x}, c |` (- bytes x))"
| wrote: "x \<in> L \<Longrightarrow> i \<in> bytes x \<Longrightarrow>
    client_step alloc dealloc put ok bytes (s, L, c) (put (word_of_nat i) v s, L, c(i \<mapsto> v))"

inductive_cases client_stepE: "client_step alloc dealloc put ok bytes (s, L, c) (s', L', c')"

section \<open>The contract\<close>

locale block_allocator =
  fixes alloc :: "'q \<Rightarrow> ('s, 'k option) prog"
    and dealloc :: "'k \<Rightarrow> ('s, unit) prog"
    and byte :: "'s \<Rightarrow> usize \<Rightarrow> u8"
    and put :: "usize \<Rightarrow> u8 \<Rightarrow> 's \<Rightarrow> 's"
    and ok :: "'q \<Rightarrow> bool"
    and bytes :: "'k \<Rightarrow> nat set"
    and inv :: "'s \<Rightarrow> 'k set \<Rightarrow> bool"
  assumes block: "inv s L \<Longrightarrow> x \<in> L \<Longrightarrow> bytes x \<subseteq> {0<..<2 ^ 32}"
    and apart: "inv s L \<Longrightarrow> x \<in> L \<Longrightarrow> y \<in> L \<Longrightarrow> x \<noteq> y \<Longrightarrow> bytes x \<inter> bytes y = {}"
    and alloc: "inv s L \<Longrightarrow> ok q \<Longrightarrow> \<exists>r s'. alloc q s = Ret r s' \<and>
      inv s' (case r of None \<Rightarrow> L | Some x \<Rightarrow> insert x L) \<and>
      (\<forall>x\<in>L. \<forall>i\<in>bytes x. byte s' (word_of_nat i) = byte s (word_of_nat i))"
    and dealloc: "inv s L \<Longrightarrow> x \<in> L \<Longrightarrow> \<exists>s'. dealloc x s = Ret () s' \<and> inv s' (L - {x}) \<and>
      (\<forall>y\<in>L - {x}. \<forall>i\<in>bytes y. byte s' (word_of_nat i) = byte s (word_of_nat i))"
    and put: "inv s L \<Longrightarrow> x \<in> L \<Longrightarrow> i \<in> bytes x \<Longrightarrow> inv (put (word_of_nat i) v s) L"
    and byte_put: "byte (put p v s) a = (if a = p then v else byte s a)"
begin

text \<open>The written bytes lie in live blocks and are still what the client wrote.\<close>

definition kept :: "'s \<Rightarrow> 'k set \<Rightarrow> (nat \<rightharpoonup> u8) \<Rightarrow> bool" where
  "kept s L c \<longleftrightarrow> (\<forall>i v. c i = Some v \<longrightarrow> (\<exists>x\<in>L. i \<in> bytes x) \<and> byte s (word_of_nat i) = v)"

lemma kept_returned:
  assumes "kept s L c" and "\<And>y i. y \<in> L - {x} \<Longrightarrow> i \<in> bytes y \<Longrightarrow> byte s' (word_of_nat i) = byte s (word_of_nat i)"
  shows "kept s' (L - {x}) (c |` (- bytes x))"
  unfolding kept_def
proof (intro allI impI)
  fix i v
  assume "(c |` (- bytes x)) i = Some v"
  then have i: "c i = Some v" "i \<notin> bytes x"
    by (auto simp: restrict_map_def split: if_splits)
  then obtain y where y: "y \<in> L - {x}" "i \<in> bytes y"
    using assms(1) by (auto simp: kept_def)
  then show "(\<exists>y\<in>L - {x}. i \<in> bytes y) \<and> byte s' (word_of_nat i) = v"
    using assms(2) [OF y] assms(1) i(1) by (auto simp: kept_def)
qed

lemma kept_wrote:
  assumes "kept s L c" and "inv s L" and "x \<in> L" and "i \<in> bytes x"
  shows "kept (put (word_of_nat i) v s) L (c(i \<mapsto> v))"
  unfolding kept_def
proof (intro allI impI)
  fix j w
  assume j: "(c(i \<mapsto> v)) j = Some w"
  have small: "k < 2 ^ 32" if "y \<in> L" "k \<in> bytes y" for y k
    using block [OF assms(2) that(1)] that(2) by auto
  show "(\<exists>y\<in>L. j \<in> bytes y) \<and> byte (put (word_of_nat i) v s) (word_of_nat j) = w"
  proof (cases "j = i")
    case True
    then show ?thesis
      using j assms(3,4) by (auto simp: byte_put)
  next
    case False
    then have w: "(\<exists>y\<in>L. j \<in> bytes y)" "byte s (word_of_nat j) = w"
      using j assms(1) by (auto simp: kept_def)
    then have "word_of_nat j \<noteq> (word_of_nat i :: usize)"
      using False small assms(3,4) by auto
    then show ?thesis
      using w by (simp add: byte_put)
  qed
qed

lemma written_step:
  assumes "client_step alloc dealloc put ok bytes (s, L, c) (s', L', c')" and "inv s L" and "kept s L c"
  shows "inv s' L' \<and> kept s' L' c'"
  using assms(1)
proof (cases rule: client_stepE [consumes 1, case_names obtained refused returned wrote])
  case (obtained q x)
  then show ?thesis
    using alloc [OF assms(2), of q] assms(3) by (fastforce simp: kept_def)
next
  case (refused q)
  then show ?thesis
    using alloc [OF assms(2), of q] assms(3) by (fastforce simp: kept_def)
next
  case (returned x)
  then show ?thesis
    using dealloc [OF assms(2), of x] kept_returned [OF assms(3), of x s'] by auto
next
  case (wrote x i v)
  then show ?thesis
    using put [OF assms(2), of x i v] kept_wrote [OF assms(3,2)] by auto
qed

lemma written_kept:
  assumes "(client_step alloc dealloc put ok bytes)\<^sup>*\<^sup>* (s, L, Map.empty) (s', L', c')" and "inv s L"
  shows "inv s' L' \<and> (\<forall>i v. c' i = Some v \<longrightarrow> (\<exists>x\<in>L'. i \<in> bytes x) \<and> byte s' (word_of_nat i) = v)"
  using assms(1)
proof (induction "(s', L', c')" arbitrary: s' L' c' rule: rtranclp_induct)
  case base
  then show ?case
    using assms(2) by simp
next
  case (step y)
  obtain s1 L1 c1 where y: "y = (s1, L1, c1)"
    by (cases y)
  show ?case
    using step(3) [OF y] written_step [OF step(2) [unfolded y], unfolded kept_def] by blast
qed

text \<open>No request of such a client panics or hangs.\<close>

lemma requests_succeed:
  assumes "(client_step alloc dealloc put ok bytes)\<^sup>*\<^sup>* (s, L, Map.empty) (s', L', c')" and "inv s L"
  shows "ok q \<Longrightarrow> \<exists>r s''. alloc q s' = Ret r s''"
    and "x \<in> L' \<Longrightarrow> \<exists>s''. dealloc x s' = Ret () s''"
  using written_kept [OF assms] alloc [of s' L' q] dealloc [of s' L' x] by blast+

lemma blocks_kept_apart:
  assumes "(client_step alloc dealloc put ok bytes)\<^sup>*\<^sup>* (s, L, Map.empty) (s', L', c')" and "inv s L"
    and "x \<in> L'" and "y \<in> L'" and "x \<noteq> y"
  shows "bytes x \<inter> bytes y = {}"
  using written_kept [OF assms(1,2)] apart [OF _ assms(3-5)] by blast

end

text \<open>A client's write into the memory of the machine.\<close>

definition poke :: "usize \<Rightarrow> u8 \<Rightarrow> 'x machine_scheme \<Rightarrow> 'x machine_scheme" where
  "poke p v s = s\<lparr>mem := (mem s)(p := v)\<rparr>"

lemma poke_byte: "mem (poke p v s) q = (if q = p then v else mem s q)"
  by (simp add: poke_def)

end
