(* ===== verification/AllocatorClient.thy ===== *)
theory AllocatorClient
  imports LinkedListAllocator BlockContract
begin

text \<open>
  Both interfaces of \<^verbatim>\<open>LockedHeap\<close> (\<^verbatim>\<open>GlobalAlloc\<close> and \<^verbatim>\<open>Allocator\<close>) keep the contract of a block
  allocator: a request is a layout, a block its address and its layout.
\<close>

section \<open>The heap keeps the contract\<close>

text \<open>The bytes of a block that belong to the client.\<close>

definition user_bytes :: "nat \<times> Layout \<Rightarrow> nat set" where
  "user_bytes x = {fst x..<fst x + unat (lsize (snd x))}"

text \<open>The calls of a client: \<^verbatim>\<open>alloc\<close> reports failure as the null pointer.\<close>

definition heap_request :: "profile \<Rightarrow> Layout \<Rightarrow> ('x heap_state_scheme, (nat \<times> Layout) option) prog" where
  "heap_request b l = bind (LockedHeap_alloc b l) (\<lambda>p. ret (if p = 0 then None else Some (unat p, l)))"

definition heap_return :: "profile \<Rightarrow> nat \<times> Layout \<Rightarrow> ('x heap_state_scheme, unit) prog" where
  "heap_return b x = LockedHeap_dealloc b (word_of_nat (fst x)) (snd x)"

definition heap_owns :: "nat \<Rightarrow> nat \<Rightarrow> 'x heap_state_scheme \<Rightarrow> ledger \<Rightarrow> bool" where
  "heap_owns lo hi s L \<longleftrightarrow> (\<exists>hs. heap_rep s lo hi hs L)"

lemma user_bytes_block: "user_bytes x \<subseteq> block_bytes x"
  using block_size_props [of "snd x"] by (auto simp: user_bytes_def block_bytes_def)

lemma ledger_user_bytes:
  assumes "heap_rep s lo hi hs L" and "x \<in> L" and "i \<in> user_bytes x"
  shows "i \<in> ledger_bytes L" "i \<notin> free_bytes hs" "i < 2 ^ 32"
proof -
  show i: "i \<in> ledger_bytes L"
    using assms(2,3) user_bytes_block [of x] by (auto simp: ledger_bytes_def)
  then have "i \<in> {lo..<hi} - free_bytes hs"
    using heap_repD(2) [OF assms(1)] by (simp add: ledger_ok_def)
  then show "i \<notin> free_bytes hs" "i < 2 ^ 32"
    using heap_repD(6) [OF assms(1)] by auto
qed

lemma heap_owns_block:
  assumes "heap_owns lo hi s L" and "(a, l) \<in> L"
  shows "0 < a \<and> unat (lalign l) dvd a \<and> a + unat (lsize l) < 2 ^ 32"
proof -
  obtain hs where rep: "heap_rep s lo hi hs L"
    using assms(1) by (auto simp: heap_owns_def)
  have "freeable lo hi hs a (block_size l)" "unat (lalign l) dvd a"
    using ledger_block [OF heap_repD(2) [OF rep] assms(2)] by auto
  then show ?thesis
    using heap_repD(6,7) [OF rep] block_size_props [of l] by (auto simp: freeable_def)
qed

lemma heap_owns_apart:
  assumes "heap_owns lo hi s L" and "x \<in> L" and "y \<in> L" and "x \<noteq> y"
  shows "user_bytes x \<inter> user_bytes y = {}"
proof -
  have "block_bytes x \<inter> block_bytes y = {}"
    using assms unfolding heap_owns_def heap_rep_def ledger_ok_def by blast
  then show ?thesis
    using user_bytes_block [of x] user_bytes_block [of y] by blast
qed

lemma heap_owns_poke:
  assumes "heap_owns lo hi s L" and "x \<in> L" and "i \<in> user_bytes x"
  shows "heap_owns lo hi (poke (word_of_nat i) v s) L"
proof -
  obtain hs where rep: "heap_rep s lo hi hs L"
    using assms(1) by (auto simp: heap_owns_def)
  have "same_outside {i} (mem s) (mem (poke (word_of_nat i) v s))"
    using ledger_user_bytes(3) [OF rep assms(2,3)] by (auto simp: same_outside_def poke_def)
  then have "list_rep (poke (word_of_nat i) v s) lo hi hs"
    by (rule list_rep_frame [OF heap_repD(1) [OF rep]])
      (use ledger_user_bytes(2) [OF rep assms(2,3)] in \<open>simp_all add: poke_def\<close>)
  then show ?thesis
    using rep by (auto simp: heap_owns_def heap_rep_def poke_def)
qed

lemma heap_owns_alloc:
  assumes "heap_owns lo hi s L" and l: "layout_ok l"
  shows "\<exists>p s'. LockedHeap_alloc b l s = Ret p s' \<and>
      heap_owns lo hi s' (if p = 0 then L else insert (unat p, l) L) \<and>
      (p \<noteq> 0 \<longrightarrow> (\<forall>x\<in>L. user_bytes x \<inter> user_bytes (unat p, l) = {})) \<and>
      (\<forall>x\<in>L. \<forall>i\<in>user_bytes x. mem s' (word_of_nat i) = mem s (word_of_nat i))"
proof -
  obtain hs where rep: "heap_rep s lo hi hs L"
    using assms(1) by (auto simp: heap_owns_def)
  note h = heap_repD [OF rep]
  obtain s' where run: "Heap_allocate_first_fit b l s = Ret (alloc_address l hs) s'"
    and rep': "heap_rep s' lo hi (alloc_holes l hs) (alloc_ledger l hs L)"
    and out: "same_outside (free_bytes hs) (mem s) (mem s')"
    using Heap_allocate_run [OF rep l, of b] by blast
  have keep: "\<forall>x\<in>L. \<forall>i\<in>user_bytes x. mem s' (word_of_nat i) = mem s (word_of_nat i)"
    using ledger_user_bytes [OF rep] out by (auto simp: same_outside_def)
  show ?thesis
  proof (cases "list_alloc l hs")
    case None
    then show ?thesis
      using run rep' keep
      by (auto simp: LockedHeap_alloc_def bind_def alloc_address_def alloc_ledger_def heap_owns_def run_simps)
  next
    case (Some r)
    obtain p hs' where p: "list_alloc l hs = Some (p, hs')"
      using Some by (cases r) auto
    note new = ledger_alloc [OF h(2,4) l p]
    have "p \<in> free_bytes hs"
      using new(2) block_size_props [of l] by (auto simp: block_bytes_def)
    then have pos: "0 < p" "p < 2 ^ 32"
      using free_bytes_lower [OF h(4)] free_bytes_upper [OF h(4)] h(6,7) by force+
    have "user_bytes x \<inter> user_bytes (p, l) = {}" if "x \<in> L" for x
      using new(3) that user_bytes_block [of x] user_bytes_block [of "(p, l)"] by (fastforce simp: ledger_bytes_def)
    then show ?thesis
      using run rep' keep pos
      by (auto simp: LockedHeap_alloc_def bind_def alloc_address_def alloc_ledger_def heap_owns_def p run_simps)
  qed
qed

lemma heap_owns_dealloc:
  assumes "heap_owns lo hi s L" and al: "(a, l) \<in> L"
  shows "\<exists>s'. LockedHeap_dealloc b (word_of_nat a) l s = Ret () s' \<and> heap_owns lo hi s' (L - {(a, l)}) \<and>
      (\<forall>x\<in>L - {(a, l)}. \<forall>i\<in>user_bytes x. mem s' (word_of_nat i) = mem s (word_of_nat i))"
proof -
  obtain hs where rep: "heap_rep s lo hi hs L"
    using assms(1) by (auto simp: heap_owns_def)
  obtain s' where run: "Heap_deallocate b (word_of_nat a) l s = Ret () s'"
    and rep': "heap_rep s' lo hi (insert_hole (a, block_size l) hs) (L - {(a, l)})"
    and out: "same_outside (free_bytes hs \<union> block_bytes (a, l)) (mem s) (mem s')"
    using Heap_deallocate_run [OF rep al, of b] by blast
  have "mem s' (word_of_nat i) = mem s (word_of_nat i)" if x: "x \<in> L - {(a, l)}" and i: "i \<in> user_bytes x" for x i
  proof -
    have "i \<in> ledger_bytes (L - {(a, l)})"
      using x i user_bytes_block [of x] by (auto simp: ledger_bytes_def)
    then have "i \<notin> block_bytes (a, l)"
      using ledger_free(2) [OF heap_repD(2,4) [OF rep] al] by blast
    then show ?thesis
      using out ledger_user_bytes [OF rep _ i] x by (auto simp: same_outside_def)
  qed
  then show ?thesis
    using run rep' by (auto simp: LockedHeap_dealloc_def heap_owns_def)
qed

lemma heap_request_run:
  assumes "heap_owns lo hi s L" and "layout_ok l"
  shows "\<exists>r s'. heap_request b l s = Ret r s' \<and> heap_owns lo hi s' (case r of None \<Rightarrow> L | Some x \<Rightarrow> insert x L) \<and>
    (\<forall>x\<in>L. \<forall>i\<in>user_bytes x. mem s' (word_of_nat i) = mem s (word_of_nat i))"
proof -
  obtain p s' where "LockedHeap_alloc b l s = Ret p s'" "heap_owns lo hi s' (if p = 0 then L else insert (unat p, l) L)"
    "\<forall>x\<in>L. \<forall>i\<in>user_bytes x. mem s' (word_of_nat i) = mem s (word_of_nat i)"
    using heap_owns_alloc [OF assms, of b] by blast
  then show ?thesis
    by (cases "p = 0") (auto simp: heap_request_def bind_def run_simps)
qed

lemma heap_owns_bytes: "heap_owns lo hi s L \<Longrightarrow> x \<in> L \<Longrightarrow> user_bytes x \<subseteq> {0<..<2 ^ 32}"
  using heap_owns_block [of lo hi s L "fst x" "snd x"] by (auto simp: user_bytes_def)

lemma heap_return_run:
  assumes "heap_owns lo hi s L" and "x \<in> L"
  shows "\<exists>s'. heap_return b x s = Ret () s' \<and> heap_owns lo hi s' (L - {x}) \<and>
    (\<forall>y\<in>L - {x}. \<forall>i\<in>user_bytes y. mem s' (word_of_nat i) = mem s (word_of_nat i))"
  using heap_owns_dealloc [of lo hi s L "fst x" "snd x" b] assms by (simp add: heap_return_def)

interpretation global_heap: block_allocator "heap_request b" "heap_return b" mem poke layout_ok user_bytes "heap_owns lo hi"
  for b lo hi
  by unfold_locales
    ((rule heap_owns_bytes heap_owns_apart heap_request_run heap_return_run heap_owns_poke; assumption)+,
      rule poke_byte)

text \<open>
  The \<^verbatim>\<open>Allocator\<close> interface, with its slices reduced to their addresses: an empty layout costs no
  memory and gets the dangling address of its alignment.
\<close>

definition slice_address :: "(AllocError + usize \<times> usize) \<Rightarrow> usize" where
  "slice_address r = (case r of Inl _ \<Rightarrow> 0 | Inr r \<Rightarrow> fst r)"

definition allocate_address :: "profile \<Rightarrow> Layout \<Rightarrow> ('x heap_state_scheme, usize) prog" where
  "allocate_address b l = bind (LockedHeap_allocate b l) (\<lambda>r. ret (slice_address r))"

definition sized :: "ledger \<Rightarrow> ledger" where
  "sized L = {x \<in> L. lsize (snd x) \<noteq> 0}"

definition heap_lends :: "nat \<Rightarrow> nat \<Rightarrow> 'x heap_state_scheme \<Rightarrow> ledger \<Rightarrow> bool" where
  "heap_lends lo hi s L \<longleftrightarrow> heap_owns lo hi s (sized L) \<and>
     (\<forall>x\<in>L. lsize (snd x) = 0 \<longrightarrow> layout_ok (snd x) \<and> fst x = unat (lalign (snd x)))"

lemma user_bytes_empty: "lsize (snd x) = 0 \<Longrightarrow> user_bytes x = {}"
  by (simp add: user_bytes_def)

lemma heap_lends_block:
  assumes "heap_lends lo hi s L" and "(a, l) \<in> L"
  shows "0 < a \<and> unat (lalign l) dvd a \<and> a + unat (lsize l) < 2 ^ 32"
proof (cases "lsize l = 0")
  case True
  then have "layout_ok l" "a = unat (lalign l)"
    using assms by (auto simp: heap_lends_def)
  then show ?thesis
    using True is_power_of_two_pos [of "lalign l"] is_power_of_two_le [of "lalign l"] by (auto simp: layout_ok_def)
next
  case False
  then show ?thesis
    using assms heap_owns_block [of lo hi s "sized L" a l] by (auto simp: heap_lends_def sized_def)
qed

lemma heap_lends_apart:
  assumes "heap_lends lo hi s L" and "x \<in> L" and "y \<in> L" and "x \<noteq> y"
  shows "user_bytes x \<inter> user_bytes y = {}"
proof (cases "x \<in> sized L \<and> y \<in> sized L")
  case True
  then show ?thesis
    using assms(1,4) heap_owns_apart [of lo hi s "sized L" x y] by (simp add: heap_lends_def)
next
  case False
  then show ?thesis
    using assms(2,3) by (auto simp: sized_def user_bytes_empty)
qed

lemma allocate_address_sized:
  assumes "lsize l \<noteq> 0"
  shows "allocate_address b l = LockedHeap_alloc b l"
  by (simp add: allocate_address_def LockedHeap_allocate_def LockedHeap_alloc_def assms slice_address_def fun_eq_iff
      bind_def ret_apply split: option.split sum.split)

lemma heap_lends_alloc:
  assumes "heap_lends lo hi s L" and l: "layout_ok l"
  shows "\<exists>p s'. allocate_address b l s = Ret p s' \<and>
      heap_lends lo hi s' (if p = 0 then L else insert (unat p, l) L) \<and>
      (p \<noteq> 0 \<longrightarrow> (\<forall>x\<in>L. user_bytes x \<inter> user_bytes (unat p, l) = {})) \<and>
      (\<forall>x\<in>L. \<forall>i\<in>user_bytes x. mem s' (word_of_nat i) = mem s (word_of_nat i))"
proof (cases "lsize l = 0")
  case True
  moreover have "lalign l \<noteq> 0"
    using l is_power_of_two_pos [of "lalign l"] by (auto simp: layout_ok_def)
  moreover have "sized (insert (unat (lalign l), l) L) = sized L"
    using True by (auto simp: sized_def)
  ultimately show ?thesis
    using assms by (auto simp: allocate_address_def LockedHeap_allocate_def slice_address_def run_simps heap_lends_def
        user_bytes_empty)
next
  case False
  have lent: "heap_owns lo hi s (sized L)"
    using assms(1) by (simp add: heap_lends_def)
  have sz: "sized (insert (a, l) L) = insert (a, l) (sized L)" for a
    using False by (auto simp: sized_def)
  obtain p s' where run: "LockedHeap_alloc b l s = Ret p s'"
    and own: "heap_owns lo hi s' (if p = 0 then sized L else insert (unat p, l) (sized L))"
    and rest: "p \<noteq> 0 \<longrightarrow> (\<forall>x\<in>sized L. user_bytes x \<inter> user_bytes (unat p, l) = {})"
      "\<forall>x\<in>sized L. \<forall>i\<in>user_bytes x. mem s' (word_of_nat i) = mem s (word_of_nat i)"
    using heap_owns_alloc [OF lent l, of b] by blast
  have "heap_lends lo hi s' (if p = 0 then L else insert (unat p, l) L)"
    using own assms(1) False by (auto simp: heap_lends_def sz)
  moreover have "user_bytes x = {}" if "x \<in> L" "x \<notin> sized L" for x
    using that by (auto simp: sized_def user_bytes_empty)
  ultimately show ?thesis
    using run rest unfolding allocate_address_sized [OF False]
    by (intro exI [of _ p] exI [of _ s']) fast
qed

lemma heap_lends_dealloc:
  assumes "heap_lends lo hi s L" and al: "(a, l) \<in> L"
  shows "\<exists>s'. LockedHeap_deallocate b (word_of_nat a) l s = Ret () s' \<and> heap_lends lo hi s' (L - {(a, l)}) \<and>
      (\<forall>x\<in>L - {(a, l)}. \<forall>i\<in>user_bytes x. mem s' (word_of_nat i) = mem s (word_of_nat i))"
proof -
  have sz: "sized (L - {(a, l)}) = sized L - {(a, l)}"
    by (auto simp: sized_def)
  have lent: "heap_owns lo hi s (sized L)"
    using assms(1) by (simp add: heap_lends_def)
  show ?thesis
  proof (cases "lsize l = 0")
    case True
    then have "sized L - {(a, l)} = sized L"
      by (auto simp: sized_def)
    then show ?thesis
      using True assms(1) by (simp add: LockedHeap_deallocate_def heap_lends_def sz run_simps)
  next
    case False
    then have "(a, l) \<in> sized L"
      using al by (simp add: sized_def)
    then obtain s' where "LockedHeap_dealloc b (word_of_nat a) l s = Ret () s'" "heap_owns lo hi s' (sized L - {(a, l)})"
      and "\<forall>x\<in>sized L - {(a, l)}. \<forall>i\<in>user_bytes x. mem s' (word_of_nat i) = mem s (word_of_nat i)"
      using heap_owns_dealloc [OF lent, of a l b] by blast
    moreover have "user_bytes x = {}" if "x \<in> L" "x \<notin> sized L" for x
      using that by (auto simp: sized_def user_bytes_empty)
    ultimately show ?thesis
      using False assms(1)
      by (auto simp: LockedHeap_deallocate_def LockedHeap_dealloc_def heap_lends_def sz)
  qed
qed

lemma heap_lends_poke:
  assumes "heap_lends lo hi s L" and "x \<in> L" and "i \<in> user_bytes x"
  shows "heap_lends lo hi (poke (word_of_nat i) v s) L"
proof -
  have "x \<in> sized L"
    using assms(2,3) by (auto simp: sized_def user_bytes_empty)
  then show ?thesis
    using assms heap_owns_poke [of lo hi s "sized L" x i v] by (simp add: heap_lends_def)
qed

definition slice_request :: "profile \<Rightarrow> Layout \<Rightarrow> ('x heap_state_scheme, (nat \<times> Layout) option) prog" where
  "slice_request b l = bind (allocate_address b l) (\<lambda>p. ret (if p = 0 then None else Some (unat p, l)))"

definition slice_return :: "profile \<Rightarrow> nat \<times> Layout \<Rightarrow> ('x heap_state_scheme, unit) prog" where
  "slice_return b x = LockedHeap_deallocate b (word_of_nat (fst x)) (snd x)"

lemma slice_request_run:
  assumes "heap_lends lo hi s L" and "layout_ok l"
  shows "\<exists>r s'. slice_request b l s = Ret r s' \<and> heap_lends lo hi s' (case r of None \<Rightarrow> L | Some x \<Rightarrow> insert x L) \<and>
    (\<forall>x\<in>L. \<forall>i\<in>user_bytes x. mem s' (word_of_nat i) = mem s (word_of_nat i))"
proof -
  obtain p s' where "allocate_address b l s = Ret p s'" "heap_lends lo hi s' (if p = 0 then L else insert (unat p, l) L)"
    "\<forall>x\<in>L. \<forall>i\<in>user_bytes x. mem s' (word_of_nat i) = mem s (word_of_nat i)"
    using heap_lends_alloc [OF assms, of b] by blast
  then show ?thesis
    by (cases "p = 0") (auto simp: slice_request_def bind_def run_simps)
qed

lemma heap_lends_bytes: "heap_lends lo hi s L \<Longrightarrow> x \<in> L \<Longrightarrow> user_bytes x \<subseteq> {0<..<2 ^ 32}"
  using heap_lends_block [of lo hi s L "fst x" "snd x"] by (auto simp: user_bytes_def)

lemma slice_return_run:
  assumes "heap_lends lo hi s L" and "x \<in> L"
  shows "\<exists>s'. slice_return b x s = Ret () s' \<and> heap_lends lo hi s' (L - {x}) \<and>
    (\<forall>y\<in>L - {x}. \<forall>i\<in>user_bytes y. mem s' (word_of_nat i) = mem s (word_of_nat i))"
  using heap_lends_dealloc [of lo hi s L "fst x" "snd x" b] assms by (simp add: slice_return_def)

interpretation lent_heap: block_allocator "slice_request b" "slice_return b" mem poke layout_ok user_bytes "heap_lends lo hi"
  for b lo hi
  by unfold_locales
    ((rule heap_lends_bytes heap_lends_apart slice_request_run slice_return_run heap_lends_poke; assumption)+,
      rule poke_byte)

end
