(* ===== verification/Mutex.thy ===== *)
theory Mutex
  imports Prelude
begin

text \<open>
  \<^verbatim>\<open>rust/src/mutex.rs\<close>: a lock flag and the value it guards. A mutex lives in a static, so it is
  a field of the state, given by its selector and its update function; the laws of such a field are
  the locale \<open>state_field\<close>. Taking a lock that is taken spins for ever, since nothing else runs. A
  guard releases the lock where it goes out of scope, \<open>with_lock\<close>; a panic does not unwind.
\<close>

record 'a Mutex =
  mx_lock :: bool
  mx_cell :: 'a

definition Mutex_new :: "'a \<Rightarrow> 'a Mutex" where
  "Mutex_new value = \<lparr>mx_lock = False, mx_cell = value\<rparr>"

definition Mutex_lock :: "('s \<Rightarrow> 'a Mutex) \<Rightarrow> (('a Mutex \<Rightarrow> 'a Mutex) \<Rightarrow> 's \<Rightarrow> 's) \<Rightarrow> ('s, unit) prog" where
  "Mutex_lock get upd =
     bind (gets (\<lambda>s. mx_lock (get s))) (\<lambda>taken.
     if taken then hang else modify (upd (\<lambda>m. m\<lparr>mx_lock := True\<rparr>)))"

definition Mutex_unlock :: "(('a Mutex \<Rightarrow> 'a Mutex) \<Rightarrow> 's \<Rightarrow> 's) \<Rightarrow> ('s, unit) prog" where
  "Mutex_unlock upd = modify (upd (\<lambda>m. m\<lparr>mx_lock := False\<rparr>))"

text \<open>\<^verbatim>\<open>Deref\<close> and \<^verbatim>\<open>DerefMut\<close> of the guard give the cell; its \<^verbatim>\<open>Drop\<close> releases the lock.\<close>

definition MutexGuard_deref :: "('s \<Rightarrow> 'a Mutex) \<Rightarrow> ('s, 'a) prog" where
  "MutexGuard_deref get = gets (\<lambda>s. mx_cell (get s))"

definition MutexGuard_deref_mut :: "(('a Mutex \<Rightarrow> 'a Mutex) \<Rightarrow> 's \<Rightarrow> 's) \<Rightarrow> ('a \<Rightarrow> 'a) \<Rightarrow> ('s, unit) prog" where
  "MutexGuard_deref_mut upd f = modify (upd (\<lambda>m. m\<lparr>mx_cell := f (mx_cell m)\<rparr>))"

definition MutexGuard_drop :: "(('a Mutex \<Rightarrow> 'a Mutex) \<Rightarrow> 's \<Rightarrow> 's) \<Rightarrow> ('s, unit) prog" where
  "MutexGuard_drop upd = Mutex_unlock upd"

definition with_lock :: "('s \<Rightarrow> 'a Mutex) \<Rightarrow> (('a Mutex \<Rightarrow> 'a Mutex) \<Rightarrow> 's \<Rightarrow> 's) \<Rightarrow> ('s, 'b) prog \<Rightarrow> ('s, 'b) prog" where
  "with_lock get upd body =
     bind (Mutex_lock get upd) (\<lambda>_. bind body (\<lambda>x. bind (MutexGuard_drop upd) (\<lambda>_. ret x)))"

section \<open>What a lock guarantees\<close>

lemma unlocked_same [simp]: "\<not> mx_lock m \<Longrightarrow> m\<lparr>mx_lock := False\<rparr> = m"
  by (cases m) simp

locale state_field =
  fixes get :: "'s \<Rightarrow> 'f" and upd :: "('f \<Rightarrow> 'f) \<Rightarrow> 's \<Rightarrow> 's"
  assumes get_upd: "get (upd f s) = f (get s)"
    and upd_upd: "upd f (upd g s) = upd (f \<circ> g) s"
    and upd_same: "f (get s) = get s \<Longrightarrow> upd f s = s"

locale static_mutex = state_field get upd
  for get :: "'s \<Rightarrow> 'a Mutex" and upd :: "('a Mutex \<Rightarrow> 'a Mutex) \<Rightarrow> 's \<Rightarrow> 's"
begin

lemma lock_free: "\<not> mx_lock (get s) \<Longrightarrow> Mutex_lock get upd s = Ret () (upd (\<lambda>m. m\<lparr>mx_lock := True\<rparr>) s)"
  by (simp add: Mutex_lock_def run_simps)

lemma lock_taken: "mx_lock (get s) \<Longrightarrow> Mutex_lock get upd s = Hangs"
  by (simp add: Mutex_lock_def hang_def)

lemma lock_excludes: "Mutex_lock get upd s = Ret () s' \<Longrightarrow> Mutex_lock get upd s' = Hangs"
  by (auto simp: Mutex_lock_def hang_def run_simps get_upd split: if_splits)

lemma unlock_lock: "Mutex_lock get upd s = Ret () s' \<Longrightarrow> Mutex_unlock upd s' = Ret () s"
  by (auto simp: Mutex_lock_def Mutex_unlock_def hang_def run_simps upd_upd o_def upd_same split: if_splits)

text \<open>A section that returns leaves the lock free, so the next one can start.\<close>

lemma section_releases: "with_lock get upd body s = Ret x s' \<Longrightarrow> \<not> mx_lock (get s')"
  by (auto simp: with_lock_def bind_def MutexGuard_drop_def Mutex_unlock_def run_simps get_upd
      split: option.splits sum.splits)

text \<open>A section inside a section of the same lock never returns.\<close>

lemma section_nested: "with_lock get upd (bind (with_lock get upd body) g) s = Hangs"
proof (cases "mx_lock (get s)")
  case True
  then show ?thesis
    by (simp add: with_lock_def bind_def lock_taken)
next
  case False
  then have "mx_lock (get (upd (\<lambda>m. m\<lparr>mx_lock := True\<rparr>) s))"
    by (simp add: get_upd)
  then show ?thesis
    using False by (simp add: with_lock_def bind_def lock_free lock_taken)
qed

lemma section_run:
  assumes "\<not> mx_lock (get s)" and "body (upd (\<lambda>m. m\<lparr>mx_lock := True\<rparr>) s) = Ret x s'"
  shows "with_lock get upd body s = Ret x (upd (\<lambda>m. m\<lparr>mx_lock := False\<rparr>) s')"
  using assms by (simp add: with_lock_def bind_def lock_free MutexGuard_drop_def Mutex_unlock_def run_simps)

end

end
