(* ===== verification/Pointer.thy ===== *)
theory Pointer
  imports Prelude
begin

text \<open>
  The address types of \<^verbatim>\<open>rust/src/pointer.rs\<close> and the constants of \<^verbatim>\<open>rust/src/constant.rs\<close>:
  physical addresses, virtual addresses and physical page numbers as newtypes of \<^verbatim>\<open>usize\<close>, their
  page and offset parts, the page-table indices of a virtual address, their arithmetic (checked in
  a development build) and the references and slices made from them. A reference is the address it
  points at; a slice is its base address and its number of elements.
\<close>

definition KALLOC_SIZE :: usize where
  "KALLOC_SIZE = 30 * 1024 * 1024"

definition PAGE_SIZE :: usize where
  "PAGE_SIZE = 4096"

definition MEMORY_SIZE :: usize where
  "MEMORY_SIZE = 0x80000000 + 32 * 1024 * 1024"

definition UART_BASE :: usize where
  "UART_BASE = 0x10000000"

datatype PhysAddr = PhysAddr usize
datatype VirtAddr = VirtAddr usize
datatype PhyPageNum = PhyPageNum usize

record slice =
  slice_base :: usize
  slice_len :: usize

section \<open>Conversions\<close>

primrec PhysAddr_into_usize :: "PhysAddr \<Rightarrow> usize" where
  "PhysAddr_into_usize (PhysAddr a) = a"

primrec VirtAddr_into_usize :: "VirtAddr \<Rightarrow> usize" where
  "VirtAddr_into_usize (VirtAddr a) = a"

primrec PhyPageNum_into_usize :: "PhyPageNum \<Rightarrow> usize" where
  "PhyPageNum_into_usize (PhyPageNum n) = n"

definition PhysAddr_from_usize :: "usize \<Rightarrow> PhysAddr" where
  "PhysAddr_from_usize ptr = PhysAddr ptr"

definition VirtAddr_from_usize :: "usize \<Rightarrow> VirtAddr" where
  "VirtAddr_from_usize ptr = VirtAddr ptr"

definition PhyPageNum_from_usize :: "usize \<Rightarrow> PhyPageNum" where
  "PhyPageNum_from_usize ptr = PhyPageNum ptr"

primrec PhysAddr_from_ppn :: "profile \<Rightarrow> PhyPageNum \<Rightarrow> ('s, PhysAddr) prog" where
  "PhysAddr_from_ppn b (PhyPageNum n) = bind (usize_mul b n PAGE_SIZE) (\<lambda>a. ret (PhysAddr a))"

section \<open>Page numbers, offsets and page-table indices\<close>

primrec PhysAddr_ppn :: "PhysAddr \<Rightarrow> PhyPageNum" where
  "PhysAddr_ppn (PhysAddr a) = PhyPageNum (a div PAGE_SIZE)"

primrec PhysAddr_offset :: "PhysAddr \<Rightarrow> usize" where
  "PhysAddr_offset (PhysAddr a) = a mod PAGE_SIZE"

primrec VirtAddr_ppn :: "VirtAddr \<Rightarrow> PhyPageNum" where
  "VirtAddr_ppn (VirtAddr a) = PhyPageNum (a div PAGE_SIZE)"

primrec VirtAddr_offset :: "VirtAddr \<Rightarrow> usize" where
  "VirtAddr_offset (VirtAddr a) = a mod PAGE_SIZE"

primrec VirtAddr_vpn :: "VirtAddr \<Rightarrow> nat \<Rightarrow> ('s, usize) prog" where
  "VirtAddr_vpn (VirtAddr a) level =
     (if level = 0 then ret (drop_bit 12 a AND (push_bit 9 1 - 1))
      else if level = 1 then ret (drop_bit 21 a AND (push_bit 9 1 - 1))
      else if level = 2 then ret (drop_bit 30 a AND (push_bit 9 1 - 1))
      else panic (ExplicitPanic ''explicit panic''))"

section \<open>Arithmetic\<close>

primrec PhysAddr_add :: "profile \<Rightarrow> PhysAddr \<Rightarrow> usize \<Rightarrow> ('s, PhysAddr) prog" where
  "PhysAddr_add b (PhysAddr a) rhs = bind (usize_add b a rhs) (\<lambda>r. ret (PhysAddr r))"

primrec VirtAddr_add :: "profile \<Rightarrow> VirtAddr \<Rightarrow> usize \<Rightarrow> ('s, VirtAddr) prog" where
  "VirtAddr_add b (VirtAddr a) rhs = bind (usize_add b a rhs) (\<lambda>r. ret (VirtAddr r))"

primrec PhyPageNum_add :: "profile \<Rightarrow> PhyPageNum \<Rightarrow> usize \<Rightarrow> ('s, PhyPageNum) prog" where
  "PhyPageNum_add b (PhyPageNum a) rhs = bind (usize_add b a rhs) (\<lambda>r. ret (PhyPageNum r))"

primrec PhysAddr_sub :: "profile \<Rightarrow> PhysAddr \<Rightarrow> usize \<Rightarrow> ('s, PhysAddr) prog" where
  "PhysAddr_sub b (PhysAddr a) rhs = bind (usize_sub b a rhs) (\<lambda>r. ret (PhysAddr r))"

primrec VirtAddr_sub :: "profile \<Rightarrow> VirtAddr \<Rightarrow> usize \<Rightarrow> ('s, VirtAddr) prog" where
  "VirtAddr_sub b (VirtAddr a) rhs = bind (usize_sub b a rhs) (\<lambda>r. ret (VirtAddr r))"

primrec PhyPageNum_sub :: "profile \<Rightarrow> PhyPageNum \<Rightarrow> usize \<Rightarrow> ('s, PhyPageNum) prog" where
  "PhyPageNum_sub b (PhyPageNum a) rhs = bind (usize_sub b a rhs) (\<lambda>r. ret (PhyPageNum r))"

text \<open>\<^verbatim>\<open>+=\<close> and \<^verbatim>\<open>-=\<close> return the value the receiver is overwritten with.\<close>

definition PhysAddr_add_assign :: "profile \<Rightarrow> PhysAddr \<Rightarrow> usize \<Rightarrow> ('s, PhysAddr) prog" where
  "PhysAddr_add_assign b self rhs = PhysAddr_add b self rhs"

definition VirtAddr_add_assign :: "profile \<Rightarrow> VirtAddr \<Rightarrow> usize \<Rightarrow> ('s, VirtAddr) prog" where
  "VirtAddr_add_assign b self rhs = VirtAddr_add b self rhs"

definition PhyPageNum_add_assign :: "profile \<Rightarrow> PhyPageNum \<Rightarrow> usize \<Rightarrow> ('s, PhyPageNum) prog" where
  "PhyPageNum_add_assign b self rhs = PhyPageNum_add b self rhs"

definition PhysAddr_sub_assign :: "profile \<Rightarrow> PhysAddr \<Rightarrow> usize \<Rightarrow> ('s, PhysAddr) prog" where
  "PhysAddr_sub_assign b self rhs = PhysAddr_sub b self rhs"

definition VirtAddr_sub_assign :: "profile \<Rightarrow> VirtAddr \<Rightarrow> usize \<Rightarrow> ('s, VirtAddr) prog" where
  "VirtAddr_sub_assign b self rhs = VirtAddr_sub b self rhs"

definition PhyPageNum_sub_assign :: "profile \<Rightarrow> PhyPageNum \<Rightarrow> usize \<Rightarrow> ('s, PhyPageNum) prog" where
  "PhyPageNum_sub_assign b self rhs = PhyPageNum_sub b self rhs"

section \<open>References and slices\<close>

text \<open>
  \<^verbatim>\<open>as_ref\<close> and \<^verbatim>\<open>as_mut\<close> unwrap the reference a raw pointer converts to, so the null address
  panics. The slices are views of memory of a given number of elements; reading one at an index
  outside its length panics.
\<close>

primrec PhysAddr_as_ref :: "PhysAddr \<Rightarrow> ('s, usize) prog" where
  "PhysAddr_as_ref (PhysAddr a) = unwrap_option (if a = 0 then None else Some a)"

primrec PhysAddr_as_mut :: "PhysAddr \<Rightarrow> ('s, usize) prog" where
  "PhysAddr_as_mut (PhysAddr a) = unwrap_option (if a = 0 then None else Some a)"

primrec VirtAddr_as_ref :: "VirtAddr \<Rightarrow> ('s, usize) prog" where
  "VirtAddr_as_ref (VirtAddr a) = unwrap_option (if a = 0 then None else Some a)"

primrec VirtAddr_as_mut :: "VirtAddr \<Rightarrow> ('s, usize) prog" where
  "VirtAddr_as_mut (VirtAddr a) = unwrap_option (if a = 0 then None else Some a)"

primrec PhysAddr_as_slice :: "PhysAddr \<Rightarrow> usize \<Rightarrow> slice" where
  "PhysAddr_as_slice (PhysAddr a) n = \<lparr>slice_base = a, slice_len = n\<rparr>"

primrec PhysAddr_as_slice_mut :: "PhysAddr \<Rightarrow> usize \<Rightarrow> slice" where
  "PhysAddr_as_slice_mut (PhysAddr a) n = \<lparr>slice_base = a, slice_len = n\<rparr>"

definition size_of_u8 :: usize where
  "size_of_u8 = 1"

text \<open>\<^verbatim>\<open>size_of::<vm::Entry>()\<close>: an entry is one \<^verbatim>\<open>usize\<close>.\<close>

definition size_of_Entry :: usize where
  "size_of_Entry = 4"

primrec PhyPageNum_as_bytes :: "profile \<Rightarrow> PhyPageNum \<Rightarrow> ('s, slice) prog" where
  "PhyPageNum_as_bytes b (PhyPageNum n) = bind (usize_mul b n PAGE_SIZE)
     (\<lambda>a. ret \<lparr>slice_base = a, slice_len = PAGE_SIZE div size_of_u8\<rparr>)"

primrec PhyPageNum_as_bytes_mut :: "profile \<Rightarrow> PhyPageNum \<Rightarrow> ('s, slice) prog" where
  "PhyPageNum_as_bytes_mut b (PhyPageNum n) = bind (usize_mul b n PAGE_SIZE)
     (\<lambda>a. ret \<lparr>slice_base = a, slice_len = PAGE_SIZE div size_of_u8\<rparr>)"

primrec PhyPageNum_as_pte :: "profile \<Rightarrow> PhyPageNum \<Rightarrow> ('s, slice) prog" where
  "PhyPageNum_as_pte b (PhyPageNum n) = bind (usize_mul b n PAGE_SIZE)
     (\<lambda>a. ret \<lparr>slice_base = a, slice_len = PAGE_SIZE div size_of_Entry\<rparr>)"

primrec PhyPageNum_as_pte_mut :: "profile \<Rightarrow> PhyPageNum \<Rightarrow> ('s, slice) prog" where
  "PhyPageNum_as_pte_mut b (PhyPageNum n) = bind (usize_mul b n PAGE_SIZE)
     (\<lambda>a. ret \<lparr>slice_base = a, slice_len = PAGE_SIZE div size_of_Entry\<rparr>)"

text \<open>The address of an element of a slice whose elements take \<open>sz\<close> bytes.\<close>

definition slice_index :: "slice \<Rightarrow> usize \<Rightarrow> usize \<Rightarrow> ('s, usize) prog" where
  "slice_index sl sz i =
     (if i < slice_len sl then ret (slice_base sl + sz * i) else panic IndexOutOfBounds)"

section \<open>Lemmas\<close>

lemma vpn_mask: "push_bit 9 (1::usize) - 1 = mask 9"
  by (simp add: mask_eq_decr_exp push_bit_eq_mult)

lemma unat_PAGE_SIZE [simp]: "unat PAGE_SIZE = 4096"
  by (simp add: PAGE_SIZE_def)

lemma unat_div_PAGE: "unat (a div PAGE_SIZE) = unat a div 4096"
  by (simp add: unat_div PAGE_SIZE_def)

lemma unat_mod_PAGE: "unat (a mod PAGE_SIZE) = unat a mod 4096"
  by (simp add: unat_mod PAGE_SIZE_def)

lemma unat_vpn0: "unat (drop_bit 12 (a::usize) AND mask 9) = unat a div 2 ^ 12 mod 512"
  by (simp add: take_bit_eq_mask [symmetric] unsigned_take_bit_eq take_bit_eq_mod unsigned_drop_bit_eq drop_bit_eq_div
    unat_div unat_mod)

lemma unat_vpn1: "unat (drop_bit 21 (a::usize) AND mask 9) = unat a div 2 ^ 21 mod 512"
  by (simp add: take_bit_eq_mask [symmetric] unsigned_take_bit_eq take_bit_eq_mod unsigned_drop_bit_eq drop_bit_eq_div
    unat_div unat_mod)

lemma unat_vpn2: "unat (drop_bit 30 (a::usize) AND mask 9) = unat a div 2 ^ 30 mod 512"
  by (simp add: take_bit_eq_mask [symmetric] unsigned_take_bit_eq take_bit_eq_mod unsigned_drop_bit_eq drop_bit_eq_div
    unat_div unat_mod)

section \<open>Order\<close>

text \<open>\<^verbatim>\<open>derive(Ord, PartialOrd)\<close>: addresses and page numbers compare as the numbers they hold.\<close>

fun PhysAddr_le :: "PhysAddr \<Rightarrow> PhysAddr \<Rightarrow> bool" where
  "PhysAddr_le (PhysAddr a) (PhysAddr b) \<longleftrightarrow> a \<le> b"

fun VirtAddr_le :: "VirtAddr \<Rightarrow> VirtAddr \<Rightarrow> bool" where
  "VirtAddr_le (VirtAddr a) (VirtAddr b) \<longleftrightarrow> a \<le> b"

fun PhyPageNum_le :: "PhyPageNum \<Rightarrow> PhyPageNum \<Rightarrow> bool" where
  "PhyPageNum_le (PhyPageNum a) (PhyPageNum b) \<longleftrightarrow> a \<le> b"

instantiation PhysAddr :: linorder
begin

definition less_eq_PhysAddr :: "PhysAddr \<Rightarrow> PhysAddr \<Rightarrow> bool" where
  [simp]: "less_eq_PhysAddr = PhysAddr_le"

definition less_PhysAddr :: "PhysAddr \<Rightarrow> PhysAddr \<Rightarrow> bool" where
  [simp]: "less_PhysAddr x y \<longleftrightarrow> \<not> PhysAddr_le y x"

instance
proof
  fix x y z :: PhysAddr
  show "x < y \<longleftrightarrow> x \<le> y \<and> \<not> y \<le> x" "x \<le> x" "x \<le> y \<or> y \<le> x"
    by (cases x; cases y; auto)+
  show "x \<le> y \<Longrightarrow> y \<le> z \<Longrightarrow> x \<le> z" "x \<le> y \<Longrightarrow> y \<le> x \<Longrightarrow> x = y"
    by (cases x; cases y; cases z; simp)+
qed

end

instantiation VirtAddr :: linorder
begin

definition less_eq_VirtAddr :: "VirtAddr \<Rightarrow> VirtAddr \<Rightarrow> bool" where
  [simp]: "less_eq_VirtAddr = VirtAddr_le"

definition less_VirtAddr :: "VirtAddr \<Rightarrow> VirtAddr \<Rightarrow> bool" where
  [simp]: "less_VirtAddr x y \<longleftrightarrow> \<not> VirtAddr_le y x"

instance
proof
  fix x y z :: VirtAddr
  show "x < y \<longleftrightarrow> x \<le> y \<and> \<not> y \<le> x" "x \<le> x" "x \<le> y \<or> y \<le> x"
    by (cases x; cases y; auto)+
  show "x \<le> y \<Longrightarrow> y \<le> z \<Longrightarrow> x \<le> z" "x \<le> y \<Longrightarrow> y \<le> x \<Longrightarrow> x = y"
    by (cases x; cases y; cases z; simp)+
qed

end

instantiation PhyPageNum :: linorder
begin

definition less_eq_PhyPageNum :: "PhyPageNum \<Rightarrow> PhyPageNum \<Rightarrow> bool" where
  [simp]: "less_eq_PhyPageNum = PhyPageNum_le"

definition less_PhyPageNum :: "PhyPageNum \<Rightarrow> PhyPageNum \<Rightarrow> bool" where
  [simp]: "less_PhyPageNum x y \<longleftrightarrow> \<not> PhyPageNum_le y x"

instance
proof
  fix x y z :: PhyPageNum
  show "x < y \<longleftrightarrow> x \<le> y \<and> \<not> y \<le> x" "x \<le> x" "x \<le> y \<or> y \<le> x"
    by (cases x; cases y; auto)+
  show "x \<le> y \<Longrightarrow> y \<le> z \<Longrightarrow> x \<le> z" "x \<le> y \<Longrightarrow> y \<le> x \<Longrightarrow> x = y"
    by (cases x; cases y; cases z; simp)+
qed

end

text \<open>The page of an address is monotone, so the pages of an interval of addresses are an interval of pages.\<close>

lemma ppn_mono: "(x :: PhysAddr) \<le> y \<Longrightarrow> PhysAddr_ppn x \<le> PhysAddr_ppn y" "(v :: VirtAddr) \<le> w \<Longrightarrow> VirtAddr_ppn v \<le> VirtAddr_ppn w"
proof -
  have div: "a div PAGE_SIZE \<le> b div PAGE_SIZE" if "a \<le> b" for a b :: usize
    using that by (simp add: word_le_nat_alt unat_div div_le_mono)
  show "PhysAddr_ppn x \<le> PhysAddr_ppn y" if "x \<le> y"
    using that div by (cases x; cases y) simp
  show "VirtAddr_ppn v \<le> VirtAddr_ppn w" if "v \<le> w"
    using that div by (cases v; cases w) simp
qed

end
