(* ===== verification/Printer.thy ===== *)
theory Printer
  imports Pointer Memory
begin

text \<open>
  \<^verbatim>\<open>rust/src/printer.rs\<close>: text goes to the transmit register of the serial port one byte at a
  time. The field \<open>uart\<close> of the state is the trace of those bytes. A \<^verbatim>\<open>fmt::Arguments\<close> value is the
  list of the pieces the formatter passes to \<^verbatim>\<open>write_str\<close>; \<open>lower_hex\<close> is the standard library's
  \<^verbatim>\<open>{:x}\<close>.
\<close>

definition UART_TX :: usize where
  "UART_TX = UART_BASE"

definition UART_LSR :: usize where
  "UART_LSR = UART_BASE + 5"

definition UART_LSR_EMPTY_MASK :: u8 where
  "UART_LSR_EMPTY_MASK = 0x40"

text \<open>A volatile store: the transmit register of the device, or memory.\<close>

definition write_volatile :: "usize \<Rightarrow> u8 \<Rightarrow> ('x machine_scheme, unit) prog" where
  "write_volatile p v = modify (\<lambda>s. if p = UART_TX then s\<lparr>uart := uart s @ [v]\<rparr> else s\<lparr>mem := (mem s)(p := v)\<rparr>)"

definition str_bytes :: "string \<Rightarrow> u8 list" where
  "str_bytes s = map of_char s"

fun write_bytes :: "u8 list \<Rightarrow> ('x machine_scheme, unit) prog" where
  "write_bytes [] = ret ()"
| "write_bytes (c # cs) = bind (write_volatile UART_TX c) (\<lambda>_. write_bytes cs)"

definition Writer_write_str :: "string \<Rightarrow> ('x machine_scheme, unit + unit) prog" where
  "Writer_write_str s = bind (write_bytes (str_bytes s)) (\<lambda>_. ret (Inr ()))"

text \<open>\<^verbatim>\<open>write_fmt\<close> stops at the first piece that fails.\<close>

fun write_fmt :: "string list \<Rightarrow> ('x machine_scheme, unit + unit) prog" where
  "write_fmt [] = ret (Inr ())"
| "write_fmt (p # ps) = bind (Writer_write_str p) (\<lambda>r. case r of Inl e \<Rightarrow> ret (Inl e) | Inr _ \<Rightarrow> write_fmt ps)"

definition print :: "string list \<Rightarrow> ('x machine_scheme, unit) prog" where
  "print args = bind (write_fmt args) (\<lambda>r. case r of Inl _ \<Rightarrow> panic UnwrapErr | Inr _ \<Rightarrow> ret ())"

definition newline :: string where
  "newline = [CHR 0x0A]"

definition println :: "string list \<Rightarrow> ('x machine_scheme, unit) prog" where
  "println args = print (args @ [newline])"

definition hex_digit :: "nat \<Rightarrow> char" where
  "hex_digit d = ''0123456789abcdef'' ! d"

fun lower_hex :: "nat \<Rightarrow> string" where
  "lower_hex n = (if n < 16 then [hex_digit n] else lower_hex (n div 16) @ [hex_digit (n mod 16)])"

declare lower_hex.simps [simp del]

text \<open>\<^verbatim>\<open>{}\<close> of an integer, and the \<^verbatim>\<open>Debug\<close> implementations of the address types.\<close>

fun decimal :: "nat \<Rightarrow> string" where
  "decimal n = (if n < 10 then [hex_digit n] else decimal (n div 10) @ [hex_digit (n mod 10)])"

declare decimal.simps [simp del]

primrec PhysAddr_fmt :: "PhysAddr \<Rightarrow> string" where
  "PhysAddr_fmt (PhysAddr a) = ''PhysAddr('' @ lower_hex (unat a) @ '')''"

primrec VirtAddr_fmt :: "VirtAddr \<Rightarrow> string" where
  "VirtAddr_fmt (VirtAddr a) = ''VirtAddr('' @ lower_hex (unat a) @ '')''"

primrec PhyPageNum_fmt :: "PhyPageNum \<Rightarrow> string" where
  "PhyPageNum_fmt (PhyPageNum a) = ''PhyPageNum('' @ lower_hex (unat a) @ '')''"

section \<open>What printing does\<close>

lemma write_bytes_run: "write_bytes cs s = Ret () (s\<lparr>uart := uart s @ cs\<rparr>)"
  by (induction cs arbitrary: s) (simp_all add: write_volatile_def run_simps)

lemma write_fmt_run: "write_fmt ps s = Ret (Inr ()) (s\<lparr>uart := uart s @ concat (map str_bytes ps)\<rparr>)"
proof (induction ps arbitrary: s)
  case (Cons p ps)
  then show ?case
    by (simp add: Writer_write_str_def bind_def write_bytes_run run_simps)
qed (simp add: run_simps)

lemma print_run: "print ps s = Ret () (s\<lparr>uart := uart s @ concat (map str_bytes ps)\<rparr>)"
  by (simp add: print_def bind_def write_fmt_run run_simps)

lemma bind_print [simp]: "bind (print ps) g s = g () (s\<lparr>uart := uart s @ concat (map str_bytes ps)\<rparr>)"
  by (simp add: bind_def print_run)

lemma bind_println [simp]:
  "bind (println ps) g s = g () (s\<lparr>uart := uart s @ concat (map str_bytes (ps @ [newline]))\<rparr>)"
  by (simp add: println_def)

end
