(* ===== verification/Palloc.thy ===== *)
theory Palloc
  imports LinkedListAllocator BlockContract Mutex Printer
begin

text \<open>
  \<^verbatim>\<open>rust/src/palloc.rs\<close>: the allocator of physical pages. Its free pages form a linked list: the
  first two words of a free page hold an \<^verbatim>\<open>Option<PhyPageNum>\<close>, a tag (0 for \<^verbatim>\<open>None\<close>) and the number
  of the next free page. The allocator sits in a mutex in a static, the field \<open>page_allocator\<close>.
  The invariant \<open>pool_rep s ns\<close> says that the list in memory is the list of page numbers \<open>ns\<close>.
\<close>

section \<open>The allocator\<close>

record PageAlloc =
  node :: "PhyPageNum option"
  number_alloc :: usize

record palloc_state = heap_state +
  page_allocator :: "PageAlloc Mutex"

definition load_opt :: "memory \<Rightarrow> usize \<Rightarrow> PhyPageNum option" where
  "load_opt m a = (if load32 m a = 0 then None else Some (PhyPageNum (load32 m (a + 4))))"

text \<open>Storing \<^verbatim>\<open>None\<close> leaves the bytes of the payload as they were.\<close>

definition store_opt :: "memory \<Rightarrow> usize \<Rightarrow> PhyPageNum option \<Rightarrow> memory" where
  "store_opt m a v = (case v of None \<Rightarrow> store32 m a 0
     | Some n \<Rightarrow> store32 (store32 m a 1) (a + 4) (PhyPageNum_into_usize n))"

definition PageAlloc_new :: PageAlloc where
  "PageAlloc_new = \<lparr>node = None, number_alloc = 0\<rparr>"

text \<open>The methods run on the value in the mutex, which \<^verbatim>\<open>&mut self\<close> reaches through the guard.\<close>

abbreviation self_node :: "'x palloc_state_scheme \<Rightarrow> PhyPageNum option" where
  "self_node s \<equiv> node (mx_cell (page_allocator s))"

definition update_self :: "(PageAlloc \<Rightarrow> PageAlloc) \<Rightarrow> ('x palloc_state_scheme, unit) prog" where
  "update_self f = MutexGuard_deref_mut page_allocator_update f"

definition PageAlloc_free :: "profile \<Rightarrow> PhyPageNum \<Rightarrow> ('x palloc_state_scheme, unit) prog" where
  "PageAlloc_free b ppn =
     bind (PhysAddr_from_ppn b ppn) (\<lambda>a.
     bind (PhysAddr_as_mut a) (\<lambda>x.
     bind (gets self_node) (\<lambda>n.
     bind (modify (\<lambda>s. s\<lparr>mem := store_opt (mem s) x n\<rparr>)) (\<lambda>_.
     update_self (\<lambda>self. self\<lparr>node := Some ppn\<rparr>)))))"

definition PageAlloc_alloc :: "profile \<Rightarrow> ('x palloc_state_scheme, PhyPageNum option) prog" where
  "PageAlloc_alloc b =
     bind (gets (\<lambda>s. number_alloc (mx_cell (page_allocator s)))) (\<lambda>k.
     bind (usize_add b k 1) (\<lambda>k'.
     bind (update_self (\<lambda>self. self\<lparr>number_alloc := k'\<rparr>)) (\<lambda>_.
     bind (gets self_node) (\<lambda>n. case n of
       Some ppn \<Rightarrow>
         bind (PhysAddr_from_ppn b ppn) (\<lambda>a.
         bind (PhysAddr_as_ref a) (\<lambda>x.
         bind (gets (\<lambda>s. load_opt (mem s) x)) (\<lambda>nxt.
         bind (update_self (\<lambda>self. self\<lparr>node := nxt\<rparr>)) (\<lambda>_.
         ret (Some ppn)))))
     | None \<Rightarrow> ret None))))"

fun free_each :: "profile \<Rightarrow> nat list \<Rightarrow> ('x palloc_state_scheme, unit) prog" where
  "free_each b [] = ret ()"
| "free_each b (ppn # ppns) =
     bind (PageAlloc_free b (PhyPageNum_from_usize (word_of_nat ppn))) (\<lambda>_. free_each b ppns)"

definition PageAlloc_init :: "profile \<Rightarrow> PhyPageNum \<Rightarrow> PhyPageNum \<Rightarrow> ('x palloc_state_scheme, unit) prog" where
  "PageAlloc_init b first limit =
     bind (println [''palloc: first 0x'', lower_hex (unat (PhyPageNum_into_usize first)),
                    '' last 0x'', lower_hex (unat (PhyPageNum_into_usize limit))]) (\<lambda>_.
     free_each b [unat (PhyPageNum_into_usize first)..<unat (PhyPageNum_into_usize limit)])"

section \<open>The module's functions\<close>

definition PAGE_ALLOCATOR :: "PageAlloc Mutex" where
  "PAGE_ALLOCATOR = Mutex_new PageAlloc_new"

abbreviation page_section :: "('x palloc_state_scheme, 'a) prog \<Rightarrow> ('x palloc_state_scheme, 'a) prog" where
  "page_section body \<equiv> with_lock page_allocator page_allocator_update body"

text \<open>\<open>kalloc_buffer\<close> is the address the linker gives to \<^verbatim>\<open>KALLOC_BUFFER\<close>.\<close>

definition palloc_init :: "profile \<Rightarrow> usize \<Rightarrow> ('x palloc_state_scheme, unit) prog" where
  "palloc_init b kalloc_buffer =
     bind (println [''palloc base: 0x'', lower_hex (unat kalloc_buffer)]) (\<lambda>_.
     page_section (
       bind (usize_add b kalloc_buffer KALLOC_SIZE) (\<lambda>e.
       bind (PhyPageNum_add b (PhysAddr_ppn (PhysAddr_from_usize e)) 1) (\<lambda>first.
       bind (PhyPageNum_sub b (PhysAddr_ppn (PhysAddr_from_usize MEMORY_SIZE)) 1) (\<lambda>limit.
       PageAlloc_init b first limit)))))"

definition palloc_alloc :: "profile \<Rightarrow> ('x palloc_state_scheme, PhyPageNum option) prog" where
  "palloc_alloc b = page_section (PageAlloc_alloc b)"

definition palloc_free :: "profile \<Rightarrow> PhyPageNum \<Rightarrow> ('x palloc_state_scheme, unit) prog" where
  "palloc_free b ppn = page_section (PageAlloc_free b ppn)"

definition palloc_count :: "('x palloc_state_scheme, usize) prog" where
  "palloc_count = page_section (bind (MutexGuard_deref page_allocator) (\<lambda>p. ret (number_alloc p)))"

interpretation page_mutex: static_mutex page_allocator page_allocator_update
proof
  show "page_allocator_update f s = s" if "f (page_allocator s) = page_allocator s" for f :: "PageAlloc Mutex \<Rightarrow> _" and s :: "'x palloc_state_scheme"
    using that by (cases s) simp
qed simp_all

section \<open>The free list\<close>

definition page_addr :: "nat \<Rightarrow> usize" where
  "page_addr n = word_of_nat (4096 * n)"

definition page_bytes :: "nat \<Rightarrow> nat set" where
  "page_bytes n = {4096 * n..<4096 * n + 4096}"

text \<open>Page 0 would be the null reference; the last page of the address space ends at \<open>2 ^ 32\<close>.\<close>

definition page_ok :: "nat \<Rightarrow> bool" where
  "page_ok n \<longleftrightarrow> 0 < n \<and> n < 2 ^ 20"

definition page :: "nat \<Rightarrow> PhyPageNum" where
  "page n = PhyPageNum (word_of_nat n)"

fun pages :: "memory \<Rightarrow> PhyPageNum option \<Rightarrow> nat list \<Rightarrow> bool" where
  "pages m p [] \<longleftrightarrow> p = None"
| "pages m p (n # ns) \<longleftrightarrow> p = Some (page n) \<and> pages m (load_opt m (page_addr n)) ns"

definition pool_rep :: "'x palloc_state_scheme \<Rightarrow> nat list \<Rightarrow> bool" where
  "pool_rep s ns \<longleftrightarrow> distinct ns \<and> (\<forall>n\<in>set ns. page_ok n) \<and> pages (mem s) (self_node s) ns"

lemma unat_page_addr: "page_ok n \<Longrightarrow> unat (page_addr n) = 4096 * n"
  by (simp add: page_addr_def page_ok_def del: of_nat_mult)

lemma page_bytes_apart: "m \<noteq> n \<Longrightarrow> page_bytes m \<inter> page_bytes n = {}"
  by (auto simp: page_bytes_def)

lemma page_addr_pos: "page_ok n \<Longrightarrow> page_addr n \<noteq> 0"
  using unat_page_addr [of n] by (auto simp: page_ok_def)

lemma page_refs:
  assumes "page_ok n"
  shows "PhysAddr_from_ppn b (page n) = ret (PhysAddr (page_addr n))"
    and "PhysAddr_as_mut (PhysAddr (page_addr n)) = ret (page_addr n)"
    and "PhysAddr_as_ref (PhysAddr (page_addr n)) = ret (page_addr n)"
  using assms page_addr_pos [OF assms]
  by (simp_all add: page_def page_ok_def page_addr_def PAGE_SIZE_def mult.commute)

text \<open>Bytes of a page, addressed from its start.\<close>

lemma page_offset:
  assumes "page_ok n" and "unat k < 4096"
  shows "unat (page_addr n + k) = 4096 * n + unat k"
proof -
  have "unat (page_addr n) + unat k < 2 ^ 32"
    using unat_page_addr [OF assms(1)] assms by (simp add: page_ok_def)
  then show ?thesis
    using unat_page_addr [OF assms(1)] by (simp add: unat_add_32)
qed

lemma load_opt_cong:
  assumes "\<And>k. k < 8 \<Longrightarrow> m' (a + k) = m (a + k)"
  shows "load_opt m' a = load_opt m a"
proof -
  have k: "k < 8" "4 + k < 8" if "k < 4" for k :: usize
    using that unat_add_32 [of 4 k] by (auto simp: word_less_nat_alt)
  then have "load32 m' a = load32 m a" "load32 m' (a + 4) = load32 m (a + 4)"
    using assms assms [OF k(2)] by (auto intro!: ram.load_byte_cong simp: add.assoc)
  then show ?thesis
    by (simp add: load_opt_def)
qed

lemma PhyPageNum_into [simp]: "PhyPageNum (PhyPageNum_into_usize n) = n"
  by (cases n) simp

lemma load_store_opt [simp]: "load_opt (store_opt m a v) a = v"
  by (auto simp: load_opt_def store_opt_def ram.load_store_same ram.pair_same split: option.split)

lemma store_opt_outside:
  assumes "page_ok n"
  shows "same_outside (page_bytes n) m (store_opt m (page_addr n) v)"
proof -
  have "8 \<le> x - page_addr n" if "unat x \<notin> page_bytes n" for x
    unfolding page_addr_def by (rule word_diff_outside) (use that assms in \<open>auto simp: page_bytes_def page_ok_def\<close>)
  then show ?thesis
    using ram.pair_byte_outside by (auto simp: same_outside_def store_opt_def split: option.split)
qed

lemma load_opt_outside:
  assumes "same_outside A m m'" and "page_ok n" and "A \<inter> page_bytes n = {}"
  shows "load_opt m' (page_addr n) = load_opt m (page_addr n)"
proof (rule load_opt_cong)
  fix k :: usize
  assume "k < 8"
  then have k: "unat k < 8"
    by (simp add: word_less_nat_alt)
  then have "unat (page_addr n + k) \<in> page_bytes n"
    using page_offset [OF assms(2), of k] by (simp add: page_bytes_def)
  then show "m' (page_addr n + k) = m (page_addr n + k)"
    using assms(1,3) by (auto simp: same_outside_def)
qed

lemma pages_outside:
  assumes "same_outside A m m'" and "\<And>n. n \<in> set ns \<Longrightarrow> page_ok n \<and> A \<inter> page_bytes n = {}"
  shows "pages m' p ns \<longleftrightarrow> pages m p ns"
  using assms(2) by (induction ns arbitrary: p) (auto simp: load_opt_outside [OF assms(1)])

text \<open>Memory outside the free pages may be written by the owners of the other pages.\<close>

lemma pool_rep_frame:
  assumes "pool_rep s ns" and "same_outside A (mem s) (mem s')" and "\<And>n. n \<in> set ns \<Longrightarrow> A \<inter> page_bytes n = {}"
    and "self_node s' = self_node s"
  shows "pool_rep s' ns"
  using assms pages_outside [OF assms(2), of ns] by (auto simp: pool_rep_def)

section \<open>What the operations do\<close>

lemma PageAlloc_free_run:
  assumes "page_ok n"
  shows "PageAlloc_free b (page n) s = Ret () (s\<lparr>mem := store_opt (mem s) (page_addr n) (self_node s),
    page_allocator := (page_allocator s)\<lparr>mx_cell := (mx_cell (page_allocator s))\<lparr>node := Some (page n)\<rparr>\<rparr>\<rparr>)"
  by (simp add: PageAlloc_free_def page_refs [OF assms] page_addr_pos [OF assms] update_self_def
      MutexGuard_deref_mut_def run_simps)

lemma PageAlloc_free_rep:
  assumes "pool_rep s ns" and "page_ok n" and "n \<notin> set ns" and "PageAlloc_free b (page n) s = Ret () s'"
  shows "pool_rep s' (n # ns)" and "same_outside (page_bytes n) (mem s) (mem s')"
proof -
  have s': "mem s' = store_opt (mem s) (page_addr n) (self_node s)" "self_node s' = Some (page n)"
    using assms(4) by (auto simp: PageAlloc_free_run [OF assms(2)])
  show out: "same_outside (page_bytes n) (mem s) (mem s')"
    unfolding s' using assms(2) by (rule store_opt_outside)
  have "page_bytes n \<inter> page_bytes k = {}" if "k \<in> set ns" for k
    using that assms(3) by (intro page_bytes_apart) auto
  then have "pages (mem s') p ns \<longleftrightarrow> pages (mem s) p ns" for p
    using pages_outside [OF out, of ns] assms(1) by (simp add: pool_rep_def)
  then show "pool_rep s' (n # ns)"
    using assms(1-3) by (simp add: pool_rep_def s')
qed

text \<open>The counter of allocations overflows in a development build only, after \<open>2 ^ 32\<close> of them.\<close>

definition may_count :: "profile \<Rightarrow> 'x palloc_state_scheme \<Rightarrow> bool" where
  "may_count b s \<longleftrightarrow> b = Release \<or> unat (number_alloc (mx_cell (page_allocator s))) + 1 < 2 ^ 32"

lemma may_count_add:
  "may_count b s \<Longrightarrow> usize_add b (number_alloc (mx_cell (page_allocator s))) 1
    = ret (number_alloc (mx_cell (page_allocator s)) + 1)"
  by (auto simp: may_count_def usize_add_def)

lemma PageAlloc_alloc_run:
  assumes "pool_rep s ns" and "may_count b s"
  shows "PageAlloc_alloc b s = Ret (case ns of [] \<Rightarrow> None | n # _ \<Rightarrow> Some (page n))
    (s\<lparr>page_allocator := (page_allocator s)\<lparr>mx_cell := \<lparr>
      node = (case ns of [] \<Rightarrow> None | n # _ \<Rightarrow> load_opt (mem s) (page_addr n)),
      number_alloc = number_alloc (mx_cell (page_allocator s)) + 1\<rparr>\<rparr>\<rparr>)"
proof -
  obtain lck cell where pa: "page_allocator s = \<lparr>mx_lock = lck, mx_cell = cell\<rparr>"
    by (cases "page_allocator s")
  obtain nd k where cell: "cell = \<lparr>node = nd, number_alloc = k\<rparr>"
    by (cases cell)
  have add: "usize_add b k 1 = ret (k + 1)"
    using may_count_add [OF assms(2)] by (simp add: pa cell)
  show ?thesis
  proof (cases ns)
    case Nil
    then have "nd = None"
      using assms(1) by (simp add: pool_rep_def pa cell)
    then show ?thesis
      by (simp add: PageAlloc_alloc_def add update_self_def MutexGuard_deref_mut_def pa cell
          Nil run_simps)
  next
    case (Cons n ns')
    then have "nd = Some (page n)" "page_ok n"
      using assms(1) by (simp_all add: pool_rep_def pa cell)
    then show ?thesis
      by (simp add: PageAlloc_alloc_def add update_self_def MutexGuard_deref_mut_def pa cell
          Cons page_refs page_addr_pos run_simps)
  qed
qed

lemma PageAlloc_alloc_rep:
  assumes "pool_rep s ns" and "may_count b s" and "PageAlloc_alloc b s = Ret r s'"
  shows "pool_rep s' (tl ns)" and "mem s' = mem s"
  using assms PageAlloc_alloc_run [OF assms(1,2)] by (cases ns; auto simp: pool_rep_def)+

section \<open>The module's functions, behind the lock\<close>

definition pool_free :: "'x palloc_state_scheme \<Rightarrow> nat list \<Rightarrow> bool" where
  "pool_free s ns \<longleftrightarrow> pool_rep s ns \<and> \<not> mx_lock (page_allocator s)"

abbreviation set_lock :: "bool \<Rightarrow> 'x palloc_state_scheme \<Rightarrow> 'x palloc_state_scheme" where
  "set_lock l s \<equiv> page_allocator_update (\<lambda>m. m\<lparr>mx_lock := l\<rparr>) s"

lemma pool_rep_lock [simp]: "pool_rep (set_lock l s) ns = pool_rep s ns"
  by (simp add: pool_rep_def)

lemma may_count_lock [simp]: "may_count b (set_lock l s) = may_count b s"
  by (simp add: may_count_def)

definition first_page :: "nat list \<Rightarrow> PhyPageNum option" where
  "first_page ns = (case ns of [] \<Rightarrow> None | n # _ \<Rightarrow> Some (page n))"

lemma palloc_alloc_run:
  assumes "pool_free s ns" and "may_count b s"
  shows "\<exists>s'. palloc_alloc b s = Ret (first_page ns) s' \<and> s' = s\<lparr>page_allocator := page_allocator s'\<rparr> \<and>
    pool_free s' (tl ns) \<and>
    number_alloc (mx_cell (page_allocator s')) = number_alloc (mx_cell (page_allocator s)) + 1"
proof -
  have free: "\<not> mx_lock (page_allocator s)" and rep: "pool_rep (set_lock True s) ns" and may: "may_count b (set_lock True s)"
    using assms by (simp_all add: pool_free_def)
  define t where "t = (set_lock True s)\<lparr>page_allocator := (page_allocator (set_lock True s))\<lparr>mx_cell := \<lparr>
      node = (case ns of [] \<Rightarrow> None | n # _ \<Rightarrow> load_opt (mem s) (page_addr n)),
      number_alloc = number_alloc (mx_cell (page_allocator s)) + 1\<rparr>\<rparr>\<rparr>"
  have run: "PageAlloc_alloc b (set_lock True s) = Ret (first_page ns) t"
    using PageAlloc_alloc_run [OF rep may] by (cases ns) (simp_all add: first_page_def t_def)
  have "palloc_alloc b s = Ret (first_page ns) (set_lock False t)"
    unfolding palloc_alloc_def using free run by (rule page_mutex.section_run)
  moreover have "pool_free (set_lock False t) (tl ns)"
    using PageAlloc_alloc_rep(1) [OF rep may run] by (simp add: pool_free_def)
  moreover have "set_lock False t = s\<lparr>page_allocator := page_allocator (set_lock False t)\<rparr>"
    by (simp add: t_def)
  ultimately show ?thesis
    by (intro exI [of _ "set_lock False t"]) (simp add: t_def)
qed

lemma palloc_free_run:
  assumes "pool_free s ns" and "page_ok n" and "n \<notin> set ns"
  shows "\<exists>s'. palloc_free b (page n) s = Ret () s' \<and>
    s' = s\<lparr>mem := mem s', page_allocator := page_allocator s'\<rparr> \<and>
    pool_free s' (n # ns) \<and> same_outside (page_bytes n) (mem s) (mem s') \<and>
    number_alloc (mx_cell (page_allocator s')) = number_alloc (mx_cell (page_allocator s))"
proof -
  have free: "\<not> mx_lock (page_allocator s)" and rep: "pool_rep (set_lock True s) ns"
    using assms by (simp_all add: pool_free_def)
  define t where "t = (set_lock True s)\<lparr>mem := store_opt (mem s) (page_addr n) (self_node s),
    page_allocator := (page_allocator (set_lock True s))\<lparr>mx_cell := (mx_cell (page_allocator s))\<lparr>node := Some (page n)\<rparr>\<rparr>\<rparr>"
  have run: "PageAlloc_free b (page n) (set_lock True s) = Ret () t"
    by (simp add: PageAlloc_free_run [OF assms(2)] t_def)
  have "palloc_free b (page n) s = Ret () (set_lock False t)"
    unfolding palloc_free_def using free run by (rule page_mutex.section_run)
  moreover have "pool_free (set_lock False t) (n # ns)" "same_outside (page_bytes n) (mem s) (mem t)"
    using PageAlloc_free_rep [OF rep assms(2,3) run] by (simp_all add: pool_free_def)
  moreover have "set_lock False t = s\<lparr>mem := mem t, page_allocator := page_allocator (set_lock False t)\<rparr>"
    by (simp add: t_def)
  ultimately show ?thesis
    by (intro exI [of _ "set_lock False t"]) (simp add: t_def)
qed

text \<open>Every call of the module takes the lock and releases it, and hangs when it is taken.\<close>

lemma palloc_hangs_locked:
  assumes "mx_lock (page_allocator s)"
  shows "palloc_alloc b s = Hangs" "palloc_free b p s = Hangs" "palloc_count s = Hangs"
  using page_mutex.lock_taken [of s] assms
  by (simp_all add: palloc_alloc_def palloc_free_def palloc_count_def with_lock_def bind_def)

section \<open>Initialisation\<close>

lemma free_each_run:
  assumes "pool_rep s ns" and "\<And>n. n \<in> set ks \<Longrightarrow> page_ok n \<and> n \<notin> set ns" and "distinct ks"
  shows "\<exists>s'. free_each b ks s = Ret () s' \<and> s' = s\<lparr>mem := mem s', page_allocator := page_allocator s'\<rparr> \<and>
    mx_lock (page_allocator s') = mx_lock (page_allocator s) \<and>
    number_alloc (mx_cell (page_allocator s')) = number_alloc (mx_cell (page_allocator s)) \<and> pool_rep s' (rev ks @ ns) \<and>
    same_outside (\<Union>(page_bytes ` set ks)) (mem s) (mem s')"
  using assms
proof (induction ks arbitrary: s ns)
  case Nil
  then show ?case
    by (simp add: run_simps)
next
  case (Cons k ks)
  have k: "page_ok k" "k \<notin> set ns"
    using Cons.prems(2) by auto
  define t where "t = s\<lparr>mem := store_opt (mem s) (page_addr k) (self_node s),
    page_allocator := (page_allocator s)\<lparr>mx_cell := (mx_cell (page_allocator s))\<lparr>node := Some (page k)\<rparr>\<rparr>\<rparr>"
  have run: "PageAlloc_free b (page k) s = Ret () t"
    by (simp add: PageAlloc_free_run [OF k(1)] t_def)
  note t = PageAlloc_free_rep [OF Cons.prems(1) k run]
  obtain s' where run': "free_each b ks t = Ret () s'" "s' = t\<lparr>mem := mem s', page_allocator := page_allocator s'\<rparr>"
    and s': "mx_lock (page_allocator s') = mx_lock (page_allocator t)" "pool_rep s' (rev ks @ k # ns)"
      "number_alloc (mx_cell (page_allocator s')) = number_alloc (mx_cell (page_allocator t))"
      and out: "same_outside (\<Union>(page_bytes ` set ks)) (mem t) (mem s')"
    using Cons.IH [OF t(1)] Cons.prems(2,3) by auto
  have "free_each b (k # ks) s = Ret () s'"
    using run run'(1) by (simp add: bind_def page_def PhyPageNum_from_usize_def)
  moreover have "same_outside (\<Union>(page_bytes ` set (k # ks))) (mem s) (mem s')"
    by (rule same_outside_trans [OF same_outside_mono [OF t(2)] same_outside_mono [OF out]]) auto
  moreover have "s' = s\<lparr>mem := mem s', page_allocator := page_allocator s'\<rparr>"
    by (subst run'(2)) (simp add: t_def)
  ultimately show ?case
    using s' by (intro exI [of _ s']) (simp add: t_def)
qed

text \<open>The pages the kernel manages, when the linker puts the heap buffer at \<open>kb\<close>.\<close>

definition pool_first :: "nat \<Rightarrow> nat" where
  "pool_first kb = (kb + unat KALLOC_SIZE) div 4096 + 1"

definition pool_limit :: nat where
  "pool_limit = unat MEMORY_SIZE div 4096 - 1"

lemma pool_limit_value: "pool_limit = 532479"
  by (simp add: pool_limit_def MEMORY_SIZE_def)

text \<open>What \<^verbatim>\<open>palloc::init\<close> prints.\<close>

definition palloc_log :: "nat \<Rightarrow> u8 list" where
  "palloc_log kb = concat (map str_bytes [''palloc base: 0x'', lower_hex kb, newline,
     ''palloc: first 0x'', lower_hex (pool_first kb), '' last 0x'', lower_hex pool_limit, newline])"

lemma palloc_init_run:
  assumes kb: "kb + unat KALLOC_SIZE < 2 ^ 32" and pa: "page_allocator s = PAGE_ALLOCATOR"
  shows "\<exists>s'. palloc_init b (word_of_nat kb) s = Ret () s' \<and> pool_free s' (rev [pool_first kb..<pool_limit]) \<and>
    number_alloc (mx_cell (page_allocator s')) = 0 \<and> uart s' = uart s @ palloc_log kb \<and>
    s' = s\<lparr>mem := mem s', uart := uart s', page_allocator := page_allocator s'\<rparr> \<and>
    same_outside (\<Union>n\<in>{pool_first kb..<pool_limit}. page_bytes n) (mem s) (mem s')"
proof -
  let ?ks = "[pool_first kb..<pool_limit]"
  define u where "u = s\<lparr>uart := uart s @ concat (map str_bytes ([''palloc base: 0x'', lower_hex (unat (word_of_nat kb :: usize))] @ [newline]))\<rparr>"
  define u' where "u' = (set_lock True u)\<lparr>uart := uart u @ concat (map str_bytes ([''palloc: first 0x'',
    lower_hex (pool_first kb), '' last 0x'', lower_hex pool_limit] @ [newline]))\<rparr>"
  have free: "\<not> mx_lock (page_allocator u)" and rep: "pool_rep u' []"
    using pa by (simp_all add: u_def u'_def PAGE_ALLOCATOR_def Mutex_new_def PageAlloc_new_def pool_rep_def)
  have ks: "page_ok n \<and> n \<notin> set []" if "n \<in> set ?ks" for n
    using that by (simp add: page_ok_def pool_limit_value pool_first_def)
  obtain t where run: "free_each b ?ks u' = Ret () t" "t = u'\<lparr>mem := mem t, page_allocator := page_allocator t\<rparr>"
    and count: "number_alloc (mx_cell (page_allocator t)) = 0"
    and t: "pool_rep t (rev ?ks)" "same_outside (\<Union>n\<in>{pool_first kb..<pool_limit}. page_bytes n) (mem u') (mem t)"
    using free_each_run [OF rep, of ?ks b] ks pa by (auto simp: u_def u'_def PAGE_ALLOCATOR_def Mutex_new_def PageAlloc_new_def)
  define e where "e = (word_of_nat kb :: usize) + KALLOC_SIZE"
  have e: "usize_add b (word_of_nat kb) KALLOC_SIZE = ret e" "unat e = kb + unat KALLOC_SIZE"
    using kb by (simp_all add: e_def unat_add_32)
  have first: "usize_add b (e div PAGE_SIZE) 1 = ret (e div PAGE_SIZE + 1)" "unat (e div PAGE_SIZE + 1) = pool_first kb"
    using kb e(2) by (simp_all add: unat_div_PAGE unat_add_32 pool_first_def)
  have limit: "usize_sub b (MEMORY_SIZE div PAGE_SIZE) 1 = ret (MEMORY_SIZE div PAGE_SIZE - 1)"
    "unat (MEMORY_SIZE div PAGE_SIZE - 1) = pool_limit"
    by (simp_all add: unat_div_PAGE MEMORY_SIZE_def PAGE_SIZE_def pool_limit_def)
  have body: "bind (usize_add b (word_of_nat kb) KALLOC_SIZE) (\<lambda>e.
       bind (PhyPageNum_add b (PhysAddr_ppn (PhysAddr_from_usize e)) 1) (\<lambda>first.
       bind (PhyPageNum_sub b (PhysAddr_ppn (PhysAddr_from_usize MEMORY_SIZE)) 1) (\<lambda>limit.
       PageAlloc_init b first limit))) (set_lock True u) = Ret () t"
    using run(1) by (simp add: e first limit PhysAddr_from_usize_def PageAlloc_init_def u'_def)
  let ?s' = "set_lock False t"
  have init: "palloc_init b (word_of_nat kb) s = Ret () ?s'"
    unfolding palloc_init_def bind_println u_def [symmetric] using free body by (rule page_mutex.section_run)
  have frame: "?s' = s\<lparr>mem := mem ?s', uart := uart ?s', page_allocator := page_allocator ?s'\<rparr>"
    by (subst run(2), subst (2) run(2)) (simp add: u'_def u_def)
  have pool: "pool_free ?s' (rev ?ks)"
    using t(1) by (simp add: pool_free_def)
  have out: "same_outside (\<Union>n\<in>{pool_first kb..<pool_limit}. page_bytes n) (mem s) (mem ?s')"
    using t(2) by (simp add: u'_def u_def)
  have "number_alloc (mx_cell (page_allocator ?s')) = 0"
    using count by simp
  moreover have "uart ?s' = uart s @ palloc_log kb"
    using kb by (simp add: u'_def u_def palloc_log_def, subst run(2), simp add: u'_def u_def)
  ultimately show ?thesis
    by (intro exI [of _ ?s'] conjI init pool frame out)
qed

section \<open>The page allocator keeps the contract of a block allocator\<close>

text \<open>In a release build, where the counter wraps. A block is a page, there is one kind of request.\<close>

definition page_number :: "PhyPageNum \<Rightarrow> nat" where
  "page_number p = unat (PhyPageNum_into_usize p)"

definition page_request :: "unit \<Rightarrow> ('x palloc_state_scheme, nat option) prog" where
  "page_request q = bind (palloc_alloc Release) (\<lambda>r. ret (map_option page_number r))"

definition page_return :: "nat \<Rightarrow> ('x palloc_state_scheme, unit) prog" where
  "page_return n = palloc_free Release (page n)"

definition pages_lent :: "'x palloc_state_scheme \<Rightarrow> nat set \<Rightarrow> bool" where
  "pages_lent s H \<longleftrightarrow> (\<exists>ns. pool_free s ns \<and> (\<forall>n\<in>H. page_ok n \<and> n \<notin> set ns))"

lemma page_number_page [simp]: "page_ok n \<Longrightarrow> page_number (page n) = n"
  by (simp add: page_number_def page_def page_ok_def)

lemma pool_free_pages: "pool_free s ns \<Longrightarrow> n \<in> set ns \<Longrightarrow> page_ok n"
  by (simp add: pool_free_def pool_rep_def)

lemma page_request_run:
  assumes "pages_lent s H" and "q = q"
  shows "\<exists>r s'. page_request q s = Ret r s' \<and> pages_lent s' (case r of None \<Rightarrow> H | Some n \<Rightarrow> insert n H) \<and>
    (\<forall>n\<in>H. \<forall>i\<in>page_bytes n. mem s' (word_of_nat i) = mem s (word_of_nat i))"
proof -
  obtain ns where ns: "pool_free s ns" "\<forall>n\<in>H. page_ok n \<and> n \<notin> set ns"
    using assms(1) by (auto simp: pages_lent_def)
  obtain s' where run: "palloc_alloc Release s = Ret (first_page ns) s'"
    and frame: "s' = s\<lparr>page_allocator := page_allocator s'\<rparr>" and pool: "pool_free s' (tl ns)"
    using palloc_alloc_run [OF ns(1), of Release] by (auto simp: may_count_def)
  have m: "mem s' = mem s"
    by (subst frame) simp
  show ?thesis
  proof (cases ns)
    case Nil
    then show ?thesis
      using run pool ns m by (auto simp: page_request_def bind_def first_page_def pages_lent_def run_simps)
  next
    case (Cons n ns')
    have n: "page_ok n" "n \<notin> set ns'"
      using ns(1) by (simp_all add: Cons pool_free_def pool_rep_def)
    then have "pages_lent s' (insert n H)"
      using pool ns(2) by (auto simp: Cons pages_lent_def)
    then show ?thesis
      using run n m by (simp add: page_request_def bind_def first_page_def Cons run_simps)
  qed
qed

lemma page_return_run:
  assumes "pages_lent s H" and "n \<in> H"
  shows "\<exists>s'. page_return n s = Ret () s' \<and> pages_lent s' (H - {n}) \<and>
    (\<forall>k\<in>H - {n}. \<forall>i\<in>page_bytes k. mem s' (word_of_nat i) = mem s (word_of_nat i))"
proof -
  obtain ns where ns: "pool_free s ns" "\<forall>n\<in>H. page_ok n \<and> n \<notin> set ns"
    using assms(1) by (auto simp: pages_lent_def)
  then obtain s' where run: "palloc_free Release (page n) s = Ret () s'" "pool_free s' (n # ns)"
    and out: "same_outside (page_bytes n) (mem s) (mem s')"
    using palloc_free_run [OF ns(1), of n Release] assms(2) by blast
  have "mem s' (word_of_nat i) = mem s (word_of_nat i)" if "k \<in> H - {n}" "i \<in> page_bytes k" for k i
  proof -
    have "i < 2 ^ 32" "i \<notin> page_bytes n"
      using that ns(2) page_bytes_apart [of k n] by (auto simp: page_bytes_def page_ok_def)
    then show ?thesis
      using out by (simp add: same_outside_def)
  qed
  then show ?thesis
    using run ns(2) by (auto simp: page_return_def pages_lent_def intro!: exI [of _ s'] exI [of _ "n # ns"])
qed

lemma pages_lent_bytes: "pages_lent s H \<Longrightarrow> n \<in> H \<Longrightarrow> page_bytes n \<subseteq> {0<..<2 ^ 32}"
  by (auto simp: pages_lent_def page_ok_def page_bytes_def)

lemma pages_lent_apart: "pages_lent s H \<Longrightarrow> m \<in> H \<Longrightarrow> n \<in> H \<Longrightarrow> m \<noteq> n \<Longrightarrow> page_bytes m \<inter> page_bytes n = {}"
  by (rule page_bytes_apart)

lemma pages_lent_poke:
  assumes "pages_lent s H" and "n \<in> H" and "i \<in> page_bytes n"
  shows "pages_lent (poke (word_of_nat i) v s) H"
proof -
  obtain ns where ns: "pool_free s ns" "\<forall>n\<in>H. page_ok n \<and> n \<notin> set ns"
    using assms(1) by (auto simp: pages_lent_def)
  have i: "i < 2 ^ 32"
    using assms(2,3) ns(2) by (auto simp: page_bytes_def page_ok_def)
  have "pool_rep (poke (word_of_nat i) v s) ns"
  proof (rule pool_rep_frame [of s ns "{i}"])
    show "same_outside {i} (mem s) (mem (poke (word_of_nat i) v s))"
      using i by (auto simp: same_outside_def poke_byte)
    show "{i} \<inter> page_bytes k = {}" if "k \<in> set ns" for k
      using that page_bytes_apart [of k n] assms(2,3) ns(2) by auto
  qed (use ns(1) in \<open>simp_all add: pool_free_def poke_def\<close>)
  then show ?thesis
    using ns by (auto simp: pages_lent_def pool_free_def poke_def)
qed

interpretation page_blocks: block_allocator page_request page_return mem poke "\<lambda>q. q = q" page_bytes pages_lent
  by unfold_locales
    ((rule pages_lent_bytes pages_lent_apart page_request_run page_return_run pages_lent_poke; assumption)+,
      rule poke_byte)

section \<open>Properties\<close>

text \<open>A pool of one page, page 3, as the witnesses use it.\<close>

definition demo_pool :: palloc_state where
  "demo_pool = \<lparr>mem = \<lambda>_. 0, uart = [], holes = HoleList_empty, used = 0,
     page_allocator = Mutex_new \<lparr>node = Some (PhyPageNum 3), number_alloc = 0\<rparr>\<rparr>"

lemma demo_pool_free: "pool_free demo_pool [3]"
  by (simp add: pool_free_def pool_rep_def demo_pool_def page_ok_def page_def Mutex_new_def load_opt_def load32_def)

lemma demo_pool_may_count: "may_count b demo_pool"
  by (simp add: may_count_def demo_pool_def Mutex_new_def)



text \<open>
  C23. \<^verbatim>\<open>alloc\<close> hands out the page freed last, or nothing when the pool is empty; it writes no memory,
  leaves the lock free, and counts the call whether or not it found a page.
\<close>
theorem page_alloc_first:
  assumes "pool_free s ns" and "may_count b s"
  shows "\<exists>s'. palloc_alloc b s = Ret (first_page ns) s' \<and> pool_free s' (tl ns) \<and> mem s' = mem s \<and>
    (\<exists>s''. palloc_count s' = Ret (number_alloc (mx_cell (page_allocator s)) + 1) s'')"
proof -
  obtain s' where run: "palloc_alloc b s = Ret (first_page ns) s'" and frame: "s' = s\<lparr>page_allocator := page_allocator s'\<rparr>"
    and s': "pool_free s' (tl ns)" "number_alloc (mx_cell (page_allocator s')) = number_alloc (mx_cell (page_allocator s)) + 1"
    using palloc_alloc_run [OF assms] by blast
  have "palloc_count s' = Ret (number_alloc (mx_cell (page_allocator s'))) (set_lock False (set_lock True s'))"
    unfolding palloc_count_def using s'(1)
    by (intro page_mutex.section_run) (auto simp: pool_free_def MutexGuard_deref_def run_simps)
  moreover have "mem s' = mem s"
    by (subst frame) simp
  ultimately show ?thesis
    using run s' by auto
qed

lemma page_alloc_first_witness: "\<exists>s'. palloc_alloc Dev demo_pool = Ret (Some (page 3)) s' \<and> pool_free s' []"
  using page_alloc_first [OF demo_pool_free demo_pool_may_count, of Dev] by (auto simp: first_page_def)

text \<open>
  C24. A page given back is the next page handed out, and the pool is then what it was before; only
  the page itself was written.
\<close>
theorem page_free_alloc:
  assumes "pool_free s ns" and "page_ok n" and "n \<notin> set ns" and "may_count b s"
  shows "\<exists>s' s''. palloc_free b (page n) s = Ret () s' \<and> palloc_alloc b s' = Ret (Some (page n)) s'' \<and>
    pool_free s'' ns \<and> same_outside (page_bytes n) (mem s) (mem s'')"
proof -
  obtain s' where run: "palloc_free b (page n) s = Ret () s'" "pool_free s' (n # ns)"
    and out: "same_outside (page_bytes n) (mem s) (mem s')"
    and count: "number_alloc (mx_cell (page_allocator s')) = number_alloc (mx_cell (page_allocator s))"
    using palloc_free_run [OF assms(1-3), of b] by blast
  have "may_count b s'"
    using assms(4) count by (simp add: may_count_def)
  then obtain s'' where s'': "palloc_alloc b s' = Ret (first_page (n # ns)) s''" "pool_free s'' (tl (n # ns))"
    and frame: "s'' = s'\<lparr>page_allocator := page_allocator s''\<rparr>"
    using palloc_alloc_run [OF run(2)] by blast
  have "mem s'' = mem s'"
    by (subst frame) simp
  then show ?thesis
    using run(1) out s'' by (intro exI [of _ s'] exI [of _ s'']) (simp add: first_page_def)
qed

lemma page_free_alloc_witness:
  "\<exists>s' s''. palloc_free Dev (page 9) demo_pool = Ret () s' \<and> palloc_alloc Dev s' = Ret (Some (page 9)) s'' \<and> pool_free s'' [3]"
  using page_free_alloc [OF demo_pool_free, of 9 Dev] demo_pool_may_count by (auto simp: page_ok_def)

text \<open>
  C25. Initialisation puts exactly the pages behind the kernel's heap buffer, up to the last page but
  one of the memory, into the pool, the highest first, and writes only into them.
\<close>
theorem page_pool_init:
  assumes "kb + unat KALLOC_SIZE < 2 ^ 32" and "page_allocator s = PAGE_ALLOCATOR"
  shows "\<exists>s'. palloc_init b (word_of_nat kb) s = Ret () s' \<and>
    pool_free s' (rev [(kb + 31457280) div 4096 + 1..<532479]) \<and>
    same_outside {4096 * ((kb + 31457280) div 4096 + 1)..<4096 * 532479} (mem s) (mem s')"
proof -
  have "(\<Union>n\<in>{pool_first kb..<pool_limit}. page_bytes n) \<subseteq> {4096 * pool_first kb..<4096 * pool_limit}"
    by (auto simp: page_bytes_def)
  moreover have "pool_first kb = (kb + 31457280) div 4096 + 1"
    by (simp add: pool_first_def KALLOC_SIZE_def)
  ultimately show ?thesis
    using palloc_init_run [OF assms, of b] same_outside_mono by (simp only: pool_limit_value) blast
qed

lemma page_pool_init_witness:
  "\<exists>s'. palloc_init Dev 0x80100000 (demo_pool\<lparr>page_allocator := PAGE_ALLOCATOR\<rparr>) = Ret () s' \<and>
    pool_free s' (rev [532225..<532479])"
  using page_pool_init [of "0x80100000" "demo_pool\<lparr>page_allocator := PAGE_ALLOCATOR\<rparr>" Dev] by (auto simp: KALLOC_SIZE_def)



end
