(* ===== verification/Kalloc.thy ===== *)
theory Kalloc
  imports AllocatorClient Palloc
begin

text \<open>
  \<^verbatim>\<open>rust/src/kalloc.rs\<close>: the kernel's global allocator is the \<^verbatim>\<open>LockedHeap\<close> in a static (the fields
  \<open>holes\<close> and \<open>used\<close> of the state) over the buffer the linker reserves, and the order in which
  \<^verbatim>\<open>kernel_main\<close> starts the two allocators.
\<close>

definition KERNEL_ALLOCATOR :: Heap where
  "KERNEL_ALLOCATOR = LockedHeap_empty"

definition kalloc_init :: "profile \<Rightarrow> usize \<Rightarrow> ('x heap_state_scheme, unit) prog" where
  "kalloc_init b kalloc_buffer =
     bind (println [''kalloc buffer base: 0x'', lower_hex (unat kalloc_buffer)]) (\<lambda>_.
     LockedHeap_init b kalloc_buffer KALLOC_SIZE)"

text \<open>\<open>debug_layout\<close> stands for the text of the layout's \<^verbatim>\<open>Debug\<close> implementation.\<close>

definition handle_alloc_error :: "(Layout \<Rightarrow> string) \<Rightarrow> Layout \<Rightarrow> ('s, 'a) prog" where
  "handle_alloc_error debug_layout layout = panic (ExplicitPanic (''kalloc fail: '' @ debug_layout layout))"

text \<open>The first two calls of \<^verbatim>\<open>kernel_main\<close> after its greeting.\<close>

definition start_allocators :: "profile \<Rightarrow> usize \<Rightarrow> ('x palloc_state_scheme, unit) prog" where
  "start_allocators b kalloc_buffer = bind (palloc_init b kalloc_buffer) (\<lambda>_. kalloc_init b kalloc_buffer)"

lemma heap_region_pages:
  assumes "n \<in> {pool_first kb..<pool_limit}"
  shows "{0..<kb + unat KALLOC_SIZE} \<inter> page_bytes n = {}"
proof -
  have "kb + unat KALLOC_SIZE < 4096 * pool_first kb"
  proof -
    have "x < 4096 * (x div 4096 + 1)" for x :: nat
      by simp
    then show ?thesis
      by (simp only: pool_first_def)
  qed
  moreover have "pool_first kb \<le> n"
    using assms by simp
  ultimately show ?thesis
    by (auto simp: page_bytes_def)
qed

text \<open>After both, the heap owns its buffer, the page pool everything behind it, and they share no byte.\<close>

lemma heap_room: "new_bottom kb + 8 \<le> new_top kb (unat KALLOC_SIZE)"
  using align_upn_less [of 4 kb] by (simp add: new_bottom_def new_top_def KALLOC_SIZE_def)

lemma start_allocators_run:
  assumes kb: "0 < kb" "kb + unat KALLOC_SIZE \<le> addr_limit" and pa: "page_allocator s = PAGE_ALLOCATOR"
  shows "\<exists>s'. start_allocators b (word_of_nat kb) s = Ret () s' \<and>
    heap_rep s' (new_bottom kb) (new_top kb (unat KALLOC_SIZE))
      [(new_bottom kb, new_top kb (unat KALLOC_SIZE) - new_bottom kb)] {} \<and>
    pool_free s' (rev [pool_first kb..<pool_limit]) \<and> number_alloc (mx_cell (page_allocator s')) = 0 \<and>
    (\<forall>n\<in>{pool_first kb..<pool_limit}. {new_bottom kb..<new_top kb (unat KALLOC_SIZE)} \<inter> page_bytes n = {})"
proof -
  have lt: "kb + unat KALLOC_SIZE < 2 ^ 32"
    using kb(2) by (simp add: addr_limit_def)
  obtain t where t: "palloc_init b (word_of_nat kb) s = Ret () t" "pool_free t (rev [pool_first kb..<pool_limit])"
    "number_alloc (mx_cell (page_allocator t)) = 0"
    using palloc_init_run [OF lt pa, of b] by blast
  define u where "u = t\<lparr>uart := uart t @ concat (map str_bytes ([''kalloc buffer base: 0x'',
    lower_hex (unat (word_of_nat kb :: usize))] @ [newline]))\<rparr>"
  obtain s' where s': "Heap_init b (word_of_nat kb) (word_of_nat (unat KALLOC_SIZE)) u = Ret () s'"
    "heap_rep s' (new_bottom kb) (new_top kb (unat KALLOC_SIZE))
      [(new_bottom kb, new_top kb (unat KALLOC_SIZE) - new_bottom kb)] {}"
    "same_outside {new_bottom kb..<new_bottom kb + 8} (mem u) (mem s')"
    using Heap_init_run [OF kb heap_room, of b u] by blast
  note frame = Heap_init_frame [OF kb heap_room s'(1)]
  have pa': "page_allocator s' = page_allocator t"
    by (subst frame) (simp add: u_def)
  have inside: "{new_bottom kb..<new_top kb (unat KALLOC_SIZE)} \<subseteq> {0..<kb + unat KALLOC_SIZE}"
    by (auto simp: new_top_def)
  have apart: "{new_bottom kb..<new_top kb (unat KALLOC_SIZE)} \<inter> page_bytes n = {}"
    if "n \<in> {pool_first kb..<pool_limit}" for n
    using heap_region_pages [OF that] inside by blast
  have "pool_rep s' (rev [pool_first kb..<pool_limit])"
  proof (rule pool_rep_frame [of t])
    show "same_outside {new_bottom kb..<new_bottom kb + 8} (mem t) (mem s')"
      using s'(3) by (simp add: u_def)
    show "{new_bottom kb..<new_bottom kb + 8} \<inter> page_bytes n = {}"
      if "n \<in> set (rev [pool_first kb..<pool_limit])" for n
      using apart [of n] that heap_room [of kb] by fastforce
  qed (use t(2) pa' in \<open>simp_all add: pool_free_def\<close>)
  then have "pool_free s' (rev [pool_first kb..<pool_limit])"
    using t(2) by (simp add: pool_free_def pa')
  moreover have "start_allocators b (word_of_nat kb) s = Ret () s'"
    using t(1) s'(1) by (simp add: start_allocators_def bind_def [of "palloc_init b x" for x] kalloc_init_def
        LockedHeap_init_def u_def)
  ultimately show ?thesis
    using s'(2) apart t(3) pa' by auto
qed

text \<open>What they print, and that they touch nothing else.\<close>

definition allocators_log :: "nat \<Rightarrow> u8 list" where
  "allocators_log kb = palloc_log kb @ concat (map str_bytes [''kalloc buffer base: 0x'', lower_hex kb, newline])"

lemma start_allocators_frame:
  assumes kb: "0 < kb" "kb + unat KALLOC_SIZE \<le> addr_limit" and pa: "page_allocator s = PAGE_ALLOCATOR"
    and run: "start_allocators b (word_of_nat kb) s = Ret () s'"
  shows "uart s' = uart s @ allocators_log kb"
    and "s' = s\<lparr>page_allocator := page_allocator s', mem := mem s', uart := uart s', holes := holes s', used := used s'\<rparr>"
proof -
  have lt: "kb + unat KALLOC_SIZE < 2 ^ 32"
    using kb(2) by (simp add: addr_limit_def)
  obtain t where t: "palloc_init b (word_of_nat kb) s = Ret () t" and log: "uart t = uart s @ palloc_log kb"
    and t_frame: "t = s\<lparr>mem := mem t, uart := uart t, page_allocator := page_allocator t\<rparr>"
    using palloc_init_run [OF lt pa, of b] by blast
  define u where "u = t\<lparr>uart := uart t @ concat (map str_bytes ([''kalloc buffer base: 0x'',
    lower_hex (unat (word_of_nat kb :: usize))] @ [newline]))\<rparr>"
  have init: "Heap_init b (word_of_nat kb) (word_of_nat (unat KALLOC_SIZE)) u = Ret () s'"
    using t run by (simp add: start_allocators_def bind_def [of "palloc_init b x" for x] kalloc_init_def
        LockedHeap_init_def u_def)
  note frame = Heap_init_frame [OF kb heap_room init]
  show "uart s' = uart s @ allocators_log kb"
    using lt by (subst frame) (simp add: u_def log allocators_log_def)
  let ?f = "\<lambda>t. t\<lparr>mem := mem s', uart := uart s', holes := holes s', used := used s'\<rparr>"
  have pa': "page_allocator s' = page_allocator t"
    by (subst frame) (simp add: u_def)
  have "s' = ?f t"
    by (subst frame, subst (3) frame) (simp add: u_def)
  also have "\<dots> = ?f (s\<lparr>mem := mem t, uart := uart t, page_allocator := page_allocator t\<rparr>)"
    by (rule arg_cong [OF t_frame])
  finally show "s' = s\<lparr>page_allocator := page_allocator s', mem := mem s', uart := uart s', holes := holes s', used := used s'\<rparr>"
    by (simp add: pa')
qed

text \<open>
  C27. At boot, after the page allocator and the heap have been started, the heap owns its buffer as
  one hole, the pool holds every page behind it, and no free page shares a byte with the heap.
\<close>
theorem allocators_start_apart:
  assumes "0 < kb" and "kb + unat KALLOC_SIZE \<le> addr_limit" and "page_allocator s = PAGE_ALLOCATOR"
  shows "\<exists>s'. bind (palloc_init b (word_of_nat kb)) (\<lambda>_. kalloc_init b (word_of_nat kb)) s = Ret () s' \<and>
    heap_rep s' (new_bottom kb) (new_top kb (unat KALLOC_SIZE))
      [(new_bottom kb, new_top kb (unat KALLOC_SIZE) - new_bottom kb)] {} \<and>
    pool_free s' (rev [pool_first kb..<pool_limit]) \<and>
    (\<forall>n\<in>{pool_first kb..<pool_limit}. {new_bottom kb..<new_top kb (unat KALLOC_SIZE)} \<inter> page_bytes n = {})"
  using start_allocators_run [OF assms, of b] unfolding start_allocators_def by blast

lemma allocators_start_apart_witness:
  "\<exists>s'. bind (palloc_init Dev 0x80100000) (\<lambda>_. kalloc_init Dev 0x80100000)
      (demo_pool\<lparr>page_allocator := PAGE_ALLOCATOR\<rparr>) = Ret () s' \<and> pool_free s' (rev [532225..<532479])"
proof -
  have "pool_first 0x80100000 = 532225"
    by (simp add: pool_first_def KALLOC_SIZE_def)
  then show ?thesis
    using allocators_start_apart [of "0x80100000" "demo_pool\<lparr>page_allocator := PAGE_ALLOCATOR\<rparr>" Dev]
    by (auto simp: KALLOC_SIZE_def addr_limit_def pool_limit_value)
qed

end
