(* ===== verification/Trap.thy ===== *)
theory Trap
  imports Palloc
begin

text \<open>
  \<^verbatim>\<open>rust/src/trap.rs\<close> and \<^verbatim>\<open>rust/src/handler.rs\<close>: the saved registers of the user program, the trap
  vector, and what the kernel does with a trap. The trap cause and the exception program counter
  are read from control registers, so they are arguments; \<open>debug_exception\<close> stands for the text of
  the exception's \<^verbatim>\<open>Debug\<close> implementation, which belongs to the \<^verbatim>\<open>riscv\<close> crate.
\<close>

record Registers =
  r_ra :: usize
  r_sp :: usize
  r_gp :: usize
  r_tp :: usize
  r_t0 :: usize
  r_t1 :: usize
  r_t2 :: usize
  r_s0 :: usize
  r_s1 :: usize
  r_a0 :: usize
  r_a1 :: usize
  r_a2 :: usize
  r_a3 :: usize
  r_a4 :: usize
  r_a5 :: usize
  r_a6 :: usize
  r_a7 :: usize
  r_s2 :: usize
  r_s3 :: usize
  r_s4 :: usize
  r_s5 :: usize
  r_s6 :: usize
  r_s7 :: usize
  r_s8 :: usize
  r_s9 :: usize
  r_s10 :: usize
  r_s11 :: usize
  r_t3 :: usize
  r_t4 :: usize
  r_t5 :: usize
  r_t6 :: usize

definition Registers_default :: Registers where
  "Registers_default = \<lparr>r_ra = 0, r_sp = 0, r_gp = 0, r_tp = 0, r_t0 = 0, r_t1 = 0, r_t2 = 0, r_s0 = 0, r_s1 = 0, r_a0 = 0,
     r_a1 = 0, r_a2 = 0, r_a3 = 0, r_a4 = 0, r_a5 = 0, r_a6 = 0, r_a7 = 0, r_s2 = 0, r_s3 = 0, r_s4 = 0,
     r_s5 = 0, r_s6 = 0, r_s7 = 0, r_s8 = 0, r_s9 = 0, r_s10 = 0, r_s11 = 0, r_t3 = 0, r_t4 = 0, r_t5 =
     0, r_t6 = 0\<rparr>"

record TrapState =
  registers :: Registers
  mepc :: usize
  kernel_sp :: usize

section \<open>Control registers\<close>

datatype TrapMode = Direct | Vectored
datatype MPP = Machine | Supervisor | User

record kernel_state = palloc_state +
  csr_mtvec :: "usize \<times> TrapMode"
  csr_mpp :: MPP
  csr_mpie :: bool

text \<open>\<open>user_trap\<close> is the address of the assembly entry point.\<close>

definition trap_init :: "usize \<Rightarrow> ('x kernel_state_scheme, unit) prog" where
  "trap_init user_trap = modify (\<lambda>s. s\<lparr>csr_mtvec := (user_trap, Direct)\<rparr>)"

section \<open>The handler\<close>

datatype Trap = Exception nat | Interrupt nat

definition handler :: "profile \<Rightarrow> (nat \<Rightarrow> string) \<Rightarrow> Trap \<Rightarrow> usize \<Rightarrow> TrapState \<Rightarrow> ('x machine_scheme, TrapState) prog" where
  "handler b debug_exception cause mepc_csr state =
     (case cause of
        Exception e \<Rightarrow>
          bind (println [''mcause: exception at '', lower_hex (unat mepc_csr), '' '', debug_exception e]) (\<lambda>_.
          bind (usize_add b (mepc state) 4) (\<lambda>pc.
          ret (state\<lparr>mepc := pc\<rparr>)))
      | Interrupt _ \<Rightarrow> bind (println [''mcause: interrupt'']) (\<lambda>_. ret state))"

text \<open>The handler moves the program counter of the user past an exception and changes nothing else.\<close>

lemma handler_run:
  assumes "b = Release \<or> unat (mepc state) + 4 < 2 ^ 32"
  shows "\<exists>text. handler b debug_exception cause mepc_csr state s =
    Ret (case cause of Exception _ \<Rightarrow> state\<lparr>mepc := mepc state + 4\<rparr> | Interrupt _ \<Rightarrow> state) (s\<lparr>uart := uart s @ text\<rparr>)"
  using usize_add_fits [of b "mepc state" 4] assms
  by (auto simp: handler_def run_simps usize_add_fits split: Trap.split)

lemma handler_overflow:
  assumes "2 ^ 32 \<le> unat (mepc state) + 4"
  shows "handler Dev debug_exception (Exception e) mepc_csr state s = Panics ArithmeticOverflow"
  using assms by (simp add: handler_def usize_add_def run_simps)


end
