(* ===== verification/Kernel.thy ===== *)
theory Kernel
  imports Kalloc Trap
begin

text \<open>
  \<^verbatim>\<open>rust/src/main.rs\<close>: the start of the kernel and its loop, and the panic handler. The assembly
  \<^verbatim>\<open>run_user\<close>, which runs the user program until its next trap, and the control registers the trap
  handler reads are parameters, as are the addresses the linker gives to the heap buffer, the trap
  vector and \<^verbatim>\<open>user_main\<close>. \<^verbatim>\<open>mstatus::set_mpp\<close> and \<^verbatim>\<open>set_mpie\<close> set the fields of the state that
  stand for those bits.
\<close>

section \<open>The code\<close>

record 'x machine_env =
  env_run_user :: "TrapState \<Rightarrow> ('x kernel_state_scheme, TrapState) prog"
  env_mcause :: "'x kernel_state_scheme \<Rightarrow> Trap"
  env_mepc :: "'x kernel_state_scheme \<Rightarrow> usize"
  env_debug_exception :: "nat \<Rightarrow> string"

record image =
  im_kalloc_buffer :: usize
  im_user_trap :: usize
  im_user_main :: usize

definition set_mpp :: "MPP \<Rightarrow> ('x kernel_state_scheme, unit) prog" where
  "set_mpp m = modify (\<lambda>s. s\<lparr>csr_mpp := m\<rparr>)"

definition set_mpie :: "('x kernel_state_scheme, unit) prog" where
  "set_mpie = modify (\<lambda>s. s\<lparr>csr_mpie := True\<rparr>)"

definition loop_turn :: "profile \<Rightarrow> 'x machine_env \<Rightarrow> TrapState \<Rightarrow> ('x kernel_state_scheme, TrapState) prog" where
  "loop_turn b env state =
     bind (env_run_user env state) (\<lambda>state.
     bind (gets (env_mcause env)) (\<lambda>cause.
     bind (gets (env_mepc env)) (\<lambda>csr.
     handler b (env_debug_exception env) cause csr state)))"

partial_function (option) user_loop ::
  "profile \<Rightarrow> 'x machine_env \<Rightarrow> TrapState \<Rightarrow> 'x kernel_state_scheme \<Rightarrow> (panic + unit \<times> 'x kernel_state_scheme) option" where
  "user_loop b env state s = bind (loop_turn b env state) (\<lambda>state. user_loop b env state) s"

definition kernel_main :: "profile \<Rightarrow> 'x machine_env \<Rightarrow> image \<Rightarrow> ('x kernel_state_scheme, unit) prog" where
  "kernel_main b env im =
     bind (println [''started!'']) (\<lambda>_.
     bind (println [''DOoOM os'']) (\<lambda>_.
     bind (palloc_init b (im_kalloc_buffer im)) (\<lambda>_.
     bind (kalloc_init b (im_kalloc_buffer im)) (\<lambda>_.
     bind (trap_init (im_user_trap im)) (\<lambda>_.
     bind (set_mpp Machine) (\<lambda>_.
     bind set_mpie (\<lambda>_.
     bind (palloc_alloc b) (\<lambda>r.
     bind (unwrap_option r) (\<lambda>user_stack.
     let state = \<lparr>registers = Registers_default, mepc = im_user_main im, kernel_sp = 0\<rparr> in
     bind (println [''user_main: '', lower_hex (unat (mepc state))]) (\<lambda>_.
     bind (usize_mul b (PhyPageNum_into_usize user_stack) 4096) (\<lambda>p.
     bind (usize_add b p 4088) (\<lambda>sp.
     let state = state\<lparr>registers := (registers state)\<lparr>r_sp := sp\<rparr>\<rparr> in
     bind (print [''Hello world!'' @ newline]) (\<lambda>_.
     user_loop b env state)))))))))))))"

definition kernel_panic :: "string \<Rightarrow> ('x machine_scheme, 'a) prog" where
  "kernel_panic message =
     bind (println [CHR 0x1B # ''[31mKERNEL PANIC:'' @ CHR 0x1B # ''[0m '', message]) (\<lambda>_. hang)"

section \<open>The loop\<close>

lemma user_loop_never_returns: "user_loop b env state s \<noteq> Ret r s'"
proof
  assume ret: "user_loop b env state s = Ret r s'"
  have "\<exists>e. (Inr (r, s') :: panic + unit \<times> _) = Inl e"
  proof (rule user_loop.raw_induct [where P = "\<lambda>b env st s y. \<exists>e. y = Inl e", OF _ ret])
    fix loop and b env st s y
    assume ih: "\<And>b env st s y. loop b env st s = Some y \<Longrightarrow> \<exists>e. y = Inl e"
      and eq: "bind (loop_turn b env st) (\<lambda>st. loop b env st) s = Some y"
    then show "\<exists>e. y = Inl e"
      by (auto simp: bind_def split: option.splits sum.splits dest: ih)
  qed
  then show False
    by simp
qed

text \<open>A turn comes back when the user's part of it does: the release handler always returns.\<close>

lemma loop_turn_runs:
  assumes "env_run_user env st s = Ret st1 s1"
  shows "\<exists>st' s'. loop_turn Release env st s = Ret st' s'"
  using handler_run [of Release st1 "env_debug_exception env" "env_mcause env s1" "env_mepc env s1" s1] assms
  by (auto simp: loop_turn_def bind_def gets_def)

lemma user_loop_runs:
  assumes "\<And>st s. \<exists>st' s'. env_run_user env st s = Ret st' s'"
  shows "user_loop Release env state s = Hangs"
proof (cases "user_loop Release env state s")
  case (Some y)
  have "b = Release \<longrightarrow> env' = env \<longrightarrow> False" if "user_loop b env' st s = Some y" for b env' st s y
  proof (rule user_loop.raw_induct [where P = "\<lambda>b env' st s y. b = Release \<longrightarrow> env' = env \<longrightarrow> False", OF _ that])
    fix loop and b env' st s y
    assume ih: "\<And>b env' st s y. loop b env' st s = Some y \<Longrightarrow> b = Release \<longrightarrow> env' = env \<longrightarrow> False"
      and eq: "bind (loop_turn b env' st) (\<lambda>st. loop b env' st) s = Some y"
    have step: False if "b = Release" "env' = env"
    proof -
      obtain st' s' where "loop_turn Release env st s = Ret st' s'"
        using assms loop_turn_runs by blast
      then have "loop Release env st' s' = Some y"
        using eq that by (simp add: bind_def)
      then show False
        using ih by blast
    qed
    then show "b = Release \<longrightarrow> env' = env \<longrightarrow> False"
      by blast
  qed
  then show ?thesis
    using Some by blast
qed

text \<open>The first turns of the loop; the loop is these turns and then itself.\<close>

fun loop_turns :: "profile \<Rightarrow> 'x machine_env \<Rightarrow> nat \<Rightarrow> TrapState \<Rightarrow> ('x kernel_state_scheme, TrapState) prog" where
  "loop_turns b env 0 state = ret state"
| "loop_turns b env (Suc n) state = bind (loop_turn b env state) (loop_turns b env n)"

lemma user_loop_turns: "user_loop b env st = bind (loop_turns b env n st) (user_loop b env)"
proof (induction n arbitrary: st)
  case (Suc n)
  have "user_loop b env st = bind (loop_turn b env st) (user_loop b env)"
    by (rule ext) (rule user_loop.simps)
  also have "\<dots> = bind (loop_turn b env st) (\<lambda>st. bind (loop_turns b env n st) (user_loop b env))"
    by (rule arg_cong [where f = "bind (loop_turn b env st)"]) (rule ext, rule Suc.IH)
  finally show ?case
    by simp
qed simp

lemma loop_turns_Suc: "loop_turns b env (Suc n) st = bind (loop_turns b env n st) (loop_turn b env)"
proof (induction n arbitrary: st)
  case 0
  then show ?case
    by (simp add: bind_def ret_def fun_eq_iff split: option.split sum.split)
next
  case (Suc n)
  have "loop_turns b env (Suc n) = (\<lambda>st. bind (loop_turns b env n st) (loop_turn b env))"
    by (rule ext) (rule Suc.IH)
  then have "loop_turns b env (Suc (Suc n)) st = bind (loop_turn b env st) (\<lambda>st. bind (loop_turns b env n st) (loop_turn b env))"
    by (simp only: loop_turns.simps(2) [of b env "Suc n"])
  then show ?case
    by simp
qed

section \<open>Properties\<close>

lemma csr_frame [simp]:
  "heap_rep (s\<lparr>csr_mtvec := x, csr_mpp := y, csr_mpie := z\<rparr>) lo hi hs L \<longleftrightarrow> heap_rep s lo hi hs L"
  "pool_free (s\<lparr>csr_mtvec := x, csr_mpp := y, csr_mpie := z\<rparr>) ns \<longleftrightarrow> pool_free s ns"
  by (simp_all add: heap_rep_def list_rep_def pool_free_def pool_rep_def)

lemma uart_frame [simp]:
  "heap_rep (s\<lparr>uart := u\<rparr>) lo hi hs L \<longleftrightarrow> heap_rep s lo hi hs L" "pool_free (s\<lparr>uart := u\<rparr>) ns \<longleftrightarrow> pool_free s ns"
  by (simp_all add: heap_rep_def list_rep_def pool_free_def pool_rep_def)

lemma page_allocator_frame [simp]: "heap_rep (s\<lparr>page_allocator := p\<rparr>) lo hi hs L \<longleftrightarrow> heap_rep s lo hi hs L"
  by (simp add: heap_rep_def list_rep_def)

text \<open>The allocators are ready, and the pool hands out its last page for the stack.\<close>

lemma boot_allocators:
  assumes "0 < kb" and "kb + unat KALLOC_SIZE \<le> addr_limit" and "page_allocator u = PAGE_ALLOCATOR"
  shows "\<exists>s1. (\<forall>g :: unit \<Rightarrow> ('x kernel_state_scheme, unit) prog.
      bind (palloc_init b (word_of_nat kb)) (\<lambda>_. bind (kalloc_init b (word_of_nat kb)) g) u = g () s1) \<and>
    heap_rep s1 (new_bottom kb) (new_top kb (unat KALLOC_SIZE))
      [(new_bottom kb, new_top kb (unat KALLOC_SIZE) - new_bottom kb)] {} \<and>
    pool_free s1 (rev [pool_first kb..<pool_limit]) \<and> may_count b s1 \<and> uart s1 = uart u @ allocators_log kb \<and>
    kernel_state.more s1 = kernel_state.more u \<and>
    (\<forall>n\<in>{pool_first kb..<pool_limit}. {new_bottom kb..<new_top kb (unat KALLOC_SIZE)} \<inter> page_bytes n = {})"
proof -
  obtain s1 where s1: "start_allocators b (word_of_nat kb) u = Ret () s1"
    "heap_rep s1 (new_bottom kb) (new_top kb (unat KALLOC_SIZE))
      [(new_bottom kb, new_top kb (unat KALLOC_SIZE) - new_bottom kb)] {}"
    "pool_free s1 (rev [pool_first kb..<pool_limit])" "number_alloc (mx_cell (page_allocator s1)) = 0"
    and apart: "\<forall>n\<in>{pool_first kb..<pool_limit}. {new_bottom kb..<new_top kb (unat KALLOC_SIZE)} \<inter> page_bytes n = {}"
    using start_allocators_run [OF assms(1,2), of u b] assms(3) by auto
  note frame = start_allocators_frame [OF assms s1(1)]
  have more: "kernel_state.more s1 = kernel_state.more u"
    by (subst frame(2)) simp
  have "bind (palloc_init b (word_of_nat kb)) (\<lambda>_. bind (kalloc_init b (word_of_nat kb)) g) u = g () s1"
    for g :: "unit \<Rightarrow> ('x kernel_state_scheme, unit) prog"
  proof -
    have "bind (start_allocators b (word_of_nat kb)) g u = g () s1"
      using s1(1) by (simp add: bind_def)
    then show ?thesis
      by (simp add: start_allocators_def)
  qed
  then show ?thesis
    using s1(2-4) apart frame(1) more by (intro exI [of _ s1]) (simp add: may_count_def)
qed

lemma boot_stack:
  assumes "pool_free s (rev [pool_first kb..<pool_limit])" and "may_count b s" and "pool_first kb < pool_limit"
  shows "\<exists>s'. palloc_alloc b s = Ret (Some (page 532478)) s' \<and> pool_free s' (rev [pool_first kb..<532478]) \<and>
    s' = s\<lparr>page_allocator := page_allocator s'\<rparr>"
proof -
  have "rev [pool_first kb..<pool_limit] = 532478 # rev [pool_first kb..<532478]"
    using assms(3) upt_Suc_append [of "pool_first kb" 532478] by (simp add: pool_limit_value)
  then show ?thesis
    using palloc_alloc_run [OF assms(1,2)] by (auto simp: first_page_def)
qed

text \<open>The state of the user program when the loop starts, and what has been printed by then.\<close>

definition boot_state :: "image \<Rightarrow> TrapState" where
  "boot_state im = \<lparr>registers = Registers_default\<lparr>r_sp := word_of_nat (4096 * 532478 + 4088)\<rparr>,
     mepc = im_user_main im, kernel_sp = 0\<rparr>"

definition boot_log :: "nat \<Rightarrow> image \<Rightarrow> u8 list" where
  "boot_log kb im = concat (map str_bytes [''started!'', newline, ''DOoOM os'', newline]) @ allocators_log kb @
     concat (map str_bytes [''user_main: '', lower_hex (unat (im_user_main im)), newline, ''Hello world!'' @ newline])"

text \<open>The allocators, the trap vector and the privilege mode as the boot sequence leaves them.\<close>

definition kernel_ready :: "nat \<Rightarrow> image \<Rightarrow> 'x kernel_state_scheme \<Rightarrow> bool" where
  "kernel_ready kb im s \<longleftrightarrow>
     heap_rep s (new_bottom kb) (new_top kb (unat KALLOC_SIZE))
       [(new_bottom kb, new_top kb (unat KALLOC_SIZE) - new_bottom kb)] {} \<and>
     pool_free s (rev [pool_first kb..<532478]) \<and> csr_mtvec s = (im_user_trap im, Direct) \<and>
     csr_mpp s = Machine \<and> csr_mpie s"

lemma kernel_boot:
  assumes "im_kalloc_buffer im = word_of_nat kb" and "0 < kb" and "kb + unat KALLOC_SIZE \<le> addr_limit"
    and "pool_first kb < pool_limit" and "page_allocator s = PAGE_ALLOCATOR"
  shows "\<exists>s'. (\<forall>env. kernel_main b env im s = user_loop b env (boot_state im) s') \<and>
    uart s' = uart s @ boot_log kb im \<and> kernel_state.more s' = kernel_state.more s \<and>
    kernel_ready kb im s' \<and> {new_bottom kb..<new_top kb (unat KALLOC_SIZE)} \<inter> page_bytes 532478 = {}"
proof -
  let ?heap = "[(new_bottom kb, new_top kb (unat KALLOC_SIZE) - new_bottom kb)]"
  define u where "u = s\<lparr>uart := uart s @ concat (map str_bytes [''started!'', newline]) @
    concat (map str_bytes [''DOoOM os'', newline])\<rparr>"
  obtain s1 where boot: "\<And>g :: unit \<Rightarrow> ('a kernel_state_scheme, unit) prog.
      bind (palloc_init b (word_of_nat kb)) (\<lambda>_. bind (kalloc_init b (word_of_nat kb)) g) u = g () s1"
    and s1: "heap_rep s1 (new_bottom kb) (new_top kb (unat KALLOC_SIZE)) ?heap {}"
      "pool_free s1 (rev [pool_first kb..<pool_limit])" "may_count b s1"
      "uart s1 = uart u @ allocators_log kb" "kernel_state.more s1 = kernel_state.more u"
    and apart: "\<forall>n\<in>{pool_first kb..<pool_limit}. {new_bottom kb..<new_top kb (unat KALLOC_SIZE)} \<inter> page_bytes n = {}"
    using boot_allocators [OF assms(2,3), of u b] assms(5) by (auto simp: u_def)
  let ?s2 = "s1\<lparr>csr_mtvec := (im_user_trap im, Direct), csr_mpp := Machine, csr_mpie := True\<rparr>"
  have s2: "pool_free ?s2 (rev [pool_first kb..<pool_limit])" "may_count b ?s2"
    using s1(2,3) by (simp_all add: may_count_def)
  obtain s3 where run: "palloc_alloc b ?s2 = Ret (Some (page 532478)) s3" and pool3: "pool_free s3 (rev [pool_first kb..<532478])"
    and frame: "s3 = ?s2\<lparr>page_allocator := page_allocator s3\<rparr>"
    using boot_stack [OF s2 assms(4)] by blast
  have steps: "bind (println [''started!'']) (\<lambda>_. bind (println [''DOoOM os'']) g) s = g () u"
    "bind (trap_init (im_user_trap im)) (\<lambda>_. bind (set_mpp Machine) (\<lambda>_. bind set_mpie g)) s1 = g () ?s2"
    for g :: "unit \<Rightarrow> ('a kernel_state_scheme, unit) prog"
    by (simp_all add: u_def trap_init_def set_mpp_def set_mpie_def)
  have alloc: "bind (palloc_alloc b) g ?s2 = g (Some (page 532478)) s3" for g :: "PhyPageNum option \<Rightarrow> _"
    using run by (simp add: bind_def)
  let ?s' = "s3\<lparr>uart := uart s @ boot_log kb im\<rparr>"
  have out: "uart s3 = uart u @ allocators_log kb"
    using s1(4) by (subst frame) simp
  have "kernel_main b env im s = user_loop b env (boot_state im) ?s'" for env
    unfolding kernel_main_def steps assms(1) boot alloc unwrap_Some bind_ret Let_def
    by (simp add: page_def boot_state_def boot_log_def out u_def)
  moreover have "heap_rep s3 (new_bottom kb) (new_top kb (unat KALLOC_SIZE)) ?heap {}" "csr_mtvec s3 = (im_user_trap im, Direct)"
    "csr_mpp s3 = Machine" "csr_mpie s3" "kernel_state.more s3 = kernel_state.more s"
    using s1(1,5) by (subst frame, simp add: u_def)+
  moreover have "{new_bottom kb..<new_top kb (unat KALLOC_SIZE)} \<inter> page_bytes 532478 = {}"
    using apart assms(4) by (simp add: pool_limit_value)
  ultimately show ?thesis
    using pool3 by (intro exI [of _ ?s']) (simp add: kernel_ready_def)
qed

text \<open>
  C11. The kernel starts: from the state the loader leaves, with the heap buffer inside the memory, it
  initialises both allocators, the trap vector and the privilege mode, takes the last page but one
  of the memory as the user's stack (no longer in the pool, apart from the heap) and enters its
  loop with cleared registers, the stack pointer eight bytes below the end of that page and the program
  counter at \<^verbatim>\<open>user_main\<close>. Nothing before the loop panics, and the state in which the loop starts does
  not depend on what the user program and the traps will do.
\<close>
theorem kernel_starts:
  assumes "im_kalloc_buffer im = word_of_nat kb" and "0 < kb" and "kb + unat KALLOC_SIZE \<le> addr_limit"
    and "pool_first kb < pool_limit" and "page_allocator s = PAGE_ALLOCATOR"
  shows "\<exists>s'. (\<forall>env. kernel_main b env im s =
      user_loop b env \<lparr>registers = Registers_default\<lparr>r_sp := word_of_nat (4096 * 532478 + 4088)\<rparr>,
        mepc = im_user_main im, kernel_sp = 0\<rparr> s') \<and> uart s' = uart s @ boot_log kb im \<and>
    heap_rep s' (new_bottom kb) (new_top kb (unat KALLOC_SIZE))
      [(new_bottom kb, new_top kb (unat KALLOC_SIZE) - new_bottom kb)] {} \<and>
    pool_free s' (rev [pool_first kb..<532478]) \<and> csr_mtvec s' = (im_user_trap im, Direct) \<and>
    csr_mpp s' = Machine \<and> csr_mpie s' \<and> {4096 * 532478..<4096 * 532478 + 4088} \<subseteq> page_bytes 532478 \<and>
    {new_bottom kb..<new_top kb (unat KALLOC_SIZE)} \<inter> page_bytes 532478 = {}"
proof -
  have "{4096 * 532478..<4096 * 532478 + 4088} \<subseteq> page_bytes 532478"
    by (simp add: page_bytes_def)
  then show ?thesis
    using kernel_boot [OF assms, of b] unfolding boot_state_def kernel_ready_def by blast
qed

text \<open>An initial state, for the witnesses.\<close>

definition demo_kernel :: kernel_state where
  "demo_kernel = \<lparr>mem = \<lambda>_. 0, uart = [], holes = HoleList_empty, used = 0, page_allocator = PAGE_ALLOCATOR,
     csr_mtvec = (0, Direct), csr_mpp = User, csr_mpie = False\<rparr>"

definition demo_env :: "unit machine_env" where
  "demo_env = \<lparr>env_run_user = ret, env_mcause = \<lambda>_. Interrupt 7, env_mepc = \<lambda>_. 0, env_debug_exception = \<lambda>_. ''''\<rparr>"

definition demo_image :: image where
  "demo_image = \<lparr>im_kalloc_buffer = 0x80100000, im_user_trap = 0x80000100, im_user_main = 0x80001000\<rparr>"

lemma kernel_starts_witness:
  "\<exists>st s'. kernel_main Dev demo_env demo_image demo_kernel = user_loop Dev demo_env st s' \<and>
    r_sp (registers st) = 2181033976 \<and> csr_mpp s' = Machine"
proof -
  have "im_kalloc_buffer demo_image = word_of_nat 0x80100000" "page_allocator demo_kernel = PAGE_ALLOCATOR"
    by (simp_all add: demo_image_def demo_kernel_def)
  moreover have "pool_first 0x80100000 < pool_limit" "0x80100000 + unat KALLOC_SIZE \<le> addr_limit"
    by (simp_all add: pool_first_def pool_limit_value KALLOC_SIZE_def addr_limit_def)
  moreover have "(0 :: nat) < 0x80100000"
    by simp
  ultimately obtain s' where "kernel_main Dev demo_env demo_image demo_kernel = user_loop Dev demo_env
      \<lparr>registers = Registers_default\<lparr>r_sp := word_of_nat (4096 * 532478 + 4088)\<rparr>,
        mepc = im_user_main demo_image, kernel_sp = 0\<rparr> s'" "csr_mpp s' = Machine"
    using kernel_starts [of demo_image "0x80100000" demo_kernel Dev] by blast
  moreover have "r_sp (registers \<lparr>registers = Registers_default\<lparr>r_sp := word_of_nat (4096 * 532478 + 4088)\<rparr>,
      mepc = im_user_main demo_image, kernel_sp = 0\<rparr>) = 2181033976"
    by simp
  ultimately show ?thesis
    by blast
qed

text \<open>Programs whose last call never returns do not return.\<close>

lemma bind_never: "(\<And>x s r s'. g x s \<noteq> Ret r s') \<Longrightarrow> bind f g s \<noteq> Ret r s'"
  by (auto simp: bind_def split: option.splits sum.splits)

text \<open>
  C30. The kernel's loop never returns, whatever the user program and the traps do: it panics or runs
  for ever. In a release build it runs for ever as long as every turn of the user program ends in a
  trap. The panic handler prints its message and then runs for ever too.
\<close>
theorem kernel_never_returns:
  "kernel_main b env im s \<noteq> Ret r s' \<and>
   ((\<forall>st t. \<exists>st' t'. env_run_user env st t = Ret st' t') \<longrightarrow> user_loop Release env st t = Hangs) \<and>
   kernel_panic message s = Hangs"
proof -
  have "kernel_main b env im s \<noteq> Ret r s'"
    unfolding kernel_main_def Let_def by (intro bind_never user_loop_never_returns)
  moreover have "kernel_panic message s = Hangs"
    by (simp add: kernel_panic_def hang_def)
  ultimately show ?thesis
    using user_loop_runs [of env st t] by blast
qed

lemma kernel_never_returns_witness:
  "user_loop Release demo_env \<lparr>registers = Registers_default, mepc = 0, kernel_sp = 0\<rparr> demo_kernel = Hangs"
proof -
  have "\<forall>st t. \<exists>st' t'. env_run_user demo_env st t = Ret st' t'"
    by (simp add: demo_env_def ret_apply)
  then show ?thesis
    using kernel_never_returns [of Release demo_env demo_image demo_kernel "()" demo_kernel
      "\<lparr>registers = Registers_default, mepc = 0, kernel_sp = 0\<rparr>" demo_kernel "[]"] by blast
qed

end
