(* ===== verification/Bench.thy ===== *)
theory Bench
  imports Printer
begin

text \<open>
  The benchmarks of \<^verbatim>\<open>rust/src/main.rs\<close> and the turns of \<^verbatim>\<open>user_main\<close>. Vectors and linked lists are
  lists, a \<^verbatim>\<open>BTreeSet\<close> is a set; the memory they take from the global allocator is not part of this
  model. Floating-point operations are a parameter: \<open>f32_exact\<close> says what the standard says of them on
  small integers, where they are exact. The cycle counters are read through the crate \<^verbatim>\<open>riscv\<close>, so their
  values are parameters.
\<close>

section \<open>Searching in collections\<close>

definition u32_range :: "nat \<Rightarrow> u32 list" where
  "u32_range n = map word_of_nat [0..<n]"

definition found_line :: "usize \<Rightarrow> string list" where
  "found_line count = [''found '', decimal (unat count), '' elements in the list'']"

fun search_round :: "(u32 \<Rightarrow> usize \<Rightarrow> ('x machine_scheme, usize) prog) \<Rightarrow> u32 list \<Rightarrow> usize \<Rightarrow> ('x machine_scheme, usize) prog" where
  "search_round look [] count = ret count"
| "search_round look (i # is) count =
     bind (if count mod 100 = 0 then println (found_line count) else ret ()) (\<lambda>_.
     bind (look i count) (search_round look is))"

fun search_rounds :: "nat \<Rightarrow> (usize \<Rightarrow> ('s, usize) prog) \<Rightarrow> usize \<Rightarrow> ('s, usize) prog" where
  "search_rounds 0 body count = ret count"
| "search_rounds (Suc n) body count = bind (body count) (search_rounds n body)"

text \<open>\<^verbatim>\<open>for x in list.iter() {if x == &i {count += 1;}}\<close>\<close>

fun count_equal :: "profile \<Rightarrow> u32 list \<Rightarrow> u32 \<Rightarrow> usize \<Rightarrow> ('s, usize) prog" where
  "count_equal b [] i count = ret count"
| "count_equal b (x # xs) i count =
     bind (if x = i then usize_add b count 1 else ret count) (count_equal b xs i)"

definition linked_list_bench :: "profile \<Rightarrow> ('x machine_scheme, unit) prog" where
  "linked_list_bench b =
     (let sz = 1000; list = foldl (\<lambda>list i. list @ [i]) [] (u32_range sz) in
      bind (search_rounds 1 (search_round (count_equal b list) (u32_range sz)) 0) (\<lambda>count.
      println (found_line count)))"

definition vector_bench :: "profile \<Rightarrow> ('x machine_scheme, unit) prog" where
  "vector_bench b =
     (let sz = 1000; list = foldl (\<lambda>list i. list @ [i]) [] (u32_range sz) in
      bind (search_rounds 1 (search_round (count_equal b list) (u32_range sz)) 0) (\<lambda>count.
      println (found_line count)))"

definition btree_bench :: "profile \<Rightarrow> ('x machine_scheme, unit) prog" where
  "btree_bench b =
     (let sz = 1000; list = foldl (\<lambda>list i. insert i list) {} (u32_range sz) in
      bind (search_rounds 1 (search_round (\<lambda>i count. if i \<in> list then usize_add b count 1 else ret count) (u32_range sz)) 0)
        (\<lambda>count. println (found_line count)))"

section \<open>What they print\<close>

definition line_bytes :: "nat \<Rightarrow> u8 list" where
  "line_bytes k = concat (map str_bytes (found_line (word_of_nat k) @ [newline]))"

definition progress :: "nat \<Rightarrow> nat \<Rightarrow> u8 list" where
  "progress k n = concat (map line_bytes (filter (\<lambda>j. j mod 100 = 0) [k..<n]))"

lemma progress_step: "k < n \<Longrightarrow> progress k n = (if k mod 100 = 0 then line_bytes k else []) @ progress (Suc k) n"
  by (simp add: progress_def upt_conv_Cons)

lemma search_round_run:
  assumes "\<And>i k. i \<in> set is \<Longrightarrow> k < n \<Longrightarrow> look i (word_of_nat k) = ret (word_of_nat (Suc k))" and "n < 2 ^ 32"
  shows "length is + k = n \<Longrightarrow>
    search_round look is (word_of_nat k) s = Ret (word_of_nat n) (s\<lparr>uart := uart s @ progress k n\<rparr>)"
  using assms(1)
proof (induction "is" arbitrary: k s)
  case Nil
  then show ?case
    by (simp add: run_simps progress_def)
next
  case (Cons i "is")
  have k: "k < n" "unat (word_of_nat k mod 100 :: usize) = k mod 100"
    using Cons.prems(1) assms(2) by (simp_all add: unat_mod)
  have look: "look i (word_of_nat k) = ret (word_of_nat (Suc k))"
    using Cons.prems(2) k(1) by simp
  have zero: "word_of_nat k mod 100 = (0 :: usize) \<longleftrightarrow> k mod 100 = 0"
    unfolding k(2) [symmetric] by (simp only: unat_eq_zero)
  have ih: "search_round look is (word_of_nat (Suc k)) t = Ret (word_of_nat n) (t\<lparr>uart := uart t @ progress (Suc k) n\<rparr>)" for t
    using Cons.IH [of "Suc k" t] Cons.prems by simp
  show ?case
    using k(1) ih by (cases "k mod 100 = 0") (simp_all add: look zero progress_step line_bytes_def del: of_nat_Suc)
qed

lemma u32_range_mem: "n \<le> 2 ^ 32 \<Longrightarrow> distinct (u32_range n)" "k < n \<Longrightarrow> word_of_nat k \<in> set (u32_range n)"
  by (auto simp: u32_range_def distinct_map inj_on_def)

lemma usize_add_Suc: "k + 1 < 2 ^ 32 \<Longrightarrow> usize_add b (word_of_nat k) 1 = ret (word_of_nat (Suc k))"
  by (simp add: add.commute)

lemma count_equal_run:
  "k + length xs < 2 ^ 32 \<Longrightarrow> distinct xs \<Longrightarrow>
    count_equal b xs i (word_of_nat k) = ret (word_of_nat (if i \<in> set xs then Suc k else k))"
proof (induction xs arbitrary: k)
  case (Cons x xs)
  then show ?case
    using Cons.IH [of k] Cons.IH [of "Suc k"] Cons.prems
    by (cases "x = i") (auto simp: usize_add_Suc simp del: of_nat_Suc usize_add_ok)
qed simp

lemma pushed [simp]: "foldl (\<lambda>list i. list @ [i]) ys xs = ys @ xs" "foldl (\<lambda>list i. insert i list) A xs = A \<union> set xs"
  by (induction xs arbitrary: ys A) auto

lemma hundreds: "filter (\<lambda>j. j mod 100 = 0) [0..<100 * n + 1] = map (\<lambda>i. 100 * i) [0..<Suc n]"
proof (induction n)
  case (Suc n)
  have split: "[0..<100 * Suc n + 1] = [0..<100 * n + 1] @ [100 * n + 1..<100 * Suc n] @ [100 * Suc n]"
    using upt_add_eq_append [of 0 "100 * n + 1" 99] upt_Suc_append [of 0 "100 * Suc n"] by simp
  have "j mod 100 \<noteq> 0" if "j \<in> set [100 * n + 1..<100 * Suc n]" for j
  proof
    assume "j mod 100 = 0"
    then obtain q where "j = 100 * q"
      by (auto simp: dvd_eq_mod_eq_0 [symmetric])
    then have "100 * n < 100 * q \<and> 100 * q < 100 * n + 100"
      using that by auto
    then show False
      by presburger
  qed
  then have "filter (\<lambda>j. j mod 100 = 0) [100 * n + 1..<100 * Suc n] = []"
    by (auto simp: filter_empty_conv)
  then show ?case
    unfolding split filter_append Suc by simp
qed simp

lemma progress_lines: "progress 0 1000 @ line_bytes 1000 = concat (map line_bytes (map (\<lambda>i. 100 * i) [0..<11]))"
proof -
  have "[0..<100 * 10 + 1] = [0..<1000] @ [1000::nat]"
    by (simp only: mult_numeral_left_semiring_numeral flip: upt_Suc_append) simp
  then have "progress 0 1000 @ line_bytes 1000 = concat (map line_bytes (filter (\<lambda>j. j mod 100 = 0) [0..<100 * 10 + 1]))"
    by (simp add: progress_def del: upt_Suc)
  then show ?thesis
    by (simp only: hundreds) simp
qed


section \<open>Matrix multiplication\<close>

record 'f f32_ops =
  f_zero :: 'f
  f_one :: 'f
  f_add :: "'f \<Rightarrow> 'f \<Rightarrow> 'f"
  f_mul :: "'f \<Rightarrow> 'f \<Rightarrow> 'f"
  f_display :: "'f \<Rightarrow> string"

text \<open>A \<^verbatim>\<open>for\<close> loop over a list of indices that updates local variables.\<close>

fun for_each :: "'i list \<Rightarrow> ('i \<Rightarrow> 'a \<Rightarrow> ('s, 'a) prog) \<Rightarrow> 'a \<Rightarrow> ('s, 'a) prog" where
  "for_each [] body x = ret x"
| "for_each (i # is) body x = bind (body i x) (for_each is body)"

definition vec_index :: "'a list \<Rightarrow> nat \<Rightarrow> ('s, 'a) prog" where
  "vec_index v i = (if i < length v then ret (v ! i) else panic IndexOutOfBounds)"

text \<open>\<^verbatim>\<open>v[i].push(x)\<close> and \<^verbatim>\<open>v[i][j] += x\<close>.\<close>

definition push_row :: "'a list list \<Rightarrow> nat \<Rightarrow> 'a \<Rightarrow> ('s, 'a list list) prog" where
  "push_row v i x = bind (vec_index v i) (\<lambda>row. ret (v[i := row @ [x]]))"

definition add_at :: "'f f32_ops \<Rightarrow> 'f list list \<Rightarrow> nat \<Rightarrow> nat \<Rightarrow> 'f \<Rightarrow> ('s, 'f list list) prog" where
  "add_at F v i j x = bind (vec_index v i) (\<lambda>row. bind (vec_index row j) (\<lambda>a. ret (v[i := row[j := f_add F a x]])))"

text \<open>The bodies of the three loop nests.\<close>

definition fill_row :: "'f f32_ops \<Rightarrow> nat \<Rightarrow> nat \<Rightarrow> 'f list list \<times> 'f list list \<times> 'f list list \<times> 'f \<Rightarrow>
    ('s, 'f list list \<times> 'f list list \<times> 'f list list \<times> 'f) prog" where
  "fill_row F sz i = (\<lambda>(v1, v2, v3, acc).
     bind (for_each [0..<sz] (\<lambda>_ (v1, v2, v3).
       bind (push_row v1 i (f_zero F)) (\<lambda>v1.
       bind (push_row v2 i acc) (\<lambda>v2.
       bind (push_row v3 i acc) (\<lambda>v3.
       ret (v1, v2, v3))))) (v1 @ [[]], v2 @ [[]], v3 @ [[]])) (\<lambda>(v1, v2, v3).
     ret (v1, v2, v3, f_add F acc (f_one F))))"

definition mul_add :: "'f f32_ops \<Rightarrow> 'f list list \<Rightarrow> 'f list list \<Rightarrow> nat \<Rightarrow> nat \<Rightarrow> nat \<Rightarrow> 'f list list \<Rightarrow> ('s, 'f list list) prog" where
  "mul_add F v2 v3 i j k v1 =
     bind (vec_index v2 i) (\<lambda>row2. bind (vec_index row2 k) (\<lambda>x.
     bind (vec_index v3 k) (\<lambda>row3. bind (vec_index row3 j) (\<lambda>y.
     add_at F v1 i j (f_mul F x y)))))"

definition add_entry :: "'f f32_ops \<Rightarrow> 'f list list \<Rightarrow> nat \<Rightarrow> nat \<Rightarrow> 'f \<Rightarrow> ('s, 'f) prog" where
  "add_entry F v1 i j s0 = bind (vec_index v1 i) (\<lambda>row. bind (vec_index row j) (\<lambda>x. ret (f_add F s0 x)))"

definition matmul_bench :: "'f f32_ops \<Rightarrow> profile \<Rightarrow> ('x machine_scheme, unit) prog" where
  "matmul_bench F b =
     (let sz = 5 :: nat; size_word = 5 :: usize in
      bind (for_each [0..<sz] (fill_row F sz) ([], [], [], f_zero F)) (\<lambda>(v1, v2, v3, acc).
      bind (println [''acc: '', f_display F acc]) (\<lambda>_.
      bind (for_each [0..<sz] (\<lambda>i. for_each [0..<sz] (\<lambda>j. for_each [0..<sz] (mul_add F v2 v3 i j))) v1) (\<lambda>v1.
      bind (for_each [0..<sz] (\<lambda>i. for_each [0..<sz] (add_entry F v1 i)) (f_zero F)) (\<lambda>s0.
      bind (usize_mul b size_word size_word) (\<lambda>p.
      bind (usize_mul b p size_word) (\<lambda>p.
      bind (usize_sub b size_word 1) (\<lambda>q.
      bind (usize_mul b p q) (\<lambda>p.
      bind (usize_sub b size_word 1) (\<lambda>q.
      bind (usize_mul b p q) (\<lambda>p.
      println [''sum: '', f_display F s0, '' expected: '', decimal (unat (p div 4))])))))))))))"

text \<open>IEEE single precision is exact on the integers up to \<open>2 ^ 24\<close>, and shows them in decimal.\<close>

definition f32_exact :: "'f f32_ops \<Rightarrow> (nat \<Rightarrow> 'f) \<Rightarrow> bool" where
  "f32_exact F e \<longleftrightarrow> f_zero F = e 0 \<and> f_one F = e 1 \<and>
     (\<forall>a b. a + b \<le> 2 ^ 24 \<longrightarrow> f_add F (e a) (e b) = e (a + b)) \<and>
     (\<forall>a b. a * b \<le> 2 ^ 24 \<longrightarrow> f_mul F (e a) (e b) = e (a * b)) \<and>
     (\<forall>n \<le> 2 ^ 24. f_display F (e n) = decimal n)"

lemma f32_exactD:
  assumes "f32_exact F e"
  shows "f_zero F = e 0" "f_one F = e 1" "a + b \<le> 16777216 \<Longrightarrow> f_add F (e a) (e b) = e (a + b)"
    "a * b \<le> 16777216 \<Longrightarrow> f_mul F (e a) (e b) = e (a * b)" "n \<le> 16777216 \<Longrightarrow> f_display F (e n) = decimal n"
  using assms by (simp_all add: f32_exact_def)

text \<open>A loop from 0 to \<open>n\<close> that takes \<open>g k\<close> to \<open>g (k + 1)\<close> in turn \<open>k\<close> ends in \<open>g n\<close>.\<close>

lemma for_each_append [simp]: "for_each (xs @ ys) body x = bind (for_each xs body x) (for_each ys body)"
proof (induction xs arbitrary: x)
  case (Cons i xs)
  then have "for_each (xs @ ys) body = (\<lambda>x. bind (for_each xs body x) (for_each ys body))"
    by (rule ext)
  then show ?case
    by simp
qed simp

lemma for_each_run:
  assumes "\<And>k. k < n \<Longrightarrow> body k (g k) = ret (g (Suc k))"
  shows "for_each [0..<n] body (g 0) = ret (g n)"
  using assms
proof (induction n)
  case (Suc n)
  have "for_each [0..<n] body (g 0) = ret (g n)"
    by (rule Suc.IH) (simp add: Suc.prems)
  then show ?case
    using Suc.prems [of n] by simp
qed simp

text \<open>The matrices: a row of equal numbers per index, and the product while entry \<open>(i, j)\<close> is being summed.\<close>

definition rows :: "(nat \<Rightarrow> 'f) \<Rightarrow> nat \<Rightarrow> 'f list list" where
  "rows r n = map (\<lambda>i. replicate 5 (r i)) [0..<n]"

definition tri :: "nat \<Rightarrow> nat" where
  "tri k = k * (k - 1) div 2"

lemma tri_Suc: "tri 0 = 0" "tri (Suc k) = tri k + k"
proof -
  have "Suc k * k = k * (k - 1) + k * 2"
    by (cases k) simp_all
  then show "tri (Suc k) = tri k + k"
    by (simp add: tri_def)
qed (simp add: tri_def)

lemma tri_le: "k \<le> 5 \<Longrightarrow> tri k \<le> 10"
proof -
  assume "k \<le> 5"
  then have "k * (k - 1) \<le> 5 * 4"
    by (intro mult_mono) auto
  then show ?thesis
    by (simp add: tri_def)
qed

definition product_at :: "(nat \<Rightarrow> 'f) \<Rightarrow> nat \<Rightarrow> nat \<Rightarrow> nat \<Rightarrow> 'f list list" where
  "product_at e i j k = map (\<lambda>i'. map (\<lambda>j'. if i' < i \<or> i' = i \<and> j' < j then e (10 * i')
     else if i' = i \<and> j' = j then e (i * tri k) else e 0) [0..<5]) [0..<5]"

lemma push_zeros_run:
  assumes "f32_exact F e"
  shows "for_each [0..<5] (\<lambda>_ (v1, v2, v3). bind (push_row v1 i (e 0)) (\<lambda>v1. bind (push_row v2 i (e i)) (\<lambda>v2.
      bind (push_row v3 i (e i)) (\<lambda>v3. ret (v1, v2, v3))))) (rows (\<lambda>_. e 0) i @ [[]], rows e i @ [[]], rows e i @ [[]]) =
    ret (rows (\<lambda>_. e 0) (Suc i), rows e (Suc i), rows e (Suc i))"
proof -
  let ?g = "\<lambda>k. (rows (\<lambda>_. e 0) i @ [replicate k (e 0)], rows e i @ [replicate k (e i)], rows e i @ [replicate k (e i)])"
  have "for_each [0..<5] (\<lambda>_ (v1, v2, v3). bind (push_row v1 i (e 0)) (\<lambda>v1. bind (push_row v2 i (e i)) (\<lambda>v2.
      bind (push_row v3 i (e i)) (\<lambda>v3. ret (v1, v2, v3))))) (?g 0) = ret (?g 5)"
    by (rule for_each_run) (simp add: push_row_def vec_index_def rows_def nth_append replicate_append_same list_update_append)
  then show ?thesis
    by (simp add: rows_def)
qed

lemma fill_row_run:
  assumes F: "f32_exact F e" and "i < 5"
  shows "fill_row F 5 i (rows (\<lambda>_. e 0) i, rows e i, rows e i, e i) =
    ret (rows (\<lambda>_. e 0) (Suc i), rows e (Suc i), rows e (Suc i), e (Suc i))"
  using assms(2) by (simp add: fill_row_def f32_exactD [OF F] push_zeros_run [OF F])

lemma mul_add_run:
  assumes F: "f32_exact F e" and "i < 5" and "j < 5" and "k < 5"
  shows "mul_add F (rows e 5) (rows e 5) i j k (product_at e i j k) = ret (product_at e i j (Suc k))"
proof -
  have bound: "i * k \<le> 4 * 4" "i * tri k \<le> 4 * 10"
    using assms tri_le [of k] by (intro mult_mono; simp)+
  have "product_at e i j (Suc k) = (product_at e i j k)[i := (product_at e i j k ! i)[j := e (i * tri k + i * k)]]"
    using assms by (auto simp: product_at_def tri_Suc algebra_simps intro!: nth_equalityI simp: nth_list_update)
  then show ?thesis
    using assms bound by (simp add: mul_add_def vec_index_def add_at_def f32_exactD [OF F] rows_def) (simp add: product_at_def f32_exactD [OF F])
qed

lemma product_at_next: "product_at e i j 5 = product_at e i (Suc j) 0" "product_at e i 5 0 = product_at e (Suc i) 0 0"
  by (auto simp: product_at_def tri_def less_Suc_eq mult.commute)

lemma product_run:
  assumes F: "f32_exact F e"
  shows "for_each [0..<5] (\<lambda>i. for_each [0..<5] (\<lambda>j. for_each [0..<5] (mul_add F (rows e 5) (rows e 5) i j)))
    (product_at e 0 0 0) = ret (product_at e 5 0 0)"
proof (rule for_each_run)
  fix i :: nat assume i: "i < 5"
  have "for_each [0..<5] (\<lambda>j. for_each [0..<5] (mul_add F (rows e 5) (rows e 5) i j)) (product_at e i 0 0) = ret (product_at e i 5 0)"
  proof (rule for_each_run)
    fix j :: nat assume j: "j < 5"
    show "for_each [0..<5] (mul_add F (rows e 5) (rows e 5) i j) (product_at e i j 0) = ret (product_at e i (Suc j) 0)"
      unfolding product_at_next(1) [symmetric] by (rule for_each_run) (rule mul_add_run [OF F i j])
  qed
  then show "for_each [0..<5] (\<lambda>j. for_each [0..<5] (mul_add F (rows e 5) (rows e 5) i j)) (product_at e i 0 0) = ret (product_at e (Suc i) 0 0)"
    by (simp only: product_at_next(2))
qed

lemma sum_run:
  assumes F: "f32_exact F e"
  shows "for_each [0..<5] (\<lambda>i. for_each [0..<5] (add_entry F (product_at e 5 0 0) i)) (e 0) = ret (e 500)"
proof -
  have inner: "for_each [0..<5] (add_entry F (product_at e 5 0 0) i) (e (50 * tri i)) = ret (e (50 * tri (Suc i)))" if i: "i < 5" for i
  proof -
    have "for_each [0..<5] (add_entry F (product_at e 5 0 0) i) (e (50 * tri i + 10 * i * 0)) = ret (e (50 * tri i + 10 * i * 5))"
    proof (rule for_each_run)
      fix j :: nat assume j: "j < 5"
      have "10 * i * j \<le> 40 * 4"
        using i j by (intro mult_mono) simp_all
      then show "add_entry F (product_at e 5 0 0) i j (e (50 * tri i + 10 * i * j)) = ret (e (50 * tri i + 10 * i * Suc j))"
        using i j tri_le [of i] by (simp add: add_entry_def vec_index_def product_at_def f32_exactD [OF F] algebra_simps)
    qed
    then show ?thesis
      by (simp add: tri_Suc algebra_simps)
  qed
  show ?thesis
    using for_each_run [of 5 "\<lambda>i. for_each [0..<5] (add_entry F (product_at e 5 0 0) i)" "\<lambda>i. e (50 * tri i)", OF inner]
    by (simp add: tri_def)
qed

text \<open>
  The matrix benchmark computes the sum it expects: no index is out of range, no multiplication
  overflows, and it prints 500 twice.
\<close>

lemma matmul_sum_expected:
  assumes "f32_exact F e"
  shows "matmul_bench F b s = Ret () (s\<lparr>uart := uart s @ str_bytes (''acc: '' @ decimal 5 @ newline) @
    str_bytes (''sum: '' @ decimal 500 @ '' expected: '' @ decimal 500 @ newline)\<rparr>)"
proof -
  let ?rows = "\<lambda>i. (rows (\<lambda>_. e 0) i, rows e i, rows e i, e i)"
  have fill: "for_each [0..<5] (fill_row F 5) ([], [], [], e 0) = ret (?rows 5)"
    using for_each_run [of 5 "fill_row F 5" ?rows, OF fill_row_run [OF assms]] by (simp add: rows_def)
  have start: "rows (\<lambda>_. e 0) 5 = product_at e 0 0 0"
    by (auto simp: rows_def product_at_def intro!: nth_equalityI)
  show ?thesis
    unfolding matmul_bench_def Let_def f32_exactD(1) [OF assms] fill bind_ret prod.case start
    by (simp add: product_run [OF assms] sum_run [OF assms] f32_exactD [OF assms] println_def print_run str_bytes_def)
qed

section \<open>A turn of the user program\<close>

text \<open>
  The body of the loop of \<^verbatim>\<open>user_main\<close> up to its \<^verbatim>\<open>ecall\<close>. The arguments are what the reads of \<^verbatim>\<open>mcycle\<close> and
  \<^verbatim>\<open>minstret\<close> return before and after the benchmark.
\<close>

definition user_turn :: "'f f32_ops \<Rightarrow> profile \<Rightarrow> usize \<times> usize \<Rightarrow> usize \<times> usize \<Rightarrow> ('x machine_scheme, unit) prog" where
  "user_turn F b before after =
     bind (print [''Hello users!!!'' @ newline]) (\<lambda>_.
     bind (usize_sub b 0 (fst before)) (\<lambda>time.
     bind (usize_sub b 0 (snd before)) (\<lambda>instret.
     bind (matmul_bench F b) (\<lambda>_.
     bind (usize_add b time (fst after)) (\<lambda>time.
     bind (usize_add b instret (snd after)) (\<lambda>instret.
     println [''time: '', decimal (unat time), '' instret: '', decimal (unat instret)]))))))"

definition matmul_output :: "u8 list" where
  "matmul_output = str_bytes (''acc: '' @ decimal 5 @ newline) @ str_bytes (''sum: '' @ decimal 500 @ '' expected: '' @ decimal 500 @ newline)"

lemma user_turn_release:
  assumes "f32_exact F e"
  shows "user_turn F Release before after s = Ret () (s\<lparr>uart := uart s @ concat (map str_bytes [''Hello users!!!'' @ newline]) @
    matmul_output @ concat (map str_bytes [''time: '', decimal (unat (fst after - fst before)), '' instret: '',
      decimal (unat (snd after - snd before)), newline])\<rparr>)"
proof -
  have run: "bind (matmul_bench F b) g t = g () (t\<lparr>uart := uart t @ matmul_output\<rparr>)" for b g and t :: "'x machine_scheme"
    by (rule bind_Ret) (simp add: matmul_sum_expected [OF assms] matmul_output_def)
  show ?thesis
    by (simp add: user_turn_def usize_sub_def usize_add_def run println_def print_run)
qed

lemma user_turn_overflow: "before \<noteq> (0, 0) \<Longrightarrow> user_turn F Dev before after s = Panics ArithmeticOverflow"
  by (cases before) (auto simp: user_turn_def usize_sub_def run_simps unat_eq_zero)

text \<open>
  C31. A turn of the user program computes the sum it expects (500, the sum of the product matrix) without an
  index out of range, and reports the cycles and instructions that passed between the readings, modulo the width
  of the counters. That is the release build: in a development build the turn panics right after its
  greeting unless both counters read zero, because it subtracts them from 0.
\<close>
theorem user_turn_reports:
  assumes "f32_exact F e"
  shows "user_turn F Release before after s = Ret () (s\<lparr>uart := uart s @ str_bytes (''Hello users!!!'' @ newline) @ matmul_output @
      str_bytes (''time: '' @ decimal (unat (fst after - fst before)) @ '' instret: '' @ decimal (unat (snd after - snd before)) @ newline)\<rparr>) \<and>
    (before \<noteq> (0, 0) \<longrightarrow> user_turn F Dev before after s = Panics ArithmeticOverflow)"
proof (intro conjI impI)
  show "user_turn F Release before after s = Ret () (s\<lparr>uart := uart s @ str_bytes (''Hello users!!!'' @ newline) @ matmul_output @
      str_bytes (''time: '' @ decimal (unat (fst after - fst before)) @ '' instret: '' @ decimal (unat (snd after - snd before)) @ newline)\<rparr>)"
    by (simp add: user_turn_release [OF assms] str_bytes_def)
  show "user_turn F Dev before after s = Panics ArithmeticOverflow" if "before \<noteq> (0, 0)"
    using that by (rule user_turn_overflow)
qed

text \<open>The natural numbers themselves are exact.\<close>

definition nat_ops :: "nat f32_ops" where
  "nat_ops = \<lparr>f_zero = 0, f_one = 1, f_add = (+), f_mul = (*), f_display = decimal\<rparr>"

lemma user_turn_reports_witness:
  "user_turn nat_ops Release (2 ^ 32 - 1, 7) (4, 12) \<lparr>mem = \<lambda>_. 0, uart = []\<rparr> = Ret () \<lparr>mem = \<lambda>_. 0,
      uart = str_bytes (''Hello users!!!'' @ newline) @ matmul_output @ str_bytes (''time: 5 instret: 5'' @ newline)\<rparr> \<and>
   user_turn nat_ops Dev (1, 0) (4, 12) \<lparr>mem = \<lambda>_. 0, uart = []\<rparr> = Panics ArithmeticOverflow"
proof -
  have exact: "f32_exact nat_ops id"
    by (simp add: f32_exact_def nat_ops_def)
  show ?thesis
    using user_turn_reports [OF exact, of "(2 ^ 32 - 1, 7)" "(4, 12)" "\<lparr>mem = \<lambda>_. 0, uart = []\<rparr>"]
      user_turn_reports [OF exact, of "(1, 0)" "(4, 12)" "\<lparr>mem = \<lambda>_. 0, uart = []\<rparr>"]
    by (simp add: decimal.simps hex_digit_def)
qed

section \<open>The user program\<close>

text \<open>
  \<open>readings\<close> are the counter values turn by turn; \<^verbatim>\<open>ecall\<close> and \<^verbatim>\<open>cbo.clean\<close>, the two assembly
  instructions between turns, are parameters.
\<close>

record 'x user_env =
  ue_readings :: "nat \<Rightarrow> (usize \<times> usize) \<times> (usize \<times> usize)"
  ue_ecall :: "('x machine_scheme, unit) prog"
  ue_cbo_clean :: "usize \<Rightarrow> ('x machine_scheme, unit) prog"

partial_function (option) user_main ::
  "'f f32_ops \<Rightarrow> profile \<Rightarrow> 'x user_env \<Rightarrow> nat \<Rightarrow> 'x machine_scheme \<Rightarrow> (panic + unit \<times> 'x machine_scheme) option" where
  "user_main F b U n s =
     bind (user_turn F b (fst (ue_readings U n)) (snd (ue_readings U n))) (\<lambda>_.
     bind (ue_ecall U) (\<lambda>_.
     bind (ue_cbo_clean U 0) (\<lambda>_.
     user_main F b U (Suc n)))) s"

lemma user_main_never_returns: "user_main F b U n s \<noteq> Ret r s'"
proof
  assume ret: "user_main F b U n s = Ret r s'"
  have "\<exists>e. (Inr (r, s') :: panic + unit \<times> _) = Inl e"
  proof (rule user_main.raw_induct [where P = "\<lambda>F b U n s y. \<exists>e. y = Inl e", OF _ ret])
    fix loop and F b U n s y
    assume ih: "\<And>F b U n s y. loop F b U n s = Some y \<Longrightarrow> \<exists>e. y = Inl e"
      and eq: "bind (user_turn F b (fst (ue_readings U n)) (snd (ue_readings U n))) (\<lambda>_. bind (ue_ecall U) (\<lambda>_.
        bind (ue_cbo_clean U 0) (\<lambda>_. loop F b U (Suc n)))) s = Some y"
    then show "\<exists>e. y = Inl e"
      by (auto simp: bind_def split: option.splits sum.splits dest: ih)
  qed
  then show False
    by simp
qed

lemma user_turn_run: "f32_exact F e \<Longrightarrow> \<exists>printed. user_turn F Release before after s = Ret () (s\<lparr>uart := printed\<rparr>)"
  using user_turn_release by blast

lemma user_main_runs_forever:
  assumes F: "f32_exact F e" and "\<And>s. \<exists>s'. ue_ecall U s = Ret () s'" and "\<And>s. \<exists>s'. ue_cbo_clean U 0 s = Ret () s'"
  shows "user_main F Release U n s = Hangs"
proof (cases "user_main F Release U n s")
  case (Some y)
  have "b = Release \<longrightarrow> F' = F \<longrightarrow> U' = U \<longrightarrow> False" if "user_main F' b U' n s = Some y" for F' b U' n s y
  proof (rule user_main.raw_induct [where P = "\<lambda>F' b U' n s y. b = Release \<longrightarrow> F' = F \<longrightarrow> U' = U \<longrightarrow> False", OF _ that])
    fix loop and F' b U' n s y
    assume ih: "\<And>F' b U' n s y. loop F' b U' n s = Some y \<Longrightarrow> b = Release \<longrightarrow> F' = F \<longrightarrow> U' = U \<longrightarrow> False"
      and eq: "bind (user_turn F' b (fst (ue_readings U' n)) (snd (ue_readings U' n))) (\<lambda>_. bind (ue_ecall U') (\<lambda>_.
        bind (ue_cbo_clean U' 0) (\<lambda>_. loop F' b U' (Suc n)))) s = Some y"
    have False if "b = Release" "F' = F" "U' = U"
    proof -
      obtain printed where "user_turn F Release (fst (ue_readings U n)) (snd (ue_readings U n)) s = Ret () (s\<lparr>uart := printed\<rparr>)"
        using user_turn_run [OF F] by blast
      moreover obtain s1 where "ue_ecall U (s\<lparr>uart := printed\<rparr>) = Ret () s1"
        using assms(2) by blast
      moreover obtain s2 where "ue_cbo_clean U 0 s1 = Ret () s2"
        using assms(3) by blast
      ultimately have "loop F Release U (Suc n) s2 = Some y"
        using eq that by (simp add: bind_def)
      then show False
        using ih by blast
    qed
    then show "b = Release \<longrightarrow> F' = F \<longrightarrow> U' = U \<longrightarrow> False"
      by blast
  qed
  then show ?thesis
    using Some by blast
qed

text \<open>
  C32. The user program never returns. In a release build it runs for ever, turn after turn, as long as the two
  assembly instructions between turns complete; in a development build it panics in the first turn
  whose counters do not both read zero.
\<close>
theorem user_main_runs:
  assumes "f32_exact F e"
  shows "user_main F b U n s \<noteq> Ret r s' \<and>
    ((\<forall>s. \<exists>s'. ue_ecall U s = Ret () s') \<and> (\<forall>s. \<exists>s'. ue_cbo_clean U 0 s = Ret () s') \<longrightarrow>
      user_main F Release U n s = Hangs) \<and>
    (fst (ue_readings U n) \<noteq> (0, 0) \<longrightarrow> user_main F Dev U n s = Panics ArithmeticOverflow)"
proof -
  have "user_main F Dev U n s = Panics ArithmeticOverflow" if "fst (ue_readings U n) \<noteq> (0, 0)"
    by (subst user_main.simps) (simp add: bind_def user_turn_overflow [OF that])
  then show ?thesis
    using user_main_never_returns user_main_runs_forever [OF assms] by blast
qed

definition demo_user :: "unit user_env" where
  "demo_user = \<lparr>ue_readings = \<lambda>n. ((word_of_nat n, 1), (2, 3)), ue_ecall = ret (), ue_cbo_clean = \<lambda>_. ret ()\<rparr>"

lemma user_main_runs_witness:
  "user_main nat_ops Release demo_user 0 \<lparr>mem = \<lambda>_. 0, uart = []\<rparr> = Hangs \<and>
   user_main nat_ops Dev demo_user 0 \<lparr>mem = \<lambda>_. 0, uart = []\<rparr> = Panics ArithmeticOverflow"
proof -
  have exact: "f32_exact nat_ops id"
    by (simp add: f32_exact_def nat_ops_def)
  have "\<forall>s. \<exists>s'. ue_ecall demo_user s = Ret () s'" "\<forall>s. \<exists>s'. ue_cbo_clean demo_user 0 s = Ret () s'"
    "fst (ue_readings demo_user 0) \<noteq> (0, 0)"
    by (simp_all add: demo_user_def ret_apply)
  then show ?thesis
    using user_main_runs [OF exact, of Release demo_user 0 "\<lparr>mem = \<lambda>_. 0, uart = []\<rparr>" "()" "\<lparr>mem = \<lambda>_. 0, uart = []\<rparr>"] by blast
qed

end
