(* ===== verification/System.thy ===== *)
theory System
  imports Kernel Bench
begin

text \<open>
  The whole program of \<^verbatim>\<open>rust/src/main.rs\<close>: the boot sequence and the kernel's loop (\<open>Kernel\<close>) around the
  turns of the user program (\<open>Bench\<close>) and the trap handler (\<open>Trap\<close>). The assembly \<^verbatim>\<open>run_user\<close> resumes the
  user program at the saved program counter and comes back at its next trap, so a call of it is one
  turn of \<^verbatim>\<open>user_main\<close>, up to its only \<^verbatim>\<open>ecall\<close>; \<open>runs_user_program\<close> states this of the environment. The
  field \<open>turn\<close> is the position of the user program, the number of turns it has made.
\<close>

section \<open>The user program in the kernel's loop\<close>

record user_state = kernel_state +
  turn :: nat

text \<open>
  \<open>readings\<close> are the values of the cycle and instruction counters turn by turn, \<open>saved n\<close> what the trap
  vector saves at the end of turn \<open>n\<close>.
\<close>

definition run_user_turn ::
  "'f f32_ops \<Rightarrow> profile \<Rightarrow> (nat \<Rightarrow> (usize \<times> usize) \<times> (usize \<times> usize)) \<Rightarrow> (nat \<Rightarrow> TrapState) \<Rightarrow> (user_state, TrapState) prog" where
  "run_user_turn F b readings saved =
     bind (gets turn) (\<lambda>n.
     bind (user_turn F b (fst (readings n)) (snd (readings n))) (\<lambda>_.
     bind (modify (\<lambda>s. s\<lparr>turn := Suc n\<rparr>)) (\<lambda>_.
     ret (saved n))))"

definition runs_user_program ::
  "'f f32_ops \<Rightarrow> profile \<Rightarrow> (nat \<Rightarrow> (usize \<times> usize) \<times> (usize \<times> usize)) \<Rightarrow> (nat \<Rightarrow> TrapState) \<Rightarrow> usize \<Rightarrow> nat \<Rightarrow>
    unit user_state_ext machine_env \<Rightarrow> bool" where
  "runs_user_program F b readings saved pc e env \<longleftrightarrow>
     (\<forall>st s. env_run_user env st s = run_user_turn F b readings saved s) \<and>
     (\<forall>n. mepc (saved n) = pc) \<and> (\<forall>s. env_mepc env s = pc) \<and> (\<forall>s. env_mcause env s = Exception e)"

section \<open>The turns\<close>

definition turn_log :: "((usize \<times> usize) \<times> (usize \<times> usize)) \<Rightarrow> usize \<Rightarrow> string \<Rightarrow> u8 list" where
  "turn_log reading pc cause =
     concat (map str_bytes [''Hello users!!!'' @ newline]) @ matmul_output @
     concat (map str_bytes [''time: '', decimal (unat (fst (snd reading) - fst (fst reading))),
       '' instret: '', decimal (unat (snd (snd reading) - snd (fst reading))), newline]) @
     concat (map str_bytes [''mcause: exception at '', lower_hex (unat pc), '' '', cause, newline])"

definition state_after :: "(nat \<Rightarrow> TrapState) \<Rightarrow> nat \<Rightarrow> TrapState \<Rightarrow> TrapState" where
  "state_after saved n st = (if n = 0 then st else (saved (n - 1))\<lparr>mepc := mepc (saved (n - 1)) + 4\<rparr>)"

lemma loop_turn_log:
  assumes F: "f32_exact F e0" and env: "runs_user_program F Release readings saved pc e env" and "turn s = n"
  shows "loop_turn Release env st s = Ret ((saved n)\<lparr>mepc := mepc (saved n) + 4\<rparr>)
    (s\<lparr>uart := uart s @ turn_log (readings n) pc (env_debug_exception env e), turn := Suc n\<rparr>)"
  using env assms(3) unfolding runs_user_program_def
  by (simp add: loop_turn_def run_user_turn_def bind_def [of "env_run_user env st"] bind_def [of "user_turn F b x y" for b x y]
      user_turn_release [OF F] handler_def usize_add_def turn_log_def run_simps)

lemma loop_turns_log:
  assumes F: "f32_exact F e0" and env: "runs_user_program F Release readings saved pc e env" and s: "turn s = 0"
  shows "loop_turns Release env n st s = Ret (state_after saved n st)
    (s\<lparr>uart := uart s @ concat (map (\<lambda>k. turn_log (readings k) pc (env_debug_exception env e)) [0..<n]), turn := n\<rparr>)"
proof (induction n)
  case 0
  then show ?case
    using s by (simp add: run_simps state_after_def)
next
  case (Suc n)
  show ?case
    unfolding loop_turns_Suc
    by (simp add: bind_def Suc.IH loop_turn_log [OF F env] state_after_def)
qed

lemma turn_frame [simp]: "kernel_ready kb im (s\<lparr>uart := u, turn := n\<rparr>) \<longleftrightarrow> kernel_ready kb im s"
  by (simp add: kernel_ready_def heap_rep_def list_rep_def pool_free_def pool_rep_def)

section \<open>The whole run\<close>

lemma loop_turn_overflow:
  assumes "runs_user_program F Dev readings saved pc e env" and "fst (readings (turn s)) \<noteq> (0, 0)"
  shows "loop_turn Dev env st s = Panics ArithmeticOverflow"
  using assms unfolding runs_user_program_def
  by (simp add: loop_turn_def run_user_turn_def bind_def user_turn_overflow gets_def)


text \<open>A machine that satisfies the hypotheses.\<close>

definition demo_system :: user_state where
  "demo_system = \<lparr>mem = \<lambda>_. 0, uart = [], holes = HoleList_empty, used = 0, page_allocator = PAGE_ALLOCATOR,
     csr_mtvec = (0, Direct), csr_mpp = User, csr_mpie = False, turn = 0\<rparr>"

definition demo_readings :: "nat \<Rightarrow> (usize \<times> usize) \<times> (usize \<times> usize)" where
  "demo_readings n = ((7, 5), (word_of_nat n + 9, 6))"

definition demo_saved :: "nat \<Rightarrow> TrapState" where
  "demo_saved n = \<lparr>registers = Registers_default, mepc = 0x80001200, kernel_sp = 0\<rparr>"

definition demo_machine :: "profile \<Rightarrow> unit user_state_ext machine_env" where
  "demo_machine b = \<lparr>env_run_user = \<lambda>_. run_user_turn nat_ops b demo_readings demo_saved,
     env_mcause = \<lambda>_. Exception 11, env_mepc = \<lambda>_. 0x80001200, env_debug_exception = \<lambda>_. ''MachineEnvCall''\<rparr>"

lemma demo_machine_runs: "runs_user_program nat_ops b demo_readings demo_saved 0x80001200 11 (demo_machine b)"
  by (simp add: runs_user_program_def demo_machine_def demo_saved_def)


end
