(* ===== verification/Fixed.thy ===== *)
theory Fixed
  imports Prelude
begin

text \<open>
  \<^verbatim>\<open>rust/src/fixed.rs\<close>: fixed point numbers with sixteen fraction bits in an \<^verbatim>\<open>i32\<close>. Signed
  arithmetic panics on overflow in a development build and wraps in a release build.
\<close>

type_synonym i16 = "16 word"
type_synonym i32 = "32 word"

definition in_i32 :: "int \<Rightarrow> bool" where
  "in_i32 z \<longleftrightarrow> - 2147483648 \<le> z \<and> z < 2147483648"

definition i32_add :: "profile \<Rightarrow> i32 \<Rightarrow> i32 \<Rightarrow> ('s, i32) prog" where
  "i32_add b x y = (if b = Dev \<and> \<not> in_i32 (sint x + sint y) then panic ArithmeticOverflow else ret (x + y))"

definition i32_sub :: "profile \<Rightarrow> i32 \<Rightarrow> i32 \<Rightarrow> ('s, i32) prog" where
  "i32_sub b x y = (if b = Dev \<and> \<not> in_i32 (sint x - sint y) then panic ArithmeticOverflow else ret (x - y))"

definition i32_neg :: "profile \<Rightarrow> i32 \<Rightarrow> ('s, i32) prog" where
  "i32_neg b x = (if b = Dev \<and> \<not> in_i32 (- sint x) then panic ArithmeticOverflow else ret (- x))"

section \<open>The type and its operators\<close>

record Fixed32 =
  fx_bytes :: i32

definition Fixed32_new :: "profile \<Rightarrow> i16 \<Rightarrow> u16 \<Rightarrow> ('s, Fixed32) prog" where
  "Fixed32_new b i frac =
     bind (i32_add b (push_bit 16 (scast i)) (ucast frac)) (\<lambda>r. ret \<lparr>fx_bytes = r\<rparr>)"

definition Fixed32_add :: "profile \<Rightarrow> Fixed32 \<Rightarrow> Fixed32 \<Rightarrow> ('s, Fixed32) prog" where
  "Fixed32_add b self other = bind (i32_add b (fx_bytes self) (fx_bytes other)) (\<lambda>r. ret \<lparr>fx_bytes = r\<rparr>)"

definition Fixed32_add_assign :: "profile \<Rightarrow> Fixed32 \<Rightarrow> Fixed32 \<Rightarrow> ('s, Fixed32) prog" where
  "Fixed32_add_assign b self other = Fixed32_add b self other"

definition Fixed32_sub :: "profile \<Rightarrow> Fixed32 \<Rightarrow> Fixed32 \<Rightarrow> ('s, Fixed32) prog" where
  "Fixed32_sub b self other = bind (i32_sub b (fx_bytes self) (fx_bytes other)) (\<lambda>r. ret \<lparr>fx_bytes = r\<rparr>)"

definition Fixed32_sub_assign :: "profile \<Rightarrow> Fixed32 \<Rightarrow> Fixed32 \<Rightarrow> ('s, Fixed32) prog" where
  "Fixed32_sub_assign b self other = Fixed32_sub b self other"

definition Fixed32_neg :: "profile \<Rightarrow> Fixed32 \<Rightarrow> ('s, Fixed32) prog" where
  "Fixed32_neg b self = bind (i32_neg b (fx_bytes self)) (\<lambda>r. ret \<lparr>fx_bytes = r\<rparr>)"

text \<open>The derived order is that of the signed field.\<close>

definition Fixed32_le :: "Fixed32 \<Rightarrow> Fixed32 \<Rightarrow> bool" where
  "Fixed32_le x y \<longleftrightarrow> sint (fx_bytes x) \<le> sint (fx_bytes y)"

section \<open>What they compute\<close>

text \<open>The number a value stands for, in units of \<open>2 ^ -16\<close>.\<close>

definition scaled :: "Fixed32 \<Rightarrow> int" where
  "scaled f = sint (fx_bytes f)"

lemma sint_range: "in_i32 (sint (x::i32))"
  using sint_greater_eq [of x] sint_less [of x] by (simp add: in_i32_def)

lemma sint_of_int: "in_i32 z \<Longrightarrow> sint (word_of_int z :: i32) = z"
  by (simp add: in_i32_def signed_of_int signed_take_bit_int_eq_self)

lemma sint_exact:
  "in_i32 (sint x + sint y) \<Longrightarrow> sint (x + y :: i32) = sint x + sint y"
  "in_i32 (sint x - sint y) \<Longrightarrow> sint (x - y :: i32) = sint x - sint y"
  "in_i32 (- sint x) \<Longrightarrow> sint (- x :: i32) = - sint x"
  using sint_of_int [of "sint x + sint y"] sint_of_int [of "sint x - sint y"] sint_of_int [of "- sint x"]
  by simp_all

lemma i32_cases:
  "in_i32 (sint x + sint y) \<Longrightarrow> i32_add b x y = ret (x + y)"
  "\<not> in_i32 (sint x + sint y) \<Longrightarrow> i32_add Dev x y = panic ArithmeticOverflow"
  "in_i32 (sint x - sint y) \<Longrightarrow> i32_sub b x y = ret (x - y)"
  "\<not> in_i32 (sint x - sint y) \<Longrightarrow> i32_sub Dev x y = panic ArithmeticOverflow"
  "in_i32 (- sint x) \<Longrightarrow> i32_neg b x = ret (- x)"
  "\<not> in_i32 (- sint x) \<Longrightarrow> i32_neg Dev x = panic ArithmeticOverflow"
  "i32_add Release x y = ret (x + y)" "i32_sub Release x y = ret (x - y)" "i32_neg Release x = ret (- x)"
  by (simp_all add: i32_add_def i32_sub_def i32_neg_def)

lemma fixed_parts:
  "sint (push_bit 16 (scast (i::i16)) :: i32) = sint i * 65536" "sint (ucast (f::u16) :: i32) = uint f"
proof -
  have i: "- 32768 \<le> sint i" "sint i < 32768"
    using sint_greater_eq [of i] sint_less [of i] by simp_all
  have "push_bit 16 (scast i :: i32) = word_of_int (sint i * 65536)"
    by (simp add: push_bit_eq_mult mult.commute)
  moreover have "in_i32 (sint i * 65536)"
    using i by (simp add: in_i32_def)
  ultimately show "sint (push_bit 16 (scast i) :: i32) = sint i * 65536"
    by (simp only: sint_of_int)
  have "in_i32 (uint f)"
    using uint_bounded [of f] order_trans [OF _ uint_ge_0 [of f], of "- 2147483648"] by (simp add: in_i32_def)
  moreover have "(ucast f :: i32) = word_of_int (uint f)"
    by simp
  ultimately show "sint (ucast f :: i32) = uint f"
    by (simp only: sint_of_int)
qed

text \<open>Every pair of an integer and a fraction is a number: \<^verbatim>\<open>new\<close> cannot overflow.\<close>

lemma Fixed32_new_run: "\<exists>x. Fixed32_new b i f s = Ret x s \<and> scaled x = sint i * 65536 + uint f"
proof -
  have "- 32768 \<le> sint i" "sint i < 32768" "uint f < 65536" "0 \<le> uint f"
    using sint_greater_eq [of i] sint_less [of i] uint_bounded [of f] by simp_all
  then have "in_i32 (sint (push_bit 16 (scast i) :: i32) + sint (ucast f :: i32))"
    unfolding fixed_parts in_i32_def by (intro conjI) linarith+
  then show ?thesis
    by (simp add: Fixed32_new_def i32_cases(1) scaled_def sint_exact fixed_parts run_simps)
qed

lemma Fixed32_ops_exact:
  "in_i32 (scaled x + scaled y) \<Longrightarrow> \<exists>z. Fixed32_add b x y s = Ret z s \<and> scaled z = scaled x + scaled y"
  "in_i32 (scaled x - scaled y) \<Longrightarrow> \<exists>z. Fixed32_sub b x y s = Ret z s \<and> scaled z = scaled x - scaled y"
  "in_i32 (- scaled x) \<Longrightarrow> \<exists>z. Fixed32_neg b x s = Ret z s \<and> scaled z = - scaled x"
  by (simp_all add: Fixed32_add_def Fixed32_sub_def Fixed32_neg_def scaled_def i32_cases sint_exact run_simps)

lemma Fixed32_ops_overflow:
  "\<not> in_i32 (scaled x + scaled y) \<Longrightarrow> Fixed32_add Dev x y = panic ArithmeticOverflow"
  "\<not> in_i32 (scaled x - scaled y) \<Longrightarrow> Fixed32_sub Dev x y = panic ArithmeticOverflow"
  "\<not> in_i32 (- scaled x) \<Longrightarrow> Fixed32_neg Dev x = panic ArithmeticOverflow"
  by (simp_all add: Fixed32_add_def Fixed32_sub_def Fixed32_neg_def scaled_def i32_cases)

lemma Fixed32_wrap:
  "bind (Fixed32_add Release x y) (\<lambda>z. Fixed32_sub Release z y) = ret x"
  "bind (Fixed32_neg Release x) (Fixed32_neg Release) = ret x"
  by (cases x, simp add: Fixed32_add_def Fixed32_sub_def Fixed32_neg_def i32_cases)+

text \<open>
  C39. Fixed-point arithmetic is exact wherever the result is representable, in both builds, and a
  development build panics exactly where it is not.
\<close>
theorem fixed_arithmetic_exact:
  "(if in_i32 (scaled x + scaled y) then \<exists>z. Fixed32_add b x y s = Ret z s \<and> scaled z = scaled x + scaled y
    else b = Release \<or> Fixed32_add b x y s = Panics ArithmeticOverflow) \<and>
   (if in_i32 (scaled x - scaled y) then \<exists>z. Fixed32_sub b x y s = Ret z s \<and> scaled z = scaled x - scaled y
    else b = Release \<or> Fixed32_sub b x y s = Panics ArithmeticOverflow) \<and>
   (if in_i32 (- scaled x) then \<exists>z. Fixed32_neg b x s = Ret z s \<and> scaled z = - scaled x
    else b = Release \<or> Fixed32_neg b x s = Panics ArithmeticOverflow)"
  using Fixed32_ops_exact(1,2) [of x y b s] Fixed32_ops_exact(3) [of x b s]
  by (cases b) (auto simp: Fixed32_ops_overflow panic_apply)

text \<open>
  Every integer part and fraction make a number: \<^verbatim>\<open>new\<close> returns in both builds, its value is
  \<open>int + frac / 2 ^ 16\<close>, and different arguments make different numbers.
\<close>
lemma fixed_new_total:
  "\<exists>x. Fixed32_new b i f s = Ret x s \<and> scaled x = sint i * 65536 + uint f \<and>
    scaled x div 65536 = sint i \<and> scaled x mod 65536 = uint f"
proof -
  have "0 \<le> uint f" "uint f < 65536"
    using uint_bounded [of f] by simp_all
  then show ?thesis
    using Fixed32_new_run [of b i f s] by auto
qed

text \<open>In a release build, where arithmetic wraps, subtracting what was added gives the number back.\<close>
lemma fixed_add_sub_release:
  "bind (Fixed32_add Release x y) (\<lambda>z. Fixed32_sub Release z y) s = Ret x s"
  by (simp only: Fixed32_wrap) (simp add: run_simps)

end
