(* ===== verification/Screen.thy ===== *)
theory Screen
  imports Pointer Memory
begin

text \<open>
  \<^verbatim>\<open>rust/src/screen.rs\<close>: a pixel packs three bits of red, three of green and two of blue into one
  byte; the frame buffer is the memory from \<^verbatim>\<open>SCREEN_BASE\<close> on, 320 pixels a line.
\<close>

definition SCREEN_BASE :: usize where
  "SCREEN_BASE = 0x40000000"

definition RED_GREEN_PALETTE :: "u8 list" where
  "RED_GREEN_PALETTE = [0x0, 0x24, 0x49, 0x6d, 0x92, 0xb6, 0xdb, 0xff]"

definition BLUE_PALETTE :: "u8 list" where
  "BLUE_PALETTE = [0x0, 0x55, 0xaa, 0xff]"

record Pixel =
  px_byte :: u8

definition Pixel_new :: "u8 \<Rightarrow> u8 \<Rightarrow> u8 \<Rightarrow> Pixel" where
  "Pixel_new red green blue =
     (let green = drop_bit 3 (green AND 0xE0); red = red AND 0xE0; blue = drop_bit 6 blue
      in \<lparr>px_byte = red OR green OR blue\<rparr>)"

text \<open>Indexing an array panics outside it; the masks keep the index inside.\<close>

definition array_index :: "u8 list \<Rightarrow> usize \<Rightarrow> ('s, u8) prog" where
  "array_index xs i = (if unat i < length xs then ret (xs ! unat i) else panic IndexOutOfBounds)"

definition Pixel_red :: "Pixel \<Rightarrow> ('s, u8) prog" where
  "Pixel_red self = array_index RED_GREEN_PALETTE (ucast (drop_bit 5 (px_byte self)))"

definition Pixel_green :: "Pixel \<Rightarrow> ('s, u8) prog" where
  "Pixel_green self = array_index RED_GREEN_PALETTE (ucast (drop_bit 2 (px_byte self) AND 7))"

definition Pixel_blue :: "Pixel \<Rightarrow> ('s, u8) prog" where
  "Pixel_blue self = array_index BLUE_PALETTE (ucast (px_byte self AND 3))"

definition Pixel_write_frame_buffer :: "profile \<Rightarrow> Pixel \<Rightarrow> usize \<Rightarrow> usize \<Rightarrow> ('x machine_scheme, unit) prog" where
  "Pixel_write_frame_buffer b self x y =
     (let screen = PhysAddr_as_slice_mut (PhysAddr_from_usize SCREEN_BASE) (320 * 240) in
      bind (usize_mul b y 320) (\<lambda>row.
      bind (usize_add b x row) (\<lambda>i.
      bind (slice_index screen size_of_u8 i) (\<lambda>p.
      modify (\<lambda>s. s\<lparr>mem := (mem s)(p := px_byte self)\<rparr>)))))"

section \<open>Colours\<close>

lemma unat_u8_lt: "unat (x::u8) < 256"
  using unsigned_less [of x] by simp

lemma unat_u8_div: "unat (x::u8) div 32 < 8" "unat x div 64 < 4"
  using unat_u8_lt [of x] by (simp_all add: less_mult_imp_div_less)

lemma unat_drop_8: "unat (drop_bit k (x::u8)) = unat x div 2 ^ k"
  using unat_u8_lt [of x]
  by (simp only: unsigned_drop_bit_eq) (simp add: drop_bit_eq_div take_bit_nat_eq_self)

lemma unat_and_mask_8: "k \<le> 8 \<Longrightarrow> unat ((x::u8) AND mask k) = unat x mod 2 ^ k"
  by (simp only: take_bit_eq_mask [symmetric] unsigned_take_bit_eq) (simp add: take_bit_eq_mod)

lemma mask_8: "(7::u8) = mask 3" "(3::u8) = mask 2"
  by (simp_all add: mask_eq_decr_exp)

text \<open>The components of a pixel, as indices of the palettes.\<close>

lemma pixel_indices:
  "unat (ucast (drop_bit 5 (p::u8)) :: usize) = unat p div 32"
  "unat (ucast (drop_bit 2 p AND 7) :: usize) = unat p div 4 mod 8"
  "unat (ucast (p AND 3) :: usize) = unat p mod 4"
proof -
  have up: "unat (ucast x :: usize) = unat x" for x :: u8
    using unat_u8_lt [of x] by (simp add: unsigned_ucast_eq take_bit_nat_eq_self)
  show "unat (ucast (drop_bit 5 (p::u8)) :: usize) = unat p div 32"
    "unat (ucast (drop_bit 2 p AND 7) :: usize) = unat p div 4 mod 8"
    "unat (ucast (p AND 3) :: usize) = unat p mod 4"
    unfolding mask_8 up by (simp_all add: unat_drop_8 unat_and_mask_8)
qed

lemma palette_length: "length RED_GREEN_PALETTE = 8" "length BLUE_PALETTE = 4"
  by (simp_all add: RED_GREEN_PALETTE_def BLUE_PALETTE_def)

lemma Pixel_components:
  "Pixel_red p = ret (RED_GREEN_PALETTE ! (unat (px_byte p) div 32))"
  "Pixel_green p = ret (RED_GREEN_PALETTE ! (unat (px_byte p) div 4 mod 8))"
  "Pixel_blue p = ret (BLUE_PALETTE ! (unat (px_byte p) mod 4))"
  using unat_u8_div [of "px_byte p"]
  by (simp_all add: Pixel_red_def Pixel_green_def Pixel_blue_def array_index_def pixel_indices palette_length)

text \<open>A pixel packs the top bits of its colours.\<close>

lemma Pixel_new_bits:
  "px_byte (Pixel_new r g b) = push_bit 5 (drop_bit 5 r) + push_bit 2 (drop_bit 5 g) + drop_bit 6 b"
proof -
  have m: "(224 :: u8) = push_bit 5 (mask 3)"
    by (simp add: push_bit_eq_mult mask_eq_decr_exp)
  have high: "x AND 224 = push_bit 5 (drop_bit 5 x)" for x :: u8
    unfolding m by (auto intro!: bit_word_eqI simp: bit_simps)
  have "drop_bit 3 (push_bit 5 y) = push_bit 2 y" if "unat y < 8" for y :: u8
  proof -
    have "unat (push_bit 5 y) = unat y * 32" "unat (push_bit 2 y) = unat y * 4"
      using that by (simp_all add: push_bit_eq_mult unat_word_ariths)
    then have "unat (drop_bit 3 (push_bit 5 y)) = unat (push_bit 2 y)"
      by (simp add: unat_drop_8)
    then show ?thesis
      by (rule unsigned_word_eqI)
  qed
  then have "r AND 224 = push_bit 5 (drop_bit 5 r)" "drop_bit 3 (g AND 224) = push_bit 2 (drop_bit 5 g)"
    using unat_u8_div(1) [of g] by (simp_all add: high unat_drop_8)
  then have "px_byte (Pixel_new r g b) = push_bit 5 (drop_bit 5 r) OR push_bit 2 (drop_bit 5 g) OR drop_bit 6 b"
    by (simp add: Pixel_new_def)
  also have "\<dots> = push_bit 5 (drop_bit 5 r) + (push_bit 2 (drop_bit 5 g) + drop_bit 6 b)"
  proof -
    have low: "n < 2" if "bit b (6 + n)" for n
      using bit_imp_le_length [OF that] by simp
    have mid: "n < 5" if "bit g (5 + (n - 2))" "2 \<le> n" for n
      using bit_imp_le_length [OF that(1)] that(2) by simp
    have "push_bit 2 (drop_bit 5 g) AND drop_bit 6 b = 0"
      using low by (intro bit_word_eqI) (fastforce simp: bit_simps)
    moreover have "push_bit 5 (drop_bit 5 r) AND (push_bit 2 (drop_bit 5 g) OR drop_bit 6 b) = 0"
      using low mid by (intro bit_word_eqI) (fastforce simp: bit_simps)
    moreover note disjunctive_add_eq_or [of "push_bit 2 (drop_bit 5 g)" "drop_bit 6 b"]
      disjunctive_add_eq_or [of "push_bit 5 (drop_bit 5 r)" "push_bit 2 (drop_bit 5 g) OR drop_bit 6 b"]
    ultimately show ?thesis
      by (simp add: or.assoc)
  qed
  finally show ?thesis
    by (simp add: add.assoc)
qed

lemma Pixel_new_byte: "unat (px_byte (Pixel_new r g b)) = unat r div 32 * 32 + unat g div 32 * 4 + unat b div 64"
proof -
  show ?thesis
    using unat_u8_div(1) [of r] unat_u8_div(1) [of g] unat_u8_div(2) [of b]
    unfolding Pixel_new_bits push_bit_eq_mult
    by (simp add: unat_word_ariths unat_drop_8)
qed

text \<open>A byte is the colours it shows: reading a pixel's colours and packing them again gives it back.\<close>

lemma palette_index:
  "i < 8 \<Longrightarrow> unat (RED_GREEN_PALETTE ! i) div 32 = i" "j < 4 \<Longrightarrow> unat (BLUE_PALETTE ! j) div 64 = j"
proof -
  have "\<forall>i\<in>set [0..<8]. unat (RED_GREEN_PALETTE ! i) div 32 = i" "\<forall>j\<in>set [0..<4]. unat (BLUE_PALETTE ! j) div 64 = j"
    by (simp_all add: RED_GREEN_PALETTE_def BLUE_PALETTE_def upt_rec [of _ 8] upt_rec [of _ 4])
  then show "i < 8 \<Longrightarrow> unat (RED_GREEN_PALETTE ! i) div 32 = i" "j < 4 \<Longrightarrow> unat (BLUE_PALETTE ! j) div 64 = j"
    by auto
qed

lemma byte_split: "(n::nat) div 32 * 32 + n div 4 mod 8 * 4 + n mod 4 = n"
proof -
  have "n div 4 div 8 * 8 + n div 4 mod 8 = n div 4" "n div 4 * 4 + n mod 4 = n"
    by (rule div_mult_mod_eq)+
  moreover have "n div 4 div 8 = n div 32"
    by (simp add: div_mult2_eq [symmetric])
  ultimately show ?thesis
    by linarith
qed

lemma Pixel_roundtrip:
  "bind (Pixel_red p) (\<lambda>r. bind (Pixel_green p) (\<lambda>g. bind (Pixel_blue p) (\<lambda>b. ret (Pixel_new r g b)))) = ret p"
proof -
  have "unat (px_byte (Pixel_new (RED_GREEN_PALETTE ! (unat (px_byte p) div 32))
      (RED_GREEN_PALETTE ! (unat (px_byte p) div 4 mod 8)) (BLUE_PALETTE ! (unat (px_byte p) mod 4)))) = unat (px_byte p)"
    by (simp add: Pixel_new_byte palette_index unat_u8_div byte_split)
  then have "px_byte (Pixel_new (RED_GREEN_PALETTE ! (unat (px_byte p) div 32))
      (RED_GREEN_PALETTE ! (unat (px_byte p) div 4 mod 8)) (BLUE_PALETTE ! (unat (px_byte p) mod 4))) = px_byte p"
    by (rule unsigned_word_eqI)
  then show ?thesis
    by (simp add: Pixel_components) (metis Pixel.equality old.unit.exhaust)
qed

text \<open>How far a shown colour is from the one asked for.\<close>

lemma quantise_near:
  "n < 256 \<Longrightarrow> \<bar>int (unat (RED_GREEN_PALETTE ! (n div 32))) - int n\<bar> \<le> 31"
  "n < 256 \<Longrightarrow> \<bar>int (unat (BLUE_PALETTE ! (n div 64))) - int n\<bar> \<le> 63"
proof -
  have rg: "\<forall>i\<in>set [0..<8]. 32 * i \<le> unat (RED_GREEN_PALETTE ! i) \<and> unat (RED_GREEN_PALETTE ! i) \<le> 32 * i + 31"
    and bl: "\<forall>j\<in>set [0..<4]. 64 * j \<le> unat (BLUE_PALETTE ! j) \<and> unat (BLUE_PALETTE ! j) \<le> 64 * j + 63"
    by (simp_all add: RED_GREEN_PALETTE_def BLUE_PALETTE_def upt_rec [of _ 8] upt_rec [of _ 4])
  have d: "32 * (n div 32) \<le> n \<and> n \<le> 32 * (n div 32) + 31" "64 * (n div 64) \<le> n \<and> n \<le> 64 * (n div 64) + 63" for n :: nat
    by presburger+
  have near: "\<bar>int a - int n\<bar> \<le> int k" if "m \<le> a \<and> a \<le> m + k" "m \<le> n \<and> n \<le> m + k" for a n m k :: nat
    using that by linarith
  show "\<bar>int (unat (RED_GREEN_PALETTE ! (n div 32))) - int n\<bar> \<le> 31" if "n < 256"
    using near [OF rg [rule_format, of "n div 32"] d(1)] that by (simp add: less_mult_imp_div_less)
  show "\<bar>int (unat (BLUE_PALETTE ! (n div 64))) - int n\<bar> \<le> 63" if "n < 256"
    using near [OF bl [rule_format, of "n div 64"] d(2)] that by (simp add: less_mult_imp_div_less)
qed

section \<open>The frame buffer\<close>

definition pixel_address :: "nat \<Rightarrow> nat \<Rightarrow> nat" where
  "pixel_address x y = unat SCREEN_BASE + x + 320 * y"

lemma pixel_address_inj:
  assumes "x < 320" and "x' < 320"
  shows "pixel_address x y = pixel_address x' y' \<longleftrightarrow> x = x' \<and> y = y'"
proof
  assume "pixel_address x y = pixel_address x' y'"
  then have "320 * y + x = 320 * y' + x'"
    by (simp add: pixel_address_def)
  then have "(320 * y + x) div 320 = (320 * y' + x') div 320" "(320 * y + x) mod 320 = (320 * y' + x') mod 320"
    by simp_all
  then show "x = x' \<and> y = y'"
    using assms by simp
qed simp

lemma write_frame_buffer_run:
  assumes "unat x + 320 * unat y < 2 ^ 32"
  shows "Pixel_write_frame_buffer b p x y s =
    (if unat x + 320 * unat y < 76800
     then Ret () (s\<lparr>mem := (mem s)(word_of_nat (pixel_address (unat x) (unat y)) := px_byte p)\<rparr>)
     else Panics IndexOutOfBounds)"
proof -
  have m: "usize_mul b y 320 = ret (y * 320)" "unat (y * 320) = 320 * unat y"
    using assms by (simp_all add: unat_word_ariths mult.commute)
  have a: "usize_add b x (y * 320) = ret (x + y * 320)" "unat (x + y * 320) = unat x + 320 * unat y"
    using assms m by (simp_all add: unat_add_32)
  have i: "x + y * 320 < 76800 \<longleftrightarrow> unat x + 320 * unat y < 76800"
    by (simp add: word_less_nat_alt a)
  have "SCREEN_BASE + (x + y * 320) = word_of_nat (pixel_address (unat x) (unat y))"
    by (simp add: pixel_address_def add.assoc mult.commute)
  then show ?thesis
    by (simp add: Pixel_write_frame_buffer_def PhysAddr_from_usize_def m a slice_index_def i size_of_u8_def run_simps)
qed

section \<open>Properties\<close>

text \<open>
  A pixel is determined by the colours it shows: packing the components read from a pixel gives
  the same pixel, and reading them never leaves the palettes.
\<close>
lemma pixel_read_pack:
  "bind (Pixel_red p) (\<lambda>r. bind (Pixel_green p) (\<lambda>g. bind (Pixel_blue p) (\<lambda>b. ret (Pixel_new r g b)))) s = Ret p s"
  by (simp only: Pixel_roundtrip) (simp add: run_simps)

text \<open>
  C38. The colours a packed pixel shows are near the ones asked for: red and green within 31 of 255,
  blue within 63.
\<close>
theorem pixel_colours_near:
  "\<exists>r' g' b'. Pixel_red (Pixel_new r g b) s = Ret r' s \<and> Pixel_green (Pixel_new r g b) s = Ret g' s \<and>
    Pixel_blue (Pixel_new r g b) s = Ret b' s \<and>
    \<bar>int (unat r') - int (unat r)\<bar> \<le> 31 \<and> \<bar>int (unat g') - int (unat g)\<bar> \<le> 31 \<and> \<bar>int (unat b') - int (unat b)\<bar> \<le> 63"
proof -
  have fields: "(32 * i + 4 * j + k) div 32 = i" "(32 * i + 4 * j + k) div 4 mod 8 = j" "(32 * i + 4 * j + k) mod 4 = k"
    if "j < 8" "k < 4" for i j k :: nat
  proof -
    have "32 * i + 4 * j + k = (8 * i + j) * 4 + k"
      by simp
    then have quot: "(32 * i + 4 * j + k) div 4 = 8 * i + j" and "(32 * i + 4 * j + k) mod 4 = k"
      using that(2) by (simp_all only: div_mult_self3 mod_mult_self3 div_less mod_less add_0_right)
    moreover have "(32 * i + 4 * j + k) div 32 = (32 * i + 4 * j + k) div 4 div 8"
      by (simp add: div_mult2_eq [symmetric])
    moreover have "(8 * i + j) div 8 = i" "(8 * i + j) mod 8 = j"
      using that(1) by simp_all
    ultimately show "(32 * i + 4 * j + k) div 32 = i" "(32 * i + 4 * j + k) div 4 mod 8 = j" "(32 * i + 4 * j + k) mod 4 = k"
      by (simp_all only: quot)
  qed
  have "unat (px_byte (Pixel_new r g b)) = 32 * (unat r div 32) + 4 * (unat g div 32) + unat b div 64"
    by (simp add: Pixel_new_byte)
  then have "unat (px_byte (Pixel_new r g b)) div 32 = unat r div 32"
    "unat (px_byte (Pixel_new r g b)) div 4 mod 8 = unat g div 32"
    "unat (px_byte (Pixel_new r g b)) mod 4 = unat b div 64"
    using fields [OF unat_u8_div(1) [of g] unat_u8_div(2) [of b]] by simp_all
  then show ?thesis
    using quantise_near(1) [OF unat_u8_lt [of r]] quantise_near(1) [OF unat_u8_lt [of g]]
      quantise_near(2) [OF unat_u8_lt [of b]]
    by (simp add: Pixel_components ret_apply)
qed



end
