(* ===== verification/Process.thy ===== *)
theory Process
  imports Trap
begin

text \<open>
  \<^verbatim>\<open>rust/src/process.rs\<close>: the table of processes. A process identifier is an index of the table;
  \<^verbatim>\<open>free\<close> marks an entry and pushes its identifier on a stack of identifiers to reuse.
  \<^verbatim>\<open>new_process\<close> looks at the top of that stack without popping it.
\<close>

datatype ProcessId = ProcessId usize

primrec pid_index :: "ProcessId \<Rightarrow> nat" where
  "pid_index (ProcessId i) = unat i"

record Process =
  pid :: ProcessId
  ptable :: PhyPageNum
  regs :: Registers
  pc :: usize
  ipc_buffer :: PhyPageNum
  is_free :: bool

record ProcessManager =
  processes :: "Process list"
  free_ids :: "ProcessId list"

definition ProcessManager_new :: ProcessManager where
  "ProcessManager_new = \<lparr>processes = [], free_ids = []\<rparr>"

text \<open>Writing an element of a vector panics outside its length.\<close>

definition vec_set :: "nat \<Rightarrow> (Process \<Rightarrow> Process) \<Rightarrow> (ProcessManager, unit) prog" where
  "vec_set i f = bind (gets processes) (\<lambda>ps.
     if i < length ps then modify (\<lambda>m. m\<lparr>processes := ps[i := f (ps ! i)]\<rparr>) else panic IndexOutOfBounds)"

definition ProcessManager_free :: "ProcessId \<Rightarrow> (ProcessManager, unit) prog" where
  "ProcessManager_free p =
     bind (vec_set (pid_index p) (\<lambda>q. q\<lparr>is_free := True\<rparr>)) (\<lambda>_.
     modify (\<lambda>m. m\<lparr>free_ids := free_ids m @ [p]\<rparr>))"

definition last_option :: "'a list \<Rightarrow> 'a option" where
  "last_option xs = (if xs = [] then None else Some (last xs))"

definition ProcessManager_new_process :: "Process \<Rightarrow> (ProcessManager, ProcessId) prog" where
  "ProcessManager_new_process process =
     bind (gets (\<lambda>m. last_option (free_ids m))) (\<lambda>l. case l of
       Some p \<Rightarrow>
         bind (vec_set (pid_index p) (\<lambda>_. process\<lparr>is_free := False, pid := p\<rparr>)) (\<lambda>_. ret p)
     | None \<Rightarrow>
         bind (gets (\<lambda>m. ProcessId (word_of_nat (length (processes m))))) (\<lambda>p.
         bind (modify (\<lambda>m. m\<lparr>processes := processes m @ [process\<lparr>is_free := False, pid := p\<rparr>]\<rparr>)) (\<lambda>_.
         ret p)))"

section \<open>The table\<close>

text \<open>Every entry carries its own index as identifier, and the stack only holds indices of the table.\<close>

definition table_ok :: "ProcessManager \<Rightarrow> bool" where
  "table_ok m \<longleftrightarrow> length (processes m) < 2 ^ 31 \<and>
     (\<forall>i<length (processes m). pid (processes m ! i) = ProcessId (word_of_nat i)) \<and>
     (\<forall>p\<in>set (free_ids m). pid_index p < length (processes m))"

lemma table_new: "table_ok ProcessManager_new"
  by (simp add: table_ok_def ProcessManager_new_def)

lemma pid_index_of_nat: "i < 2 ^ 31 \<Longrightarrow> pid_index (ProcessId (word_of_nat i)) = i"
  by simp

lemma pid_of_index: "ProcessId (word_of_nat (pid_index p)) = p"
  by (cases p) simp

lemma free_run:
  assumes "table_ok m"
  shows "ProcessManager_free p m =
    (if pid_index p < length (processes m)
     then Ret () (m\<lparr>processes := (processes m)[pid_index p := (processes m ! pid_index p)\<lparr>is_free := True\<rparr>],
       free_ids := free_ids m @ [p]\<rparr>)
     else Panics IndexOutOfBounds)"
  by (simp add: ProcessManager_free_def vec_set_def run_simps)

lemma free_ok:
  assumes "table_ok m" and "ProcessManager_free p m = Ret () m'"
  shows "table_ok m'"
  using assms by (auto simp: free_run table_ok_def nth_list_update split: if_splits)

lemma new_process_run:
  assumes "table_ok m"
  shows "ProcessManager_new_process q m =
    (if free_ids m = []
     then let p = ProcessId (word_of_nat (length (processes m))) in
       Ret p (m\<lparr>processes := processes m @ [q\<lparr>is_free := False, pid := p\<rparr>]\<rparr>)
     else let p = last (free_ids m) in
       Ret p (m\<lparr>processes := (processes m)[pid_index p := q\<lparr>is_free := False, pid := p\<rparr>]\<rparr>))"
proof (cases "free_ids m = []")
  case False
  then have "pid_index (last (free_ids m)) < length (processes m)"
    using assms by (auto simp: table_ok_def)
  then show ?thesis
    using False by (simp add: ProcessManager_new_process_def last_option_def vec_set_def Let_def run_simps)
qed (simp add: ProcessManager_new_process_def last_option_def Let_def run_simps)

lemma new_process_ok:
  assumes "table_ok m" and "length (processes m) + 1 < 2 ^ 31" and "ProcessManager_new_process q m = Ret p m'"
  shows "table_ok m'" and "pid_index p < length (processes m')"
    and "processes m' ! pid_index p = q\<lparr>is_free := False, pid := p\<rparr>" and "free_ids m' = free_ids m"
    and "\<forall>i<length (processes m). i \<noteq> pid_index p \<longrightarrow> processes m' ! i = processes m ! i"
proof -
  have "table_ok m' \<and> pid_index p < length (processes m') \<and> processes m' ! pid_index p = q\<lparr>is_free := False, pid := p\<rparr> \<and>
    free_ids m' = free_ids m \<and> (\<forall>i<length (processes m). i \<noteq> pid_index p \<longrightarrow> processes m' ! i = processes m ! i)"
  proof (cases "free_ids m = []")
    case True
    then show ?thesis
      using assms by (auto simp: new_process_run Let_def table_ok_def nth_append less_Suc_eq)
  next
    case False
    then have "pid_index (last (free_ids m)) < length (processes m)"
      using assms(1) by (auto simp: table_ok_def)
    then show ?thesis
      using False assms by (auto simp: new_process_run Let_def table_ok_def nth_list_update pid_of_index)
  qed
  then show "table_ok m'" and "pid_index p < length (processes m')"
    and "processes m' ! pid_index p = q\<lparr>is_free := False, pid := p\<rparr>" and "free_ids m' = free_ids m"
    and "\<forall>i<length (processes m). i \<noteq> pid_index p \<longrightarrow> processes m' ! i = processes m ! i"
    by blast+
qed

section \<open>Runs of the process table\<close>

inductive process_step :: "ProcessManager \<Rightarrow> ProcessManager \<Rightarrow> bool" where
  freed: "ProcessManager_free p m = Ret () m' \<Longrightarrow> process_step m m'"
| created: "length (processes m) + 1 < 2 ^ 31 \<Longrightarrow> ProcessManager_new_process q m = Ret p m' \<Longrightarrow> process_step m m'"

inductive_cases process_stepE: "process_step m m'"

lemma process_step_ok: "process_step m m' \<Longrightarrow> table_ok m \<Longrightarrow> table_ok m'"
  by (erule process_stepE) (auto intro: free_ok new_process_ok(1))

lemma process_steps_ok: "process_step\<^sup>*\<^sup>* m m' \<Longrightarrow> table_ok m \<Longrightarrow> table_ok m'"
  by (induction rule: rtranclp_induct) (auto intro: process_step_ok)

text \<open>
  C34. In every table a program can reach from the empty one, each entry carries its own index as
  identifier and the identifiers kept for reuse are indices of the table; so creating a process
  never panics, its identifier leads to it, and no other entry changes.
\<close>
theorem process_table_typed:
  assumes "process_step\<^sup>*\<^sup>* ProcessManager_new m" and "length (processes m) + 1 < 2 ^ 31"
  shows "(\<forall>i<length (processes m). pid (processes m ! i) = ProcessId (word_of_nat i)) \<and>
    (\<forall>p\<in>set (free_ids m). pid_index p < length (processes m)) \<and>
    (\<exists>p m'. ProcessManager_new_process q m = Ret p m' \<and> pid_index p < length (processes m') \<and>
      processes m' ! pid_index p = q\<lparr>is_free := False, pid := p\<rparr> \<and>
      (\<forall>i<length (processes m). i \<noteq> pid_index p \<longrightarrow> processes m' ! i = processes m ! i))"
proof -
  have ok: "table_ok m"
    using process_steps_ok [OF assms(1) table_new] .
  obtain p m' where run: "ProcessManager_new_process q m = Ret p m'"
    using new_process_run [OF ok, of q] by (auto simp: Let_def split: if_splits)
  show ?thesis
    using ok run new_process_ok(2,3,5) [OF ok assms(2) run] by (auto simp: table_ok_def)
qed

definition demo_process :: Process where
  "demo_process = \<lparr>pid = ProcessId 7, ptable = PhyPageNum 1, regs = Registers_default, pc = 0, ipc_buffer = PhyPageNum 2,
     is_free = True\<rparr>"

lemma process_table_typed_witness:
  "\<exists>p m'. ProcessManager_new_process demo_process ProcessManager_new = Ret p m' \<and>
    processes m' ! pid_index p = demo_process\<lparr>is_free := False, pid := p\<rparr>"
  using process_table_typed [of ProcessManager_new demo_process] by (auto simp: ProcessManager_new_def)

text \<open>
  C35. Once an identifier has been freed, every new process gets the identifier freed last: two
  processes created one after the other share it, the second overwrites the entry of the first, and
  the identifier is still offered for reuse. So identifiers are not unique among live processes.
\<close>
theorem process_id_given_twice:
  assumes "table_ok m" and "ProcessManager_free p m = Ret () m0"
  shows "\<exists>m1 m2. ProcessManager_new_process q1 m0 = Ret p m1 \<and> ProcessManager_new_process q2 m1 = Ret p m2 \<and>
    processes m1 ! pid_index p = q1\<lparr>is_free := False, pid := p\<rparr> \<and>
    processes m2 ! pid_index p = q2\<lparr>is_free := False, pid := p\<rparr> \<and>
    length (processes m2) = length (processes m) \<and> p \<in> set (free_ids m2)"
proof -
  have ok0: "table_ok m0" and p: "pid_index p < length (processes m0)" "free_ids m0 = free_ids m @ [p]"
    "length (processes m0) = length (processes m)"
    using free_ok [OF assms] assms(2) by (auto simp: free_run [OF assms(1)] split: if_splits)
  define fill where "fill q t = t\<lparr>processes := (processes t)[pid_index p := q\<lparr>is_free := False, pid := p\<rparr>]\<rparr>"
    for q and t :: ProcessManager
  have run0: "ProcessManager_new_process q1 m0 = Ret p (fill q1 m0)"
    using p by (simp add: new_process_run [OF ok0] Let_def fill_def)
  have ok1: "table_ok (fill q1 m0)"
    using ok0 p(1) by (auto simp: fill_def table_ok_def nth_list_update pid_of_index)
  have "ProcessManager_new_process q2 (fill q1 m0) = Ret p (fill q2 (fill q1 m0))"
    using new_process_run [OF ok1, of q2] p by (simp add: Let_def fill_def)
  then show ?thesis
    using run0 p by (simp add: fill_def)
qed

lemma process_id_given_twice_witness:
  "\<exists>m0 m1 m2. ProcessManager_new_process demo_process ProcessManager_new = Ret (ProcessId 0) m0 \<and>
    (\<exists>m. ProcessManager_free (ProcessId 0) m0 = Ret () m \<and>
      ProcessManager_new_process demo_process m = Ret (ProcessId 0) m1 \<and>
      ProcessManager_new_process (demo_process\<lparr>pc := 4\<rparr>) m1 = Ret (ProcessId 0) m2)"
proof -
  define m0 where "m0 = ProcessManager_new\<lparr>processes := [demo_process\<lparr>is_free := False, pid := ProcessId 0\<rparr>]\<rparr>"
  have m0: "ProcessManager_new_process demo_process ProcessManager_new = Ret (ProcessId 0) m0"
    by (simp add: new_process_run [OF table_new] Let_def) (simp add: ProcessManager_new_def m0_def)
  have ok: "table_ok m0"
    using new_process_ok(1) [OF table_new _ m0] by (simp add: ProcessManager_new_def)
  obtain m where m: "ProcessManager_free (ProcessId 0) m0 = Ret () m"
    by (simp add: free_run [OF ok]) (simp add: m0_def)
  show ?thesis
    using m0 m process_id_given_twice [OF ok m, of demo_process "demo_process\<lparr>pc := 4\<rparr>"] by blast
qed

end
