(* ===== verification/Entry.thy ===== *)
theory Entry
  imports Pointer Memory
begin

text \<open>
  The page-table entries of \<^verbatim>\<open>rust/src/vm.rs\<close>: flags, permissions and entries. The methods of
  \<^verbatim>\<open>Flags\<close> come from the crate \<^verbatim>\<open>bitflags\<close>, so they are a parameter \<open>F\<close> of the model, and what its
  documentation says of them is the hypothesis \<open>bitflags_spec F\<close>. A method with \<^verbatim>\<open>&mut self\<close> returns
  the value the entry is overwritten with.
\<close>

section \<open>Flags\<close>

record 'f bitflags =
  bf_bits :: "'f \<Rightarrow> usize"
  bf_from_bits :: "usize \<Rightarrow> 'f option"
  bf_from_bits_retain :: "usize \<Rightarrow> 'f"
  bf_contains :: "'f \<Rightarrow> 'f \<Rightarrow> bool"
  bf_or :: "'f \<Rightarrow> 'f \<Rightarrow> 'f"
  bf_and :: "'f \<Rightarrow> 'f \<Rightarrow> 'f"
  bf_not :: "'f \<Rightarrow> 'f"

definition Flags_V :: "'f bitflags \<Rightarrow> 'f" where
  "Flags_V F = bf_from_bits_retain F (push_bit 0 1)"

definition Flags_R :: "'f bitflags \<Rightarrow> 'f" where
  "Flags_R F = bf_from_bits_retain F (push_bit 1 1)"

definition Flags_W :: "'f bitflags \<Rightarrow> 'f" where
  "Flags_W F = bf_from_bits_retain F (push_bit 2 1)"

definition Flags_X :: "'f bitflags \<Rightarrow> 'f" where
  "Flags_X F = bf_from_bits_retain F (push_bit 3 1)"

definition Flags_U :: "'f bitflags \<Rightarrow> 'f" where
  "Flags_U F = bf_from_bits_retain F (push_bit 4 1)"

text \<open>Eight flags are declared, the others (\<^verbatim>\<open>G\<close>, \<^verbatim>\<open>A\<close>, \<^verbatim>\<open>D\<close>) only make their bits known.\<close>

definition known_bits :: usize where
  "known_bits = push_bit 0 1 OR push_bit 1 1 OR push_bit 2 1 OR push_bit 3 1 OR push_bit 4 1 OR push_bit 5 1
     OR push_bit 6 1 OR push_bit 7 1"

text \<open>
  The documentation of \<^verbatim>\<open>bitflags\<close> 2: \<^verbatim>\<open>from_bits\<close> fails on unknown bits, \<^verbatim>\<open>from_bits_retain\<close> keeps them,
  \<^verbatim>\<open>!\<close> truncates to the known ones, the other operators work bit by bit.
\<close>

definition bitflags_spec :: "'f bitflags \<Rightarrow> bool" where
  "bitflags_spec F \<longleftrightarrow>
     (\<forall>x. bf_bits F (bf_from_bits_retain F x) = x) \<and>
     (\<forall>x. bf_from_bits F x = (if x AND NOT known_bits = 0 then Some (bf_from_bits_retain F x) else None)) \<and>
     (\<forall>f g. bf_contains F f g \<longleftrightarrow> bf_bits F f AND bf_bits F g = bf_bits F g) \<and>
     (\<forall>f g. bf_bits F (bf_or F f g) = bf_bits F f OR bf_bits F g) \<and>
     (\<forall>f g. bf_bits F (bf_and F f g) = bf_bits F f AND bf_bits F g) \<and>
     (\<forall>f. bf_bits F (bf_not F f) = NOT (bf_bits F f) AND known_bits)"

section \<open>Entries\<close>

record Perms =
  p_write :: bool
  p_read :: bool
  p_exec :: bool
  p_user :: bool

datatype Entry = Entry usize

primrec entry_bits :: "Entry \<Rightarrow> usize" where
  "entry_bits (Entry w) = w"

definition Entry_new :: "'f bitflags \<Rightarrow> PhyPageNum \<Rightarrow> 'f \<Rightarrow> Entry" where
  "Entry_new F ppn flags = Entry (bf_bits F flags OR push_bit 10 (PhyPageNum_into_usize ppn))"

definition Entry_ppn :: "Entry \<Rightarrow> PhyPageNum" where
  "Entry_ppn self = PhyPageNum_from_usize (drop_bit 10 (entry_bits self))"

definition Entry_flags :: "'f bitflags \<Rightarrow> Entry \<Rightarrow> ('s, 'f) prog" where
  "Entry_flags F self = unwrap_option (bf_from_bits F (entry_bits self AND (push_bit 10 1 - 1)))"

definition Entry_perms :: "'f bitflags \<Rightarrow> Entry \<Rightarrow> ('s, Perms) prog" where
  "Entry_perms F self =
     bind (Entry_flags F self) (\<lambda>w.
     bind (Entry_flags F self) (\<lambda>r.
     bind (Entry_flags F self) (\<lambda>x.
     bind (Entry_flags F self) (\<lambda>u.
     ret \<lparr>p_write = bf_contains F w (Flags_W F), p_read = bf_contains F r (Flags_R F),
          p_exec = bf_contains F x (Flags_X F), p_user = bf_contains F u (Flags_U F)\<rparr>))))"

definition Entry_set_ppn :: "'f bitflags \<Rightarrow> PhyPageNum \<Rightarrow> Entry \<Rightarrow> ('s, Entry) prog" where
  "Entry_set_ppn F ppn self = bind (Entry_flags F self) (\<lambda>f. ret (Entry_new F ppn f))"

definition Entry_set_perms :: "'f bitflags \<Rightarrow> Perms \<Rightarrow> Entry \<Rightarrow> ('s, Entry) prog" where
  "Entry_set_perms F perms self =
     bind (Entry_flags F self) (\<lambda>flags.
       let flags = (if p_write perms then bf_or F flags (Flags_W F) else bf_and F flags (bf_not F (Flags_W F)));
           flags = (if p_read perms then bf_or F flags (Flags_R F) else bf_and F flags (bf_not F (Flags_R F)));
           flags = (if p_exec perms then bf_or F flags (Flags_X F) else bf_and F flags (bf_not F (Flags_X F)));
           flags = (if p_user perms then bf_or F flags (Flags_U F) else bf_and F flags (bf_not F (Flags_U F)))
       in ret (Entry_new F (Entry_ppn self) flags))"

definition Entry_valid :: "'f bitflags \<Rightarrow> Entry \<Rightarrow> ('s, bool) prog" where
  "Entry_valid F self = bind (Entry_flags F self) (\<lambda>f. ret (bf_contains F f (Flags_V F)))"

definition Entry_leaf :: "'f bitflags \<Rightarrow> Entry \<Rightarrow> ('s, bool) prog" where
  "Entry_leaf F self = bind (Entry_perms F self) (\<lambda>p. ret (p_exec p \<or> p_read p \<or> p_write p))"

definition Entry_clear_valid :: "'f bitflags \<Rightarrow> Entry \<Rightarrow> ('s, Entry) prog" where
  "Entry_clear_valid F self =
     bind (Entry_flags F self) (\<lambda>f. ret (Entry_new F (Entry_ppn self) (bf_and F f (bf_not F (Flags_V F)))))"

definition Entry_set_valid :: "'f bitflags \<Rightarrow> Entry \<Rightarrow> ('s, Entry) prog" where
  "Entry_set_valid F self =
     bind (Entry_flags F self) (\<lambda>f. ret (Entry_new F (Entry_ppn self) (bf_or F f (Flags_V F))))"

definition Entry_default :: Entry where
  "Entry_default = Entry 0"

section \<open>Entries as bits\<close>

lemma known_mask: "known_bits = mask 8"
  by (simp add: known_bits_def mask_eq_decr_exp)

lemma low_bits: "w AND (push_bit 10 (1::usize) - 1) = take_bit 10 w"
  by (simp add: take_bit_eq_mask mask_eq_decr_exp push_bit_eq_mult)

text \<open>Bits 8 and 9 of an entry belong to neither the flags nor the page number.\<close>

definition entry_ok :: "usize \<Rightarrow> bool" where
  "entry_ok w \<longleftrightarrow> \<not> bit w 8 \<and> \<not> bit w 9"

lemma entry_ok_0 [simp]: "entry_ok 0"
  by (simp add: entry_ok_def)

lemma entry_ok_unknown: "take_bit 10 w AND NOT known_bits = 0 \<longleftrightarrow> entry_ok (w::usize)"
proof
  assume eq: "take_bit 10 w AND NOT known_bits = 0"
  have "bit (take_bit 10 w AND NOT known_bits) n = False" for n
    by (simp only: eq) simp
  from this [of 8] this [of 9] show "entry_ok w"
    unfolding known_mask by (simp only: bit_simps entry_ok_def) simp
next
  assume ok: "entry_ok w"
  have nine: "n = 8 \<or> n = 9" if "n < 10" "\<not> n < 8" for n :: nat
    using that by linarith
  show "take_bit 10 w AND NOT known_bits = 0"
    unfolding known_mask
    by (rule bit_word_eqI, simp only: bit_simps) (use ok nine in \<open>auto simp: entry_ok_def\<close>)
qed

lemma Entry_flags_run:
  assumes "bitflags_spec F"
  shows "Entry_flags F (Entry w) =
    (if entry_ok w then ret (bf_from_bits_retain F (take_bit 10 w)) else panic UnwrapNone)"
proof -
  have "bf_from_bits F (take_bit 10 w) = (if entry_ok w then Some (bf_from_bits_retain F (take_bit 10 w)) else None)"
    using assms by (simp only: bitflags_spec_def entry_ok_unknown)
  then show ?thesis
    unfolding Entry_flags_def entry_bits.simps low_bits by simp
qed

lemma retain_bits [simp]: "bitflags_spec F \<Longrightarrow> bf_bits F (bf_from_bits_retain F x) = x"
  by (simp add: bitflags_spec_def)

lemma and_single_bit: "n < 32 \<Longrightarrow> x AND push_bit n 1 = push_bit n 1 \<longleftrightarrow> bit (x::usize) n"
proof
  assume n: "n < 32" and eq: "x AND push_bit n 1 = push_bit n 1"
  have "bit (x AND push_bit n 1) n"
    unfolding eq using n by (simp only: bit_simps) simp
  then show "bit x n"
    by (simp only: bit_and_iff)
next
  assume "bit x n"
  then show "x AND push_bit n 1 = push_bit n 1"
    by (intro bit_word_eqI) (auto simp only: bit_simps dest: le_antisym [OF _ diff_is_0_eq [THEN iffD1]])
qed

lemma contains_bit:
  assumes "bitflags_spec F" and "n < 32"
  shows "bf_contains F f (bf_from_bits_retain F (push_bit n 1)) \<longleftrightarrow> bit (bf_bits F f) n"
  using assms and_single_bit [OF assms(2), of "bf_bits F f"] unfolding bitflags_spec_def by simp

section \<open>What the methods do\<close>

text \<open>An entry with bad bits makes every method that reads its flags panic.\<close>

lemma Entry_bad_bits:
  assumes "bitflags_spec F" and "\<not> entry_ok w"
  shows "Entry_flags F (Entry w) = panic UnwrapNone" "Entry_valid F (Entry w) = panic UnwrapNone"
    "Entry_perms F (Entry w) = panic UnwrapNone" "Entry_leaf F (Entry w) = panic UnwrapNone"
    "Entry_set_ppn F n (Entry w) = panic UnwrapNone" "Entry_set_perms F p (Entry w) = panic UnwrapNone"
    "Entry_set_valid F (Entry w) = panic UnwrapNone" "Entry_clear_valid F (Entry w) = panic UnwrapNone"
  using assms(2)
  by (simp_all add: Entry_flags_run [OF assms(1)] Entry_valid_def Entry_perms_def Entry_leaf_def Entry_set_ppn_def
      Entry_set_perms_def Entry_set_valid_def Entry_clear_valid_def)

definition perms_of :: "usize \<Rightarrow> Perms" where
  "perms_of w = \<lparr>p_write = bit w 2, p_read = bit w 1, p_exec = bit w 3, p_user = bit w 4\<rparr>"

lemma Entry_reads:
  assumes "bitflags_spec F" and "entry_ok w"
  shows "Entry_valid F (Entry w) = ret (bit w 0)" "Entry_perms F (Entry w) = ret (perms_of w)"
    "Entry_leaf F (Entry w) = ret (bit w 3 \<or> bit w 1 \<or> bit w 2)"
proof -
  have has: "bf_contains F (bf_from_bits_retain F (take_bit 10 w)) (bf_from_bits_retain F (push_bit n 1)) \<longleftrightarrow> bit w n"
    if "n < 10" for n
    using contains_bit [OF assms(1), of n "bf_from_bits_retain F (take_bit 10 w)"] that assms(1)
    by (simp only: retain_bits bit_take_bit_iff) simp
  note flags = Flags_V_def Flags_R_def Flags_W_def Flags_X_def Flags_U_def
  show "Entry_valid F (Entry w) = ret (bit w 0)"
    using assms(2) unfolding Entry_valid_def Entry_flags_run [OF assms(1)] flags by (simp only: has if_True bind_ret)
  show perms: "Entry_perms F (Entry w) = ret (perms_of w)"
    using assms(2) unfolding Entry_perms_def Entry_flags_run [OF assms(1)] flags perms_of_def
    by (simp only: has if_True bind_ret)
  show "Entry_leaf F (Entry w) = ret (bit w 3 \<or> bit w 1 \<or> bit w 2)"
    by (simp add: Entry_leaf_def perms perms_of_def)
qed

text \<open>One bit of a word set to a given value.\<close>

definition put_bit :: "nat \<Rightarrow> bool \<Rightarrow> usize \<Rightarrow> usize" where
  "put_bit n v w = (if v then Bit_Operations.set_bit n w else unset_bit n w)"

lemma bit_put_bit: "n < 32 \<Longrightarrow> bit (put_bit n v w) m \<longleftrightarrow> (if m = n then v else bit w m)"
  by (auto simp: put_bit_def bit_simps)

text \<open>The flag updates of \<^verbatim>\<open>set_perms\<close>, \<^verbatim>\<open>set_valid\<close> and \<^verbatim>\<open>clear_valid\<close>: a flag added or taken away.\<close>

definition put_flag :: "'f bitflags \<Rightarrow> nat \<Rightarrow> bool \<Rightarrow> 'f \<Rightarrow> 'f" where
  "put_flag F n v f =
     (if v then bf_or F f (bf_from_bits_retain F (push_bit n 1))
      else bf_and F f (bf_not F (bf_from_bits_retain F (push_bit n 1))))"

definition low_flags :: "'f bitflags \<Rightarrow> 'f \<Rightarrow> bool" where
  "low_flags F f \<longleftrightarrow> (\<forall>n\<ge>8. \<not> bit (bf_bits F f) n)"

lemma put_flag_bits:
  assumes "bitflags_spec F" and "low_flags F f" and "n < 8"
  shows "bit (bf_bits F (put_flag F n v f)) m \<longleftrightarrow> (if m = n then v else bit (bf_bits F f) m)"
proof -
  have ops: "bf_bits F (bf_or F f g) = bf_bits F f OR bf_bits F g" "bf_bits F (bf_and F f g) = bf_bits F f AND bf_bits F g"
    "bf_bits F (bf_not F g) = NOT (bf_bits F g) AND known_bits" for g
    using assms(1) by (simp_all only: bitflags_spec_def)
  have one: "bit (push_bit n (1::usize)) m \<longleftrightarrow> m = n" for m
    using assms(3) by (auto simp only: bit_push_bit_iff bit_1_iff possible_bit_word) simp
  have "bit (bf_bits F f) m \<Longrightarrow> m < 8"
    using assms(2) by (auto simp: low_flags_def not_less [symmetric])
  then show ?thesis
    using assms(1,3) unfolding put_flag_def known_mask ops
    by (auto simp: ops known_mask bit_or_iff bit_and_iff bit_not_iff bit_mask_iff one [unfolded push_bit_of_1])
qed

lemma put_flag_low:
  assumes "bitflags_spec F" and "low_flags F f" and "n < 8"
  shows "low_flags F (put_flag F n v f)"
  using assms(2,3) put_flag_bits [OF assms] by (auto simp: low_flags_def)

text \<open>An entry made of the page number of \<open>w\<close> and of flags is \<open>v\<close> when its bits are.\<close>

lemma Entry_rebuild:
  assumes "\<And>n. n < 32 \<Longrightarrow> bit v n \<longleftrightarrow> bit (bf_bits F f) n \<or> 10 \<le> n \<and> bit w n"
  shows "Entry_new F (Entry_ppn (Entry w)) f = Entry v"
proof -
  have "bf_bits F f OR push_bit 10 (drop_bit 10 w) = v"
    by (rule bit_word_eqI) (use assms in \<open>auto simp: bit_simps\<close>)
  then show ?thesis
    by (simp add: Entry_new_def Entry_ppn_def PhyPageNum_from_usize_def)
qed

lemma read_flags_low:
  assumes "bitflags_spec F" and "entry_ok w"
  shows "low_flags F (bf_from_bits_retain F (take_bit 10 w))"
proof -
  have "n = 8 \<or> n = 9" if "8 \<le> n" "n < 10" for n :: nat
    using that by linarith
  then show ?thesis
    using assms by (auto simp: low_flags_def bit_take_bit_iff entry_ok_def)
qed

definition put_perms :: "Perms \<Rightarrow> usize \<Rightarrow> usize" where
  "put_perms p w = put_bit 4 (p_user p) (put_bit 3 (p_exec p) (put_bit 1 (p_read p) (put_bit 2 (p_write p) w)))"

lemma Entry_set_perms_put:
  "Entry_set_perms F p e = bind (Entry_flags F e) (\<lambda>f. ret (Entry_new F (Entry_ppn e)
     (put_flag F 4 (p_user p) (put_flag F 3 (p_exec p) (put_flag F 1 (p_read p) (put_flag F 2 (p_write p) f))))))"
  unfolding Entry_set_perms_def put_flag_def Let_def Flags_W_def Flags_R_def Flags_X_def Flags_U_def ..

lemma Entry_writes:
  assumes "bitflags_spec F" and "entry_ok w"
  shows "Entry_set_valid F (Entry w) = ret (Entry (put_bit 0 True w))"
    and "Entry_clear_valid F (Entry w) = ret (Entry (put_bit 0 False w))"
    and "Entry_set_perms F p (Entry w) = ret (Entry (put_perms p w))"
    and "Entry_set_ppn F (PhyPageNum n) (Entry w) = ret (Entry (take_bit 10 w OR push_bit 10 n))"
proof -
  let ?f = "bf_from_bits_retain F (take_bit 10 w)"
  note low = read_flags_low [OF assms] and bits = put_flag_bits [OF assms(1)] and keep = put_flag_low [OF assms(1)]
  have valid: "Entry_new F (Entry_ppn (Entry w)) (put_flag F 0 v ?f) = Entry (put_bit 0 v w)" for v
    by (rule Entry_rebuild) (use assms in \<open>auto simp: bit_put_bit bits low bit_take_bit_iff\<close>)
  show "Entry_set_valid F (Entry w) = ret (Entry (put_bit 0 True w))"
    "Entry_clear_valid F (Entry w) = ret (Entry (put_bit 0 False w))"
    using assms(2) valid [of True] valid [of False]
    by (simp_all add: Entry_set_valid_def Entry_clear_valid_def Entry_flags_run [OF assms(1)] Flags_V_def put_flag_def)
  have "Entry_new F (Entry_ppn (Entry w)) (put_flag F 4 (p_user p) (put_flag F 3 (p_exec p) (put_flag F 1 (p_read p)
      (put_flag F 2 (p_write p) ?f)))) = Entry (put_perms p w)"
    by (rule Entry_rebuild) (use assms in \<open>auto simp: put_perms_def bit_put_bit bits keep low bit_take_bit_iff\<close>)
  then show "Entry_set_perms F p (Entry w) = ret (Entry (put_perms p w))"
    using assms(2) unfolding Entry_set_perms_put by (simp add: Entry_flags_run [OF assms(1)])
  show "Entry_set_ppn F (PhyPageNum n) (Entry w) = ret (Entry (take_bit 10 w OR push_bit 10 n))"
    using assms by (simp add: Entry_set_ppn_def Entry_flags_run Entry_new_def)
qed

text \<open>The flags of the crate as plain words, for the witnesses.\<close>

definition word_flags :: "usize bitflags" where
  "word_flags = \<lparr>bf_bits = \<lambda>x. x, bf_from_bits = \<lambda>x. if x AND NOT known_bits = 0 then Some x else None,
     bf_from_bits_retain = \<lambda>x. x, bf_contains = \<lambda>f g. f AND g = g, bf_or = \<lambda>f g. f OR g, bf_and = \<lambda>f g. f AND g,
     bf_not = \<lambda>f. NOT f AND known_bits\<rparr>"

lemma word_flags_spec: "bitflags_spec word_flags"
  by (simp add: bitflags_spec_def word_flags_def)



end
