(* ===== verification/Vm.thy ===== *)
theory Vm
  imports Entry Palloc
begin

text \<open>
  The page tables of \<^verbatim>\<open>rust/src/vm.rs\<close>: a table is a page of entries in memory; \<^verbatim>\<open>walk\<close> follows the
  entries of a virtual address down to the last level, \<^verbatim>\<open>walk_and_alloc\<close> takes missing tables from
  the page allocator, \<^verbatim>\<open>map\<close> and \<^verbatim>\<open>unmap\<close> set and clear the last-level entries of a range. A
  \<^verbatim>\<open>&'static mut Entry\<close> is the address of the entry.
\<close>

definition read_entry :: "usize \<Rightarrow> ('x machine_scheme, Entry) prog" where
  "read_entry p = gets (\<lambda>s. Entry (load32 (mem s) p))"

definition write_entry :: "usize \<Rightarrow> Entry \<Rightarrow> ('x machine_scheme, unit) prog" where
  "write_entry p e = modify (\<lambda>s. s\<lparr>mem := store32 (mem s) p (entry_bits e)\<rparr>)"

text \<open>A method with \<^verbatim>\<open>&mut self\<close> on the entry at \<open>p\<close>.\<close>

definition update_entry :: "usize \<Rightarrow> (Entry \<Rightarrow> ('x machine_scheme, Entry) prog) \<Rightarrow> ('x machine_scheme, unit) prog" where
  "update_entry p f = bind (read_entry p) (\<lambda>e. bind (f e) (write_entry p))"

section \<open>Tables and walks\<close>

fun clear_entries :: "'f bitflags \<Rightarrow> slice \<Rightarrow> nat list \<Rightarrow> ('x machine_scheme, unit) prog" where
  "clear_entries F table [] = ret ()"
| "clear_entries F table (i # is) =
     bind (slice_index table size_of_Entry (word_of_nat i)) (\<lambda>p.
     bind (write_entry p (Entry_new F (PhyPageNum_from_usize 0) (bf_from_bits_retain F 0))) (\<lambda>_.
     clear_entries F table is))"

definition init_ptable :: "'f bitflags \<Rightarrow> profile \<Rightarrow> ('x palloc_state_scheme, PhyPageNum) prog" where
  "init_ptable F b =
     bind (palloc_alloc b) (\<lambda>r.
     bind (unwrap_option r) (\<lambda>ppn.
     bind (PhyPageNum_as_pte_mut b ppn) (\<lambda>table.
     bind (clear_entries F table [0..<512]) (\<lambda>_.
     ret ppn))))"

fun walk_and_alloc :: "'f bitflags \<Rightarrow> profile \<Rightarrow> nat \<Rightarrow> PhyPageNum \<Rightarrow> VirtAddr \<Rightarrow> ('x palloc_state_scheme, usize) prog" where
  "walk_and_alloc F b level ptable va =
     bind (PhyPageNum_as_pte_mut b ptable) (\<lambda>table.
     bind (VirtAddr_vpn va level) (\<lambda>i.
     bind (slice_index table size_of_Entry i) (\<lambda>entry.
     if level = 0 then ret entry else
     bind (read_entry entry) (\<lambda>e.
     bind (Entry_valid F e) (\<lambda>valid.
     if valid then walk_and_alloc F b (level - 1) (Entry_ppn e) va else
     bind (init_ptable F b) (\<lambda>ppn.
     bind (write_entry entry (Entry_new F ppn (Flags_V F))) (\<lambda>_.
     bind (read_entry entry) (\<lambda>e.
     walk_and_alloc F b (level - 1) (Entry_ppn e) va))))))))"

fun walk :: "'f bitflags \<Rightarrow> profile \<Rightarrow> nat \<Rightarrow> PhyPageNum \<Rightarrow> VirtAddr \<Rightarrow> ('x machine_scheme, usize option) prog" where
  "walk F b level ptable va =
     bind (PhyPageNum_as_pte_mut b ptable) (\<lambda>table.
     bind (VirtAddr_vpn va level) (\<lambda>i.
     bind (slice_index table size_of_Entry i) (\<lambda>entry.
     if level = 0 then ret (Some entry) else
     bind (read_entry entry) (\<lambda>e.
     bind (Entry_valid F e) (\<lambda>valid.
     if valid then walk F b (level - 1) (Entry_ppn e) va else ret None)))))"

declare walk_and_alloc.simps [simp del] walk.simps [simp del]

section \<open>Mapping and unmapping ranges\<close>

fun map_pages :: "'f bitflags \<Rightarrow> profile \<Rightarrow> PhyPageNum \<Rightarrow> VirtAddr \<Rightarrow> PhysAddr \<Rightarrow> Perms \<Rightarrow> nat list \<Rightarrow>
    ('x palloc_state_scheme, unit) prog" where
  "map_pages F b table first_virt first_phys perms [] = ret ()"
| "map_pages F b table first_virt first_phys perms (idx # idxs) =
     bind (usize_mul b PAGE_SIZE (word_of_nat idx)) (\<lambda>d.
     bind (VirtAddr_add b first_virt d) (\<lambda>virt.
     bind (usize_mul b PAGE_SIZE (word_of_nat idx)) (\<lambda>d.
     bind (PhysAddr_add b first_phys d) (\<lambda>phys.
     bind (walk_and_alloc F b 2 table virt) (\<lambda>entry.
     bind (read_entry entry) (\<lambda>e.
     bind (Entry_valid F e) (\<lambda>valid.
     if valid then panic (ExplicitPanic ''remap'') else
     bind (update_entry entry (Entry_set_ppn F (PhysAddr_ppn phys))) (\<lambda>_.
     bind (update_entry entry (Entry_set_perms F perms)) (\<lambda>_.
     bind (update_entry entry (Entry_set_valid F)) (\<lambda>_.
     map_pages F b table first_virt first_phys perms idxs))))))))))"

definition size_message :: "string \<Rightarrow> usize \<Rightarrow> string" where
  "size_message name sz = name @ '': size must be divisible by '' @ decimal (unat PAGE_SIZE) @ '', found '' @ decimal (unat sz)"

definition vm_map :: "'f bitflags \<Rightarrow> profile \<Rightarrow> PhyPageNum \<Rightarrow> VirtAddr \<Rightarrow> PhysAddr \<Rightarrow> usize \<Rightarrow> Perms \<Rightarrow>
    ('x palloc_state_scheme, unit) prog" where
  "vm_map F b table first_virt first_phys sz perms =
     (if VirtAddr_offset first_virt \<noteq> 0 \<or> PhysAddr_offset first_phys \<noteq> 0
      then panic (ExplicitPanic (''map: alignment error phys: '' @ VirtAddr_fmt first_virt @ '' virt: '' @ VirtAddr_fmt first_virt))
      else if sz mod PAGE_SIZE \<noteq> 0 then panic (ExplicitPanic (size_message ''map'' sz))
      else map_pages F b table first_virt first_phys perms [0..<unat (sz div PAGE_SIZE)])"

fun unmap_pages :: "'f bitflags \<Rightarrow> profile \<Rightarrow> PhyPageNum \<Rightarrow> VirtAddr \<Rightarrow> bool \<Rightarrow> nat list \<Rightarrow> ('x palloc_state_scheme, unit) prog" where
  "unmap_pages F b table first_virt free [] = ret ()"
| "unmap_pages F b table first_virt free (idx # idxs) =
     bind (usize_mul b PAGE_SIZE (word_of_nat idx)) (\<lambda>d.
     bind (VirtAddr_add b first_virt d) (\<lambda>virt.
     bind (walk F b 2 table virt) (\<lambda>r.
     bind (unwrap_option r) (\<lambda>entry.
     bind (read_entry entry) (\<lambda>e.
     bind (Entry_valid F e) (\<lambda>valid.
     if \<not> valid then panic (ExplicitPanic ''unmap'') else
     bind (if free then bind (read_entry entry) (\<lambda>e. palloc_free b (Entry_ppn e)) else ret ()) (\<lambda>_.
     bind (write_entry entry Entry_default) (\<lambda>_.
     unmap_pages F b table first_virt free idxs))))))))"

definition vm_unmap :: "'f bitflags \<Rightarrow> profile \<Rightarrow> PhyPageNum \<Rightarrow> VirtAddr \<Rightarrow> usize \<Rightarrow> bool \<Rightarrow> ('x palloc_state_scheme, unit) prog" where
  "vm_unmap F b table first_virt sz free =
     (if VirtAddr_offset first_virt \<noteq> 0
      then panic (ExplicitPanic (''unmap: alignment error: '' @ VirtAddr_fmt first_virt))
      else if sz mod PAGE_SIZE \<noteq> 0 then panic (ExplicitPanic (size_message ''unmap'' sz))
      else unmap_pages F b table first_virt free [0..<unat (sz div PAGE_SIZE)])"

end
