(* ===== verification/VmTables.thy ===== *)
theory VmTables
  imports Vm
begin

text \<open>
  The page tables as a tree: \<open>T\<close> gives, for the path of indices from the root, the page that holds
  the table there. \<open>vm_rep\<close> says that the entries in memory are this tree, that its tables are
  distinct pages and that none of them is free. \<open>leaf\<close> is the last-level entry of a virtual page (0
  where a table is missing) and \<open>translate\<close> what it means.
\<close>

section \<open>Entries in a page\<close>

definition slot :: "nat \<Rightarrow> nat \<Rightarrow> usize" where
  "slot p i = page_addr p + 4 * word_of_nat i"

definition entry_at :: "memory \<Rightarrow> nat \<Rightarrow> nat \<Rightarrow> usize" where
  "entry_at m p i = load32 m (slot p i)"

lemma unat_slot:
  assumes "page_ok p" and "i < 1024"
  shows "unat (slot p i) = 4096 * p + 4 * i"
proof -
  have "4 * word_of_nat i = (word_of_nat (4 * i) :: usize)"
    by simp
  then have "unat (4 * word_of_nat i :: usize) = 4 * i"
    using assms(2) by (simp del: of_nat_mult)
  then show ?thesis
    using page_offset [OF assms(1), of "4 * word_of_nat i"] assms(2) by (simp add: slot_def)
qed

lemma table_of_page:
  assumes "page_ok p"
  shows "PhyPageNum_as_pte_mut b (page p) = ret \<lparr>slice_base = page_addr p, slice_len = 1024\<rparr>"
proof -
  have "PAGE_SIZE div size_of_Entry = 1024"
    by (simp add: PAGE_SIZE_def size_of_Entry_def)
  then show ?thesis
    using assms by (simp add: page_def page_ok_def page_addr_def PAGE_SIZE_def mult.commute)
qed

lemma table_index:
  "i < 1024 \<Longrightarrow> slice_index \<lparr>slice_base = page_addr p, slice_len = 1024\<rparr> size_of_Entry (word_of_nat i) = ret (slot p i)"
proof -
  assume i: "i < 1024"
  then have "(word_of_nat i :: usize) < 1024"
    by (simp add: word_less_nat_alt)
  then show ?thesis
    by (simp add: slice_index_def size_of_Entry_def slot_def)
qed

lemma slot_apart:
  assumes "page_ok p" and "i < 1024" and "page_ok q" and "j < 1024" and "(q, j) \<noteq> (p, i)"
  shows "apart 4 (slot p i) (slot q j)"
proof -
  have "4096 * p + 4 * i + 4 \<le> 4096 * q + 4 * j \<or> 4096 * q + 4 * j + 4 \<le> 4096 * p + 4 * i"
    using assms(2,4,5) by (cases p q rule: linorder_cases) auto
  then show ?thesis
    using assms(1-4) by (intro apartI) (simp_all add: unat_slot, simp_all add: page_ok_def)
qed

lemma entry_at_store:
  assumes "page_ok p" and "i < 1024" and "page_ok q" and "j < 1024"
  shows "entry_at (store32 m (slot p i) w) q j = (if (q, j) = (p, i) then w else entry_at m q j)"
  using slot_apart [OF assms] by (simp add: entry_at_def ram.load_store_same ram.load_store_apart)

lemma store_slot_outside:
  assumes "page_ok p" and "i < 1024"
  shows "same_outside (page_bytes p) m (store32 m (slot p i) w)"
proof -
  have "4 \<le> x - slot p i" if "unat x \<notin> page_bytes p" for x
    using that assms unat_usize_lt [of x]
    by (auto simp: word_le_nat_alt unat_sub_if' unat_slot page_bytes_def page_ok_def)
  then show ?thesis
    by (simp add: same_outside_def ram.byte_store_outside)
qed

lemma entry_at_outside:
  assumes "same_outside A m m'" and "page_ok p" and "i < 1024" and "A \<inter> page_bytes p = {}"
  shows "entry_at m' p i = entry_at m p i"
  unfolding entry_at_def
proof (rule ram.load_byte_cong)
  fix k :: usize
  assume "k < 4"
  then have k: "unat k < 4"
    by (simp add: word_less_nat_alt)
  then have "unat (slot p i + k) = 4096 * p + 4 * i + unat k"
    using unat_slot [OF assms(2,3)] assms(2,3) by (simp add: unat_add_32 page_ok_def)
  then have "unat (slot p i + k) \<in> page_bytes p"
    using assms(3) k by (simp add: page_bytes_def)
  then show "m' (slot p i + k) = m (slot p i + k)"
    using assms(1,4) by (auto simp: same_outside_def)
qed

section \<open>Frames\<close>

text \<open>Paging code changes the memory and the page allocator only.\<close>

definition paging_only :: "'x palloc_state_scheme \<Rightarrow> 'x palloc_state_scheme \<Rightarrow> bool" where
  "paging_only s s' \<longleftrightarrow> s' = s\<lparr>mem := mem s', page_allocator := page_allocator s'\<rparr>"

lemma paging_only_refl [simp]: "paging_only s s"
  by (simp add: paging_only_def)

lemma paging_only_trans: "paging_only s s' \<Longrightarrow> paging_only s' s'' \<Longrightarrow> paging_only s s''"
proof -
  assume "paging_only s s'" and *: "paging_only s' s''"
  then have "s' = s\<lparr>mem := mem s', page_allocator := page_allocator s'\<rparr>"
    "s'' = s'\<lparr>mem := mem s'', page_allocator := page_allocator s''\<rparr>"
    by (simp_all only: paging_only_def)
  then show ?thesis
    unfolding paging_only_def by (metis (no_types, lifting) palloc_state.update_convs(1) palloc_state.cases_scheme
        machine.update_convs(1))
qed

lemma paging_only_mem [simp]: "paging_only s (s\<lparr>mem := m\<rparr>)"
  by (simp add: paging_only_def)

section \<open>The tree of tables\<close>

type_synonym tables = "nat list \<rightharpoonup> nat"

definition tables_ok :: "tables \<Rightarrow> bool" where
  "tables_ok T \<longleftrightarrow> inj_on T (dom T) \<and> (\<forall>\<pi> p. T \<pi> = Some p \<longrightarrow> page_ok p \<and> length \<pi> \<le> 2) \<and>
     (\<forall>i \<pi>. T (i # \<pi>) \<noteq> None \<longrightarrow> T \<pi> \<noteq> None \<and> i < 512)"

text \<open>Inner entries point to the tables of the tree; last-level entries only have to be readable.\<close>

definition tables_in :: "memory \<Rightarrow> tables \<Rightarrow> bool" where
  "tables_in m T \<longleftrightarrow> (\<forall>\<pi> p i. T \<pi> = Some p \<longrightarrow> i < 512 \<longrightarrow> entry_ok (entry_at m p i) \<and>
     (length \<pi> < 2 \<longrightarrow>
       T (i # \<pi>) = (if bit (entry_at m p i) 0 then Some (unat (drop_bit 10 (entry_at m p i))) else None)))"

definition vm_rep :: "'x palloc_state_scheme \<Rightarrow> tables \<Rightarrow> nat list \<Rightarrow> bool" where
  "vm_rep s T ns \<longleftrightarrow> tables_ok T \<and> tables_in (mem s) T \<and> pool_free s ns \<and> ran T \<inter> set ns = {}"

definition idx :: "nat \<Rightarrow> nat \<Rightarrow> nat" where
  "idx level v = v div 512 ^ level mod 512"

text \<open>The path of the table that a walk to the virtual page \<open>v\<close> visits at a level.\<close>

definition path :: "nat \<Rightarrow> nat \<Rightarrow> nat list" where
  "path level v = map (\<lambda>k. idx k v) [Suc level..<3]"

definition leaf :: "memory \<Rightarrow> tables \<Rightarrow> nat \<Rightarrow> usize" where
  "leaf m T v = (case T (path 0 v) of None \<Rightarrow> 0 | Some p \<Rightarrow> entry_at m p (idx 0 v))"

definition translate :: "memory \<Rightarrow> tables \<Rightarrow> nat \<Rightarrow> (nat \<times> Perms) option" where
  "translate m T v = (let w = leaf m T v in if bit w 0 then Some (unat (drop_bit 10 w), perms_of w) else None)"

lemma idx_less [simp]: "idx level v < 512" "idx level v < 1024"
  by (simp_all add: idx_def less_trans [OF mod_less_divisor])

lemma path_2 [simp]: "path 2 v = []"
  by (simp add: path_def)

lemma path_Suc: "level < 2 \<Longrightarrow> path level v = idx (Suc level) v # path (Suc level) v"
  by (simp add: path_def upt_conv_Cons)

lemma length_path [simp]: "level \<le> 2 \<Longrightarrow> length (path level v) = 2 - level"
  by (simp add: path_def)

declare VirtAddr_vpn.simps [simp del]

lemma VirtAddr_vpn_run:
  assumes "level \<le> 2"
  shows "VirtAddr_vpn (VirtAddr a) level = ret (word_of_nat (idx level (unat a div 4096)))"
proof -
  have w: "x = word_of_nat n" if "unat x = n" for x :: usize and n
    using that by auto
  have "unat (drop_bit 12 a AND mask 9) = idx 0 (unat a div 4096)" "unat (drop_bit 21 a AND mask 9) = idx 1 (unat a div 4096)"
    "unat (drop_bit 30 a AND mask 9) = idx 2 (unat a div 4096)"
    unfolding unat_vpn0 unat_vpn1 unat_vpn2 by (simp_all add: idx_def div_mult2_eq [symmetric])
  note e = this [THEN w]
  have "level = 0 \<or> level = 1 \<or> level = 2"
    using assms by auto
  then show ?thesis
    by (elim disjE) (simp_all only: VirtAddr_vpn.simps vpn_mask e, simp_all)
qed

lemma tables_okD:
  assumes "tables_ok T" and "T \<pi> = Some p"
  shows "page_ok p" and "length \<pi> \<le> 2" and "T \<rho> = Some p \<Longrightarrow> \<rho> = \<pi>"
proof -
  show "page_ok p" and "length \<pi> \<le> 2"
    using assms by (auto simp: tables_ok_def)
  show "\<rho> = \<pi>" if "T \<rho> = Some p"
    using assms that unfolding tables_ok_def by (metis domI inj_onD)
qed

lemma tables_ok_parent: "tables_ok T \<Longrightarrow> T (i # \<pi>) = Some q \<Longrightarrow> i < 512 \<and> (\<exists>p. T \<pi> = Some p)"
  unfolding tables_ok_def by (metis not_None_eq)

text \<open>Where a table is missing, so are the tables below it.\<close>

lemma path_missing:
  assumes "tables_ok T" and "T (path level v) = None" and "level \<le> 2"
  shows "k \<le> level \<Longrightarrow> T (path k v) = None"
proof (induction "level - k" arbitrary: k)
  case (Suc d)
  then have "k < level"
    by simp
  then have "T (path (Suc k) v) = None" "path k v = idx (Suc k) v # path (Suc k) v"
    using Suc assms(3) by (simp_all add: path_Suc)
  then show ?case
    using tables_ok_parent [OF assms(1), of "idx (Suc k) v" "path (Suc k) v"] by (cases "T (path k v)") auto
qed (use assms(2) in simp)

section \<open>\<^verbatim>\<open>walk\<close> reads the tree\<close>

lemma page_of_entry [simp]: "Entry_ppn (Entry w) = page (unat (drop_bit 10 w))"
  by (simp add: Entry_ppn_def PhyPageNum_from_usize_def page_def)

lemma walk_run:
  assumes F: "bitflags_spec F" and T: "tables_ok T" "tables_in (mem s) T"
  shows "level \<le> 2 \<Longrightarrow> T (path level (unat a div 4096)) = Some p \<Longrightarrow> walk F b level (page p) (VirtAddr a) s =
    Ret (map_option (\<lambda>q. slot q (idx 0 (unat a div 4096))) (T (path 0 (unat a div 4096)))) s"
proof (induction level arbitrary: p)
  case 0
  note p = tables_okD [OF T(1) 0(2)]
  show ?case
    using 0 by (subst walk.simps) (simp add: table_of_page [OF p(1)] VirtAddr_vpn_run table_index run_simps)
next
  case (Suc level)
  let ?v = "unat a div 4096"
  let ?e = "entry_at (mem s) p (idx (Suc level) ?v)"
  note p = tables_okD [OF T(1) Suc.prems(2)]
  have path: "path level ?v = idx (Suc level) ?v # path (Suc level) ?v"
    using Suc.prems(1) by (intro path_Suc) simp
  have ok: "entry_ok ?e" and child: "T (path level ?v) = (if bit ?e 0 then Some (unat (drop_bit 10 ?e)) else None)"
    using T(2) Suc.prems by (auto simp: tables_in_def path)
  have step: "walk F b (Suc level) (page p) (VirtAddr a) s =
    (if bit ?e 0 then walk F b level (page (unat (drop_bit 10 ?e))) (VirtAddr a) s else Ret None s)"
    using ok Suc.prems(1)
    by (subst walk.simps) (simp add: table_of_page [OF p(1)] VirtAddr_vpn_run table_index read_entry_def
        entry_at_def Entry_reads [OF F] run_simps)
  show ?case
  proof (cases "bit ?e 0")
    case True
    then show ?thesis
      unfolding step using Suc.IH [of "unat (drop_bit 10 ?e)"] Suc.prems(1) child by simp
  next
    case False
    then have "T (path 0 ?v) = None"
      using path_missing [OF T(1), of level ?v 0] child Suc.prems(1) by simp
    then show ?thesis
      unfolding step using False by simp
  qed
qed

section \<open>New tables\<close>

lemma write_entry_run: "write_entry p e s = Ret () (s\<lparr>mem := store32 (mem s) p (entry_bits e)\<rparr>)"
  by (simp add: write_entry_def run_simps)

lemma clear_entries_run:
  assumes F: "bitflags_spec F" and p: "page_ok p"
  shows "set is \<subseteq> {..<512} \<Longrightarrow> \<exists>m. clear_entries F \<lparr>slice_base = page_addr p, slice_len = 1024\<rparr> is s = Ret () (s\<lparr>mem := m\<rparr>) \<and>
    same_outside (page_bytes p) (mem s) m \<and> (\<forall>i\<in>set is. entry_at m p i = 0) \<and>
    (\<forall>i<512. entry_at (mem s) p i = 0 \<longrightarrow> entry_at m p i = 0)"
proof (induction "is" arbitrary: s)
  case Nil
  then show ?case
    by (intro exI [of _ "mem s"]) (simp add: run_simps)
next
  case (Cons i "is")
  have i: "i < 1024"
    using Cons.prems by auto
  define t where "t = s\<lparr>mem := store32 (mem s) (slot p i) 0\<rparr>"
  have zero: "Entry_new F (PhyPageNum_from_usize 0) (bf_from_bits_retain F 0) = Entry 0"
    using F by (simp add: Entry_new_def PhyPageNum_from_usize_def)
  obtain m where run: "clear_entries F \<lparr>slice_base = page_addr p, slice_len = 1024\<rparr> is t = Ret () (t\<lparr>mem := m\<rparr>)"
    and m: "same_outside (page_bytes p) (mem t) m" "\<forall>i\<in>set is. entry_at m p i = 0"
      "\<forall>i<512. entry_at (mem t) p i = 0 \<longrightarrow> entry_at m p i = 0"
    using Cons.IH [of t] Cons.prems by auto
  have "clear_entries F \<lparr>slice_base = page_addr p, slice_len = 1024\<rparr> (i # is) s = Ret () (s\<lparr>mem := m\<rparr>)"
    using run by (simp add: table_index [OF i] zero write_entry_def t_def)
  moreover have "same_outside (page_bytes p) (mem s) m"
    using same_outside_trans [OF store_slot_outside [OF p i] m(1) [unfolded t_def, simplified]] .
  moreover have "entry_at (mem t) p j = (if j = i then 0 else entry_at (mem s) p j)" if "j < 512" for j
    using entry_at_store [OF p i p, of j] that by (simp add: t_def)
  ultimately show ?case
    using m(2,3) Cons.prems by (intro exI [of _ m]) auto
qed

definition can_count :: "profile \<Rightarrow> 'x palloc_state_scheme \<Rightarrow> nat \<Rightarrow> bool" where
  "can_count b s k \<longleftrightarrow> b = Release \<or> unat (number_alloc (mx_cell (page_allocator s))) + k < 2 ^ 32"

text \<open>The steps of paging code leave the allocation count within bounds.\<close>

definition counted :: "'x palloc_state_scheme \<Rightarrow> 'x palloc_state_scheme \<Rightarrow> nat \<Rightarrow> bool" where
  "counted s s' k \<longleftrightarrow>
     number_alloc (mx_cell (page_allocator s')) = number_alloc (mx_cell (page_allocator s)) + word_of_nat k"

lemma counted_can_count:
  assumes "counted s s' k" and "can_count b s (k + n)"
  shows "can_count b s' n"
proof (cases b)
  case Dev
  then have "unat (number_alloc (mx_cell (page_allocator s))) + k + n < 2 ^ 32"
    using assms(2) by (simp add: can_count_def)
  moreover from this have "unat (word_of_nat k :: usize) = k"
    by simp
  ultimately show ?thesis
    using assms(1) by (simp add: can_count_def counted_def unat_add_32)
qed (simp add: can_count_def)

lemma counted_trans: "counted s s' k \<Longrightarrow> counted s' s'' n \<Longrightarrow> counted s s'' (k + n)"
  by (simp add: counted_def)

lemma counted_0 [simp]: "counted s s 0"
  by (simp add: counted_def)

lemma counted_mem [simp]: "counted s (s'\<lparr>mem := m\<rparr>) k \<longleftrightarrow> counted s s' k"
  "counted (s\<lparr>mem := m\<rparr>) s' k \<longleftrightarrow> counted s s' k" "can_count b (s\<lparr>mem := m\<rparr>) k \<longleftrightarrow> can_count b s k"
  by (simp_all add: counted_def can_count_def)

lemma can_count_may: "can_count b s k \<Longrightarrow> 0 < k \<Longrightarrow> may_count b s"
  by (auto simp: can_count_def may_count_def)

lemma init_ptable_run:
  assumes F: "bitflags_spec F" and pool: "pool_free s ns" and may: "may_count b s"
  shows "case ns of [] \<Rightarrow> init_ptable F b s = Panics UnwrapNone
    | n # ns' \<Rightarrow> \<exists>s'. init_ptable F b s = Ret (page n) s' \<and> pool_free s' ns' \<and> paging_only s s' \<and>
        counted s s' 1 \<and> same_outside (page_bytes n) (mem s) (mem s') \<and> (\<forall>i<512. entry_at (mem s') n i = 0)"
proof -
  obtain t where run: "palloc_alloc b s = Ret (first_page ns) t" and t: "t = s\<lparr>page_allocator := page_allocator t\<rparr>"
    "pool_free t (tl ns)" "number_alloc (mx_cell (page_allocator t)) = number_alloc (mx_cell (page_allocator s)) + 1"
    using palloc_alloc_run [OF pool may] by blast
  show ?thesis
  proof (cases ns)
    case Nil
    then show ?thesis
      using run by (simp add: init_ptable_def bind_def [of "palloc_alloc b"] first_page_def run_simps)
  next
    case (Cons n ns')
    have n: "page_ok n" "n \<notin> set ns'"
      using pool by (simp_all add: Cons pool_free_def pool_rep_def)
    have all: "set [0..<512] \<subseteq> {..<512::nat}"
      by auto
    obtain m where clear: "clear_entries F \<lparr>slice_base = page_addr n, slice_len = 1024\<rparr> [0..<512] t = Ret () (t\<lparr>mem := m\<rparr>)"
      and m: "same_outside (page_bytes n) (mem t) m" "\<forall>i\<in>set [0..<512]. entry_at m n i = 0"
      using clear_entries_run [OF F n(1) all, of t] by blast
    have "init_ptable F b s = Ret (page n) (t\<lparr>mem := m\<rparr>)"
      using run clear by (simp add: init_ptable_def bind_def [of "palloc_alloc b"] bind_def [of "clear_entries F x y" for x y]
          first_page_def Cons table_of_page [OF n(1)] run_simps del: upt_Suc)
    moreover have "pool_free (t\<lparr>mem := m\<rparr>) ns'"
      using t(2) pool_rep_frame [of t ns' "page_bytes n" "t\<lparr>mem := m\<rparr>"] m(1) page_bytes_apart [of n] n(2)
      by (fastforce simp: pool_free_def Cons)
    moreover have tm: "mem t = mem s"
      by (subst t(1)) simp
    have "paging_only s (t\<lparr>mem := m\<rparr>)"
      unfolding paging_only_def by (subst t(1)) simp
    ultimately show ?thesis
      using m t(3) by (auto simp: Cons tm counted_def)
  qed
qed

text \<open>The entry that points to a table.\<close>

definition link :: "nat \<Rightarrow> usize" where
  "link n = 1 OR push_bit 10 (word_of_nat n)"

lemma link_props:
  assumes "page_ok n"
  shows "entry_ok (link n)" and "bit (link n) 0" and "unat (drop_bit 10 (link n)) = n"
proof -
  have "bit (1 :: usize) k \<longleftrightarrow> k = 0" for k
    by (auto simp: bit_1_iff)
  then show "entry_ok (link n)" "bit (link n) 0"
    by (simp_all add: link_def entry_ok_def bit_or_iff bit_push_bit_iff)
  have small: "take_bit 22 (word_of_nat n :: usize) = word_of_nat n"
    using assms by (simp add: take_bit_of_nat take_bit_nat_eq_self page_ok_def)
  have "drop_bit 10 (link n) = word_of_nat n"
  proof (rule bit_word_eqI)
    fix k :: nat
    assume "k < LENGTH(32)"
    have "bit (word_of_nat n :: usize) k \<Longrightarrow> k < 22"
      using bit_take_bit_iff [of 22 "word_of_nat n :: usize" k] small by simp
    then show "bit (drop_bit 10 (link n)) k = bit (word_of_nat n :: usize) k"
      by (auto simp: link_def bit_drop_bit_eq bit_or_iff bit_push_bit_iff bit_1_iff)
  qed
  then have "unat (drop_bit 10 (link n)) = unat (word_of_nat n :: usize)"
    by (rule arg_cong)
  then show "unat (drop_bit 10 (link n)) = n"
    using assms by (simp add: page_ok_def)
qed

lemma table_link: "bitflags_spec F \<Longrightarrow> Entry_new F (page n) (Flags_V F) = Entry (link n)"
  by (simp add: Entry_new_def Flags_V_def link_def page_def)

lemma vm_repD:
  assumes "vm_rep s T ns"
  shows "tables_ok T" and "tables_in (mem s) T" and "pool_free s ns" and "ran T \<inter> set ns = {}"
    and "n \<in> set ns \<Longrightarrow> page_ok n" and "T \<pi> = Some p \<Longrightarrow> p \<notin> set ns"
  using assms by (auto simp: vm_rep_def pool_free_def pool_rep_def ran_def)

lemma tables_inD:
  assumes "tables_in m T" and "T \<pi> = Some p" and "i < 512"
  shows "entry_ok (entry_at m p i)"
    and "length \<pi> < 2 \<Longrightarrow> T (i # \<pi>) = (if bit (entry_at m p i) 0 then Some (unat (drop_bit 10 (entry_at m p i))) else None)"
proof -
  show "entry_ok (entry_at m p i)"
    using assms by (simp add: tables_in_def)
  show "T (i # \<pi>) = (if bit (entry_at m p i) 0 then Some (unat (drop_bit 10 (entry_at m p i))) else None)" if "length \<pi> < 2"
    using assms(1) [unfolded tables_in_def, rule_format, OF assms(2,3)] that by blast
qed

text \<open>A fresh, cleared page becomes the table at a missing path.\<close>

lemma grow_entries:
  assumes T: "tables_ok T" and p: "T \<pi> = Some p" "i < 512" and n: "page_ok n" "n \<notin> ran T"
    and m1: "same_outside (page_bytes n) m m1" "\<forall>j<512. entry_at m1 n j = 0" and j: "j < 512"
  shows "entry_at (store32 m1 (slot p i) w) n j = 0"
    and "T \<rho> = Some q \<Longrightarrow>
      entry_at (store32 m1 (slot p i) w) q j = (if (\<rho>, j) = (\<pi>, i) then w else entry_at m q j)"
proof -
  note okp = tables_okD(1) [OF T p(1)]
  have "p \<noteq> n"
    using p(1) n(2) by (auto simp: ran_def)
  then show "entry_at (store32 m1 (slot p i) w) n j = 0"
    using entry_at_store [OF okp _ n(1), of i j m1 w] p(2) m1(2) j by simp
  show "entry_at (store32 m1 (slot p i) w) q j = (if (\<rho>, j) = (\<pi>, i) then w else entry_at m q j)" if q: "T \<rho> = Some q"
  proof -
    have "q \<noteq> n" and okq: "page_ok q"
      using n(2) q tables_okD(1) [OF T q] by (auto simp: ran_def)
    moreover have "(q, j) = (p, i) \<longleftrightarrow> (\<rho>, j) = (\<pi>, i)"
      using q p(1) tables_okD(3) [OF T] by auto
    ultimately show ?thesis
      using entry_at_store [OF okp _ okq, of i j m1 w] p(2) j entry_at_outside [OF m1(1) okq, of j] page_bytes_apart [of n q]
      by auto
  qed
qed

lemma grow_tables:
  assumes T: "tables_ok T" "tables_in m T" and p: "T \<pi> = Some p" "length \<pi> < 2" "i < 512" "T (i # \<pi>) = None"
    and n: "page_ok n" "n \<notin> ran T"
    and m1: "same_outside (page_bytes n) m m1" "\<forall>j<512. entry_at m1 n j = 0"
  shows "tables_ok (T(i # \<pi> \<mapsto> n))" and "tables_in (store32 m1 (slot p i) (link n)) (T(i # \<pi> \<mapsto> n))"
    and "leaf (store32 m1 (slot p i) (link n)) (T(i # \<pi> \<mapsto> n)) v = leaf m T v"
proof -
  let ?T = "T(i # \<pi> \<mapsto> n)" and ?m = "store32 m1 (slot p i) (link n)"
  note fresh = grow_entries(1) [OF T(1) p(1,3) n m1] and other = grow_entries(2) [OF T(1) p(1,3) n m1]
  show "tables_ok ?T"
    using T(1) p n by (auto simp: tables_ok_def inj_on_def ran_def)
  have "T (j # i # \<pi>) = None" for j
    using p(4) tables_ok_parent [OF T(1), of j "i # \<pi>"] by (cases "T (j # i # \<pi>)") auto
  then have new: "entry_ok (entry_at ?m n j) \<and> (T(i # \<pi> \<mapsto> n)) (j # i # \<pi>) = None \<and> \<not> bit (entry_at ?m n j) 0" if "j < 512" for j
    using fresh [OF that] by simp
  have old: "entry_ok (entry_at ?m q j) \<and> (length \<rho> < 2 \<longrightarrow>
      ?T (j # \<rho>) = (if bit (entry_at ?m q j) 0 then Some (unat (drop_bit 10 (entry_at ?m q j))) else None))"
    if q: "T \<rho> = Some q" and j: "j < 512" for \<rho> q j
    using other [OF j q] link_props [OF n(1)] tables_inD [OF T(2) q j] by (cases "(\<rho>, j) = (\<pi>, i)") auto
  show "tables_in ?m ?T"
    unfolding tables_in_def
  proof (intro allI impI)
    fix \<rho> q j
    assume q: "?T \<rho> = Some q" and j: "j < (512::nat)"
    show "entry_ok (entry_at ?m q j) \<and>
      (length \<rho> < 2 \<longrightarrow> ?T (j # \<rho>) = (if bit (entry_at ?m q j) 0 then Some (unat (drop_bit 10 (entry_at ?m q j))) else None))"
      using q new [OF j] old [OF _ j, of \<rho> q] by (cases "\<rho> = i # \<pi>") auto
  qed
  show "leaf ?m ?T v = leaf m T v"
  proof (cases "path 0 v = i # \<pi>")
    case True
    then show ?thesis
      using fresh p(4) by (simp add: leaf_def)
  next
    case False
    have "path 0 v \<noteq> \<pi>"
      using p(2) by auto
    then show ?thesis
      using False other by (auto simp: leaf_def split: option.split)
  qed
qed

lemma grow_run:
  assumes F: "bitflags_spec F" and rep: "vm_rep s T (n # ns)" and may: "may_count b s"
    and p: "T \<pi> = Some p" "length \<pi> < 2" "i < 512" "T (i # \<pi>) = None"
  shows "\<exists>s1. init_ptable F b s = Ret (page n) s1 \<and>
    (let s' = s1\<lparr>mem := store32 (mem s1) (slot p i) (link n)\<rparr> in
      vm_rep s' (T(i # \<pi> \<mapsto> n)) ns \<and> entry_at (mem s') p i = link n \<and> paging_only s s' \<and> counted s s' 1 \<and>
      same_outside (page_bytes p \<union> page_bytes n) (mem s) (mem s') \<and>
      (\<forall>v. leaf (mem s') (T(i # \<pi> \<mapsto> n)) v = leaf (mem s) T v))"
proof -
  note r = vm_repD [OF rep] and okp = tables_okD(1) [OF vm_repD(1) [OF rep] p(1)]
  have n: "page_ok n" "n \<notin> ran T" "n \<notin> set ns"
    using r(3,4,5) by (auto simp: pool_free_def pool_rep_def)
  obtain s1 where run: "init_ptable F b s = Ret (page n) s1" "pool_free s1 ns" "paging_only s s1" "counted s s1 1"
    and m1: "same_outside (page_bytes n) (mem s) (mem s1)" "\<forall>j<512. entry_at (mem s1) n j = 0"
    using init_ptable_run [OF F r(3) may] by auto
  let ?s = "s1\<lparr>mem := store32 (mem s1) (slot p i) (link n)\<rparr>"
  note grow = grow_tables [OF r(1,2) p n(1,2) m1]
  have out: "same_outside (page_bytes p) (mem s1) (mem ?s)"
    using store_slot_outside [OF okp, of i] p(3) by simp
  have "pool_rep ?s ns"
  proof (rule pool_rep_frame [OF _ out])
    show "page_bytes p \<inter> page_bytes k = {}" if "k \<in> set ns" for k
      using that r(6) [OF p(1)] by (intro page_bytes_apart) auto
  qed (use run(2) in \<open>simp_all add: pool_free_def\<close>)
  moreover have "ran (T(i # \<pi> \<mapsto> n)) \<inter> set ns = {}"
    using r(4) n(3) p(4) by auto
  ultimately have "vm_rep ?s (T(i # \<pi> \<mapsto> n)) ns"
    using grow(1,2) run(2) by (simp add: vm_rep_def pool_free_def)
  moreover have "same_outside (page_bytes p \<union> page_bytes n) (mem s) (mem ?s)"
    by (rule same_outside_trans [OF same_outside_mono [OF m1(1)] same_outside_mono [OF out]]) auto
  moreover have "entry_at (mem ?s) p i = link n"
    using entry_at_store [OF okp _ okp, of i i] p(3) by simp
  moreover have "paging_only s ?s"
    using paging_only_trans [OF run(3) paging_only_mem] .
  ultimately show ?thesis
    using run(1,4) grow(3) by (simp add: Let_def)
qed

section \<open>\<^verbatim>\<open>walk_and_alloc\<close> grows the tree\<close>

text \<open>The number of tables missing on the way to a page, below a level.\<close>

definition missing :: "tables \<Rightarrow> nat \<Rightarrow> nat \<Rightarrow> nat" where
  "missing T level v = length (filter (\<lambda>k. T (path k v) = None) [0..<level])"

lemma missing_le: "missing T level v \<le> level"
  using length_filter_le [of "\<lambda>k. T (path k v) = None" "[0..<level]"] by (simp add: missing_def)

lemma missing_Suc: "missing T (Suc level) v = missing T level v + (if T (path level v) = None then 1 else 0)"
  by (simp add: missing_def)

lemma missing_all:
  assumes "tables_ok T" and "T (path level v) = None" and "level \<le> 2"
  shows "missing T level v = level"
  using path_missing [OF assms(1,2,3)] by (simp add: missing_def)

text \<open>A new table at a level is on the path of \<open>v\<close>, and its children are still missing.\<close>

lemma missing_grow: "level \<le> 2 \<Longrightarrow> missing (T(path level v \<mapsto> n)) level v = missing T level v"
proof -
  assume "level \<le> 2"
  then have "path k v \<noteq> path level v" if "k < level" for k
    using that length_path [of k v] length_path [of level v] by (metis diff_less_mono2 less_le_trans nat_less_le)
  then show ?thesis
    by (auto simp: missing_def intro!: arg_cong [where f = length] filter_cong)
qed

text \<open>
  Paging code made tables of the first \<open>k\<close> pages of the pool and changed only tables; \<open>grown\<close>: and no
  last-level entry.
\<close>

definition moved :: "'x palloc_state_scheme \<Rightarrow> tables \<Rightarrow> nat list \<Rightarrow> nat \<Rightarrow> 'x palloc_state_scheme \<Rightarrow> tables \<Rightarrow> bool" where
  "moved s T ns k s' T' \<longleftrightarrow> vm_rep s' T' (drop k ns) \<and> T \<subseteq>\<^sub>m T' \<and> ran T' = ran T \<union> set (take k ns) \<and>
     paging_only s s' \<and> counted s s' k \<and> same_outside (\<Union>(page_bytes ` ran T')) (mem s) (mem s')"

definition grown :: "'x palloc_state_scheme \<Rightarrow> tables \<Rightarrow> nat list \<Rightarrow> nat \<Rightarrow> 'x palloc_state_scheme \<Rightarrow> tables \<Rightarrow> bool" where
  "grown s T ns k s' T' \<longleftrightarrow> moved s T ns k s' T' \<and> (\<forall>v. leaf (mem s') T' v = leaf (mem s) T v)"

lemma moved_refl: "vm_rep s T ns \<Longrightarrow> moved s T ns 0 s T"
  by (simp add: moved_def)

lemma grown_refl: "vm_rep s T ns \<Longrightarrow> grown s T ns 0 s T"
  by (simp add: grown_def moved_refl)

lemma moved_trans:
  assumes "moved s T ns k s' T'" and "moved s' T' (drop k ns) k' s'' T''"
  shows "moved s T ns (k + k') s'' T''"
proof -
  have ran: "ran T' \<subseteq> ran T''"
    using assms(2) by (force simp: moved_def map_le_def ran_def dom_def)
  have "same_outside (\<Union>(page_bytes ` ran T'')) (mem s) (mem s'')"
    by (rule same_outside_trans [where m' = "mem s'"])
      (use assms ran in \<open>auto simp: moved_def intro: same_outside_mono\<close>)
  then show ?thesis
    using assms take_add [of k k' ns] map_le_trans [of T T' T''] paging_only_trans [of s s' s'']
      counted_trans [of s s' k s'' k']
    by (auto simp: moved_def add.commute)
qed

lemma grown_trans:
  "grown s T ns k s' T' \<Longrightarrow> grown s' T' (drop k ns) k' s'' T'' \<Longrightarrow> grown s T ns (k + k') s'' T''"
  by (auto simp: grown_def intro: moved_trans)

lemma grown_grow:
  assumes F: "bitflags_spec F" and rep: "vm_rep s T (n # ns)" and may: "may_count b s"
    and p: "T \<pi> = Some p" "length \<pi> < 2" "i < 512" "T (i # \<pi>) = None"
  shows "\<exists>s1. init_ptable F b s = Ret (page n) s1 \<and>
    (let s' = s1\<lparr>mem := store32 (mem s1) (slot p i) (link n)\<rparr> in
      grown s T (n # ns) 1 s' (T(i # \<pi> \<mapsto> n)) \<and> entry_at (mem s') p i = link n)"
proof -
  have sub: "T \<subseteq>\<^sub>m T(i # \<pi> \<mapsto> n)" "ran (T(i # \<pi> \<mapsto> n)) = insert n (ran T)"
    using p(4) by (auto simp: map_le_def)
  have "page_bytes p \<union> page_bytes n \<subseteq> \<Union>(page_bytes ` insert n (ran T))"
    using p(1) by (auto simp: ran_def)
  then show ?thesis
    using grow_run [OF assms] sub by (auto simp: grown_def moved_def Let_def intro: same_outside_mono)
qed

lemma walk_and_alloc_step:
  assumes F: "bitflags_spec F" and p: "page_ok p" and level: "Suc level \<le> 2"
    and ok: "entry_ok (entry_at (mem s) p (idx (Suc level) (unat a div 4096)))"
  shows "walk_and_alloc F b (Suc level) (page p) (VirtAddr a) s =
    (let i = idx (Suc level) (unat a div 4096); e = entry_at (mem s) p i in
      if bit e 0 then walk_and_alloc F b level (page (unat (drop_bit 10 e))) (VirtAddr a) s
      else bind (init_ptable F b) (\<lambda>ppn.
        bind (write_entry (slot p i) (Entry_new F ppn (Flags_V F))) (\<lambda>_.
        bind (read_entry (slot p i)) (\<lambda>e. walk_and_alloc F b level (Entry_ppn e) (VirtAddr a)))) s)"
  using ok level
  by (subst walk_and_alloc.simps) (simp add: table_of_page [OF p] VirtAddr_vpn_run table_index read_entry_def
      entry_at_def Entry_reads [OF F] Let_def)

text \<open>One level: the table below is there, can be made, or cannot.\<close>

lemma walk_and_alloc_below:
  fixes a :: usize
  assumes F: "bitflags_spec F" and rep: "vm_rep s T ns" and level: "Suc level \<le> 2"
    and p: "T (path (Suc level) (unat a div 4096)) = Some p"
  shows "T (path level (unat a div 4096)) = Some q \<Longrightarrow>
      walk_and_alloc F b (Suc level) (page p) (VirtAddr a) s = walk_and_alloc F b level (page q) (VirtAddr a) s"
    and "T (path level (unat a div 4096)) = None \<Longrightarrow> ns = [] \<Longrightarrow> may_count b s \<Longrightarrow>
      walk_and_alloc F b (Suc level) (page p) (VirtAddr a) s = Panics UnwrapNone"
    and "T (path level (unat a div 4096)) = None \<Longrightarrow> ns = n # ns' \<Longrightarrow> may_count b s \<Longrightarrow>
      \<exists>s'. walk_and_alloc F b (Suc level) (page p) (VirtAddr a) s = walk_and_alloc F b level (page n) (VirtAddr a) s' \<and>
        grown s T ns 1 s' (T(path level (unat a div 4096) \<mapsto> n))"
proof -
  let ?v = "unat a div 4096"
  let ?i = "idx (Suc level) ?v" and ?\<pi> = "path (Suc level) ?v"
  note r = vm_repD [OF rep] and ok = tables_okD(1) [OF vm_repD(1) [OF rep] p]
  have lv: "length ?\<pi> < 2" and path: "path level ?v = ?i # ?\<pi>"
    using level path_Suc [of level ?v] by simp_all
  note e = tables_inD [OF r(2) p idx_less(1) [of "Suc level" ?v]]
  note step = walk_and_alloc_step [OF F ok level e(1), unfolded Let_def]
  have child: "T (path level ?v) = (if bit (entry_at (mem s) p ?i) 0 then Some (unat (drop_bit 10 (entry_at (mem s) p ?i))) else None)"
    using e(2) [OF lv] path by simp
  show "walk_and_alloc F b (Suc level) (page p) (VirtAddr a) s = walk_and_alloc F b level (page q) (VirtAddr a) s"
    if "T (path level ?v) = Some q"
    using that child by (simp add: step split: if_splits)
  show "walk_and_alloc F b (Suc level) (page p) (VirtAddr a) s = Panics UnwrapNone"
    if "T (path level ?v) = None" "ns = []" "may_count b s"
    using that child init_ptable_run [OF F r(3) that(3)] by (simp add: step bind_def [of "init_ptable F b"] split: if_splits)
  show "\<exists>s'. walk_and_alloc F b (Suc level) (page p) (VirtAddr a) s = walk_and_alloc F b level (page n) (VirtAddr a) s' \<and>
      grown s T ns 1 s' (T(path level ?v \<mapsto> n))"
    if none: "T (path level ?v) = None" and ns: "ns = n # ns'" and may: "may_count b s"
  proof -
    obtain s1 where init: "init_ptable F b s = Ret (page n) s1"
      and grow: "grown s T ns 1 (s1\<lparr>mem := store32 (mem s1) (slot p ?i) (link n)\<rparr>) (T(?i # ?\<pi> \<mapsto> n))"
        "entry_at (store32 (mem s1) (slot p ?i) (link n)) p ?i = link n"
      using grown_grow [OF F rep [unfolded ns] may p lv idx_less(1) none [unfolded path]] ns by (auto simp: Let_def)
    have "page_ok n"
      using r(5) ns by simp
    then have "walk_and_alloc F b (Suc level) (page p) (VirtAddr a) s =
        walk_and_alloc F b level (page n) (VirtAddr a) (s1\<lparr>mem := store32 (mem s1) (slot p ?i) (link n)\<rparr>)"
      using none child grow(2) link_props(3)
      by (simp add: step bind_def [of "init_ptable F b"] init write_entry_def table_link [OF F] read_entry_def entry_at_def
          split: if_splits)
    then show ?thesis
      using grow(1) unfolding path by blast
  qed
qed

text \<open>After one new table the rest of the walk goes on with the remaining pages.\<close>

lemma grown_one:
  assumes "grown s T (n # ns) 1 s1 T1"
  shows "vm_rep s1 T1 ns" and "can_count b s (Suc m) \<Longrightarrow> can_count b s1 m"
    and "grown s1 T1 ns m s' T' \<Longrightarrow> grown s T (n # ns) (Suc m) s' T'"
proof -
  have count: "counted s s1 1" and rep: "vm_rep s1 T1 ns"
    using assms by (simp_all add: grown_def moved_def)
  then show "vm_rep s1 T1 ns" "can_count b s (Suc m) \<Longrightarrow> can_count b s1 m"
    using counted_can_count [OF count, of b m] by simp_all
  show "grown s1 T1 ns m s' T' \<Longrightarrow> grown s T (n # ns) (Suc m) s' T'"
    using grown_trans [OF assms, of m s' T'] by simp
qed

lemma walk_and_alloc_run:
  assumes F: "bitflags_spec F"
  shows "vm_rep s T ns \<Longrightarrow> level \<le> 2 \<Longrightarrow> T (path level (unat a div 4096)) = Some p \<Longrightarrow>
    can_count b s (missing T level (unat a div 4096)) \<Longrightarrow>
    (if missing T level (unat a div 4096) \<le> length ns
     then \<exists>s' T' q. walk_and_alloc F b level (page p) (VirtAddr a) s = Ret (slot q (idx 0 (unat a div 4096))) s' \<and>
       T' (path 0 (unat a div 4096)) = Some q \<and> grown s T ns (missing T level (unat a div 4096)) s' T'
     else walk_and_alloc F b level (page p) (VirtAddr a) s = Panics UnwrapNone)"
proof (induction level arbitrary: s T ns p)
  case 0
  note p = tables_okD(1) [OF vm_repD(1) [OF 0(1)] 0(3)]
  have "walk_and_alloc F b 0 (page p) (VirtAddr a) s = Ret (slot p (idx 0 (unat a div 4096))) s"
    by (subst walk_and_alloc.simps) (simp add: table_of_page [OF p] VirtAddr_vpn_run table_index run_simps)
  then show ?case
    using 0(1,3) grown_refl [OF 0(1)] by (auto simp: missing_def)
next
  case (Suc level)
  let ?v = "unat a div 4096"
  note below = walk_and_alloc_below [OF F Suc.prems(1-3)]
  have lv: "level \<le> 2"
    using Suc.prems(2) by simp
  show ?case
  proof (cases "T (path level ?v)")
    case (Some q)
    then show ?thesis
      using Suc.IH [OF Suc.prems(1) lv Some] Suc.prems(4) by (simp add: below(1) [OF Some] missing_Suc)
  next
    case None
    then have m: "missing T (Suc level) ?v = Suc (missing T level ?v)"
      by (simp add: missing_Suc)
    have may: "may_count b s"
      using can_count_may [OF Suc.prems(4)] m by simp
    show ?thesis
    proof (cases ns)
      case Nil
      then show ?thesis
        using below(2) [OF None Nil may] m by simp
    next
      case (Cons n ns')
      let ?T = "T(path level ?v \<mapsto> n)"
      obtain s1 where run: "walk_and_alloc F b (Suc level) (page p) (VirtAddr a) s = walk_and_alloc F b level (page n) (VirtAddr a) s1"
        and grow: "grown s T (n # ns') 1 s1 ?T"
        using below(3) [OF None Cons may] Cons by blast
      have mapped: "?T (path level ?v) = Some n"
        by simp
      note m' = missing_grow [OF lv, of T ?v n]
      have can: "can_count b s1 (missing ?T level ?v)"
        using grown_one(2) [OF grow] Suc.prems(4) m m' by simp
      note ih = Suc.IH [OF grown_one(1) [OF grow] lv mapped can, unfolded m']
      have "Suc (missing T level ?v) \<le> length (n # ns') \<longleftrightarrow> missing T level ?v \<le> length ns'"
        by simp
      then show ?thesis
        using ih grown_one(3) [OF grow, of "missing T level ?v"] unfolding run m Cons by (cases "missing T level ?v \<le> length ns'") (simp_all only: if_True if_False, blast)
    qed
  qed
qed

end
