(* ===== verification/VmMap.thy ===== *)
theory VmMap
  imports VmTables
begin

text \<open>
  What \<^verbatim>\<open>map\<close> and \<^verbatim>\<open>unmap\<close> do to the translation that the page tables stand for.
\<close>

section \<open>Last-level entries\<close>

lemma page_split: "v < 2 ^ 27 \<Longrightarrow> v = idx 0 v + 512 * (idx 1 v + 512 * idx 2 v)"
proof -
  assume "v < 2 ^ 27"
  then have "v div 262144 < 512"
    by (simp add: less_mult_imp_div_less)
  moreover have "v div 512 div 512 = v div 262144"
    by (simp add: div_mult2_eq [symmetric])
  ultimately have "idx 0 v = v mod 512" "idx 1 v = v div 512 mod 512" "idx 2 v = v div 512 div 512"
    by (simp_all add: idx_def)
  then show ?thesis
    by (simp only: mod_mult_div_eq)
qed

lemma page_path_unique:
  assumes "u < 2 ^ 20" and "v < 2 ^ 20" and "path 0 u = path 0 v" and "idx 0 u = idx 0 v"
  shows "u = v"
proof -
  have "idx 1 u = idx 1 v" "idx 2 u = idx 2 v"
    using assms(3) by (simp_all add: path_def upt_conv_Cons numeral_3_eq_3 numeral_2_eq_2)
  then show ?thesis
    using page_split [of u] page_split [of v] assms by simp
qed

lemma store32_twice [simp]: "store32 (store32 m a v) a w = store32 m a w"
  by (rule ext) (simp add: store32_def)

lemma store_leaf:
  assumes rep: "vm_rep s T ns" and q: "T (path 0 v) = Some q" and v: "v < 2 ^ 20" and w: "entry_ok w"
  shows "moved s T ns 0 (s\<lparr>mem := store32 (mem s) (slot q (idx 0 v)) w\<rparr>) T"
    and "u < 2 ^ 20 \<Longrightarrow> leaf (store32 (mem s) (slot q (idx 0 v)) w) T u = (if u = v then w else leaf (mem s) T u)"
proof -
  let ?m = "store32 (mem s) (slot q (idx 0 v)) w"
  note r = vm_repD [OF rep] and okq = tables_okD(1) [OF vm_repD(1) [OF rep] q]
  have len: "length (path 0 v) = 2"
    by simp
  have at: "entry_at ?m p i = (if (\<rho>, i) = (path 0 v, idx 0 v) then w else entry_at (mem s) p i)"
    if "T \<rho> = Some p" "i < 512" for \<rho> p i
  proof -
    have "(p, i) = (q, idx 0 v) \<longleftrightarrow> (\<rho>, i) = (path 0 v, idx 0 v)"
      using that(1) q tables_okD(3) [OF r(1)] by auto
    then show ?thesis
      using entry_at_store [OF okq, of "idx 0 v" p i "mem s" w] tables_okD(1) [OF r(1) that(1)] that(2) by simp
  qed
  have "tables_in ?m T"
    using r(2) w unfolding tables_in_def by (auto simp: at len split: if_splits)
  moreover have out: "same_outside (page_bytes q) (mem s) ?m"
    using store_slot_outside [OF okq] by simp
  moreover have "pool_rep (s\<lparr>mem := ?m\<rparr>) ns"
  proof (rule pool_rep_frame [of s ns "page_bytes q"])
    show "page_bytes q \<inter> page_bytes k = {}" if "k \<in> set ns" for k
      using that r(6) [OF q] by (intro page_bytes_apart) auto
  qed (use r(3) out in \<open>simp_all add: pool_free_def\<close>)
  ultimately show "moved s T ns 0 (s\<lparr>mem := ?m\<rparr>) T"
    using r q by (auto simp: moved_def vm_rep_def pool_free_def ran_def intro: same_outside_mono)
  show "leaf ?m T u = (if u = v then w else leaf (mem s) T u)" if "u < 2 ^ 20"
    using page_path_unique [OF that v] q by (auto simp: leaf_def at split: option.split)
qed

text \<open>The entry that \<^verbatim>\<open>map\<close> makes of an entry \<open>w\<close>: another page number, other permissions, valid.\<close>

definition mapped :: "Perms \<Rightarrow> nat \<Rightarrow> usize \<Rightarrow> usize" where
  "mapped perms f w = put_bit 0 True (put_perms perms (take_bit 10 w OR push_bit 10 (word_of_nat f)))"

lemma bit_mapped:
  "n < 10 \<Longrightarrow> bit (mapped perms f w) n \<longleftrightarrow> (if n = 0 then True else if n = 1 then p_read perms else if n = 2 then p_write perms
    else if n = 3 then p_exec perms else if n = 4 then p_user perms else bit w n)"
  by (simp add: mapped_def put_perms_def bit_put_bit bit_or_iff bit_push_bit_iff bit_take_bit_iff)

lemma drop_mapped: "f < 2 ^ 22 \<Longrightarrow> drop_bit 10 (mapped perms f w) = word_of_nat f"
proof (rule bit_word_eqI)
  fix k :: nat
  assume f: "f < 2 ^ 22"
  have "take_bit 22 (word_of_nat f :: usize) = word_of_nat f"
    using f by (simp add: take_bit_of_nat take_bit_nat_eq_self)
  then have "bit (word_of_nat f :: usize) k \<Longrightarrow> k < 22"
    using bit_take_bit_iff [of 22 "word_of_nat f :: usize" k] by simp
  then show "bit (drop_bit 10 (mapped perms f w)) k \<longleftrightarrow> bit (word_of_nat f :: usize) k"
    by (auto simp: mapped_def put_perms_def bit_put_bit bit_drop_bit_eq bit_or_iff bit_push_bit_iff bit_take_bit_iff)
qed

lemma mapped_props:
  assumes "f < 2 ^ 22"
  shows "entry_ok w \<Longrightarrow> entry_ok (mapped perms f w)" and "bit (mapped perms f w) 0"
    and "unat (drop_bit 10 (mapped perms f w)) = f" and "perms_of (mapped perms f w) = perms"
proof -
  show "unat (drop_bit 10 (mapped perms f w)) = f"
    using assms unfolding drop_mapped [OF assms] by simp
qed (simp_all add: bit_mapped entry_ok_def perms_of_def)

lemma entry_ok_updates:
  assumes "entry_ok w"
  shows "entry_ok (take_bit 10 w OR push_bit 10 n)" and "entry_ok (put_perms perms w)"
  using assms by (simp_all add: entry_ok_def put_perms_def bit_put_bit bit_or_iff bit_push_bit_iff bit_take_bit_iff)

lemma update_entry_run:
  assumes "f (Entry (load32 (mem s) p)) = ret e"
  shows "update_entry p f s = Ret () (s\<lparr>mem := store32 (mem s) p (entry_bits e)\<rparr>)"
  using assms by (simp add: update_entry_def read_entry_def write_entry_run)

text \<open>The three updates \<^verbatim>\<open>map\<close> makes to an entry.\<close>

lemma set_entry_run:
  assumes F: "bitflags_spec F" and w: "entry_ok (load32 (mem s) p)"
  shows "bind (update_entry p (Entry_set_ppn F (PhyPageNum (word_of_nat f)))) (\<lambda>_.
      bind (update_entry p (Entry_set_perms F perms)) (\<lambda>_.
      bind (update_entry p (Entry_set_valid F)) (\<lambda>_. g))) s =
    g (s\<lparr>mem := store32 (mem s) p (mapped perms f (load32 (mem s) p))\<rparr>)"
proof -
  note ok1 = entry_ok_updates(1) [OF w, of "word_of_nat f"]
  note ok2 = entry_ok_updates(2) [OF ok1, of perms]
  let ?w1 = "take_bit 10 (load32 (mem s) p) OR push_bit 10 (word_of_nat f)"
  let ?s1 = "s\<lparr>mem := store32 (mem s) p ?w1\<rparr>" and ?s2 = "s\<lparr>mem := store32 (mem s) p (put_perms perms ?w1)\<rparr>"
  have "update_entry p (Entry_set_ppn F (PhyPageNum (word_of_nat f))) s = Ret () ?s1"
    using update_entry_run [of "Entry_set_ppn F (PhyPageNum (word_of_nat f))"] Entry_writes(4) [OF F w] by fastforce
  moreover have "update_entry p (Entry_set_perms F perms) ?s1 = Ret () ?s2"
    using update_entry_run [of "Entry_set_perms F perms" ?s1 p, OF Entry_writes(3) [OF F]] ok1
    by (simp add: ram.load_store_same)
  moreover have "update_entry p (Entry_set_valid F) ?s2 =
      Ret () (s\<lparr>mem := store32 (mem s) p (mapped perms f (load32 (mem s) p))\<rparr>)"
    using update_entry_run [of "Entry_set_valid F" ?s2 p, OF Entry_writes(1) [OF F]] ok2
    by (simp add: ram.load_store_same mapped_def)
  ultimately show ?thesis
    by (simp add: bind_def)
qed

section \<open>Mapping\<close>

definition virt_page :: "nat \<Rightarrow> VirtAddr" where
  "virt_page v = VirtAddr (word_of_nat (4096 * v))"

definition phys_page :: "nat \<Rightarrow> PhysAddr" where
  "phys_page f = PhysAddr (word_of_nat (4096 * f))"

lemma page_address:
  assumes "v + i < 2 ^ 20"
  shows "usize_mul b PAGE_SIZE (word_of_nat i) = ret (word_of_nat (4096 * i))"
    and "VirtAddr_add b (virt_page v) (word_of_nat (4096 * i)) = ret (virt_page (v + i))"
    and "PhysAddr_add b (phys_page v) (word_of_nat (4096 * i)) = ret (phys_page (v + i))"
    and "unat (word_of_nat (4096 * v) :: usize) div 4096 = v"
    and "PhysAddr_ppn (phys_page v) = PhyPageNum (word_of_nat v)"
proof -
  have small: "unat (word_of_nat (4096 * k) :: usize) = 4096 * k" if "k \<le> v + i" for k
    using that assms by (simp del: of_nat_mult)
  have sum: "word_of_nat (4096 * v) + word_of_nat (4096 * i) = (word_of_nat (4096 * (v + i)) :: usize)"
    by (simp add: distrib_left)
  have prod: "PAGE_SIZE * word_of_nat i = (word_of_nat (4096 * i) :: usize)"
    by (simp add: PAGE_SIZE_def)
  have "unat PAGE_SIZE * unat (word_of_nat i :: usize) < 2 ^ 32"
    using assms by simp
  then show "usize_mul b PAGE_SIZE (word_of_nat i) = ret (word_of_nat (4096 * i))"
    by (simp only: usize_mul_ok prod)
  have "unat (word_of_nat (4096 * v) :: usize) + unat (word_of_nat (4096 * i) :: usize) < 2 ^ 32"
    using assms by (simp only: small le_add1 le_add2) simp
  then have add: "usize_add b (word_of_nat (4096 * v)) (word_of_nat (4096 * i)) = ret (word_of_nat (4096 * (v + i)))"
    by (simp only: usize_add_ok sum)
  show "VirtAddr_add b (virt_page v) (word_of_nat (4096 * i)) = ret (virt_page (v + i))"
    "PhysAddr_add b (phys_page v) (word_of_nat (4096 * i)) = ret (phys_page (v + i))"
    by (simp_all only: virt_page_def phys_page_def VirtAddr_add.simps PhysAddr_add.simps add bind_ret)
  show v: "unat (word_of_nat (4096 * v) :: usize) div 4096 = v"
    using small [of v] by simp
  have "unat (word_of_nat (4096 * v) div PAGE_SIZE) = unat (word_of_nat v :: usize)"
    using assms by (simp only: unat_div_PAGE v) simp
  then have "word_of_nat (4096 * v) div PAGE_SIZE = word_of_nat v"
    by (rule unsigned_word_eqI)
  then show "PhysAddr_ppn (phys_page v) = PhyPageNum (word_of_nat v)"
    by (simp only: phys_page_def PhysAddr_ppn.simps)
qed

lemma leaf_ok: "tables_in m T \<Longrightarrow> entry_ok (leaf m T v)"
  by (auto simp: leaf_def tables_in_def split: option.split)

lemma map_page:
  assumes F: "bitflags_spec F" and rep: "vm_rep s T ns" and root: "T [] = Some root"
    and v: "v + i < 2 ^ 20" and f: "f + i < 2 ^ 20" and can: "can_count b s 2" and pool: "2 \<le> length ns"
  shows "if bit (leaf (mem s) T (v + i)) 0
    then map_pages F b (page root) (virt_page v) (phys_page f) perms (i # is) s = Panics (ExplicitPanic ''remap'')
    else \<exists>k s' T'. k \<le> 2 \<and> moved s T ns k s' T' \<and>
      map_pages F b (page root) (virt_page v) (phys_page f) perms (i # is) s =
        map_pages F b (page root) (virt_page v) (phys_page f) perms is s' \<and>
      (\<forall>u<2 ^ 20. leaf (mem s') T' u =
        (if u = v + i then mapped perms (f + i) (leaf (mem s) T u) else leaf (mem s) T u))"
proof -
  let ?v = "v + i"
  have num: "unat (word_of_nat (4096 * ?v) :: usize) div 4096 = ?v"
    using page_address(4) [of "v + i" 0] v by simp
  have k: "missing T 2 ?v \<le> 2"
    by (rule missing_le)
  have "can_count b s (missing T 2 ?v)"
    using can k by (auto simp: can_count_def)
  then obtain s1 T1 q where run: "walk_and_alloc F b 2 (page root) (virt_page ?v) s = Ret (slot q (idx 0 ?v)) s1"
    and q: "T1 (path 0 ?v) = Some q" and grown: "grown s T ns (missing T 2 ?v) s1 T1"
    using walk_and_alloc_run [OF F rep, of 2 "word_of_nat (4096 * ?v)" root b] root pool k
    unfolding num virt_page_def by auto
  have rep1: "vm_rep s1 T1 (drop (missing T 2 ?v) ns)" and leaf1: "leaf (mem s1) T1 u = leaf (mem s) T u" for u
    using grown by (simp_all add: grown_def moved_def)
  have at: "load32 (mem s1) (slot q (idx 0 ?v)) = leaf (mem s) T ?v"
    using q leaf1 [of ?v] by (simp add: leaf_def entry_at_def)
  have ok: "entry_ok (leaf (mem s) T ?v)"
    using leaf_ok vm_repD(2) [OF rep] by blast
  have ppn: "PhysAddr_ppn (phys_page (f + i)) = PhyPageNum (word_of_nat (f + i))"
    using page_address(5) [of "f + i" 0] f by simp
  have step: "map_pages F b (page root) (virt_page v) (phys_page f) perms (i # is) s =
    (if bit (leaf (mem s) T ?v) 0 then Panics (ExplicitPanic ''remap'')
     else map_pages F b (page root) (virt_page v) (phys_page f) perms is
       (s1\<lparr>mem := store32 (mem s1) (slot q (idx 0 ?v)) (mapped perms (f + i) (leaf (mem s) T ?v))\<rparr>))"
    using run ok set_entry_run [OF F, of s1 "slot q (idx 0 ?v)" "f + i" perms
      "map_pages F b (page root) (virt_page v) (phys_page f) perms is"]
    unfolding map_pages.simps(2) page_address(1,2) [OF v] page_address(3) [OF f] ppn bind_ret
    by (simp add: bind_def [of "walk_and_alloc F b 2 x y" for x y] at read_entry_def Entry_reads [OF F] panic_apply
        del: of_nat_mult of_nat_add)
  show ?thesis
  proof (cases "bit (leaf (mem s) T ?v) 0")
    case False
    have w: "entry_ok (mapped perms (f + i) (leaf (mem s) T ?v))"
      using mapped_props(1) [of "f + i"] ok f by simp
    note store = store_leaf [OF rep1 q v w]
    have "moved s T ns (missing T 2 ?v)
        (s1\<lparr>mem := store32 (mem s1) (slot q (idx 0 ?v)) (mapped perms (f + i) (leaf (mem s) T ?v))\<rparr>) T1"
      using moved_trans [of s T ns "missing T 2 ?v" s1 T1 0] grown store(1) by (simp add: grown_def)
    then show ?thesis
      using False step k store(2) leaf1 by (intro if_not_P [THEN iffD2]) (auto intro!: exI)
  next
    case True
    then show ?thesis
      by (simp only: step if_True)
  qed
qed

lemma can_count_mono: "can_count b s k \<Longrightarrow> n \<le> k \<Longrightarrow> can_count b s n"
  by (auto simp: can_count_def)

lemma moved_can_count: "moved s T ns k s' T' \<Longrightarrow> can_count b s (k + n) \<Longrightarrow> can_count b s' n"
  unfolding moved_def using counted_can_count by blast

lemma moved_root: "moved s T ns k s' T' \<Longrightarrow> T [] = Some root \<Longrightarrow> T' [] = Some root"
  by (auto simp: moved_def map_le_def dom_def)

lemma translate_valid: "translate m T v = None \<longleftrightarrow> \<not> bit (leaf m T v) 0"
  by (simp add: translate_def Let_def)

lemma translate_mapped: "f < 2 ^ 22 \<Longrightarrow> leaf m T v = mapped perms f w \<Longrightarrow> translate m T v = Some (f, perms)"
  using mapped_props(2-4) [of f perms w] by (simp add: translate_def Let_def del: unsigned_drop_bit_eq)

lemma map_page_translate:
  assumes F: "bitflags_spec F" and rep: "vm_rep s T ns" and root: "T [] = Some root"
    and v: "v + i < 2 ^ 20" and f: "f + i < 2 ^ 20" and can: "can_count b s 2" and pool: "2 \<le> length ns"
    and free: "translate (mem s) T (v + i) = None"
  shows "\<exists>k s' T'. k \<le> 2 \<and> moved s T ns k s' T' \<and>
      map_pages F b (page root) (virt_page v) (phys_page f) perms (i # is) s =
        map_pages F b (page root) (virt_page v) (phys_page f) perms is s' \<and>
      (\<forall>u<2 ^ 20. translate (mem s') T' u = (if u = v + i then Some (f + i, perms) else translate (mem s) T u))"
proof -
  obtain k s' T' where k: "k \<le> 2" "moved s T ns k s' T'"
    and run: "map_pages F b (page root) (virt_page v) (phys_page f) perms (i # is) s =
        map_pages F b (page root) (virt_page v) (phys_page f) perms is s'"
    and leaf: "\<forall>u<2 ^ 20. leaf (mem s') T' u = (if u = v + i then mapped perms (f + i) (leaf (mem s) T u) else leaf (mem s) T u)"
    using map_page [OF assms(1-7), of perms "is"] free by (auto simp: translate_valid)
  have "translate (mem s') T' u = (if u = v + i then Some (f + i, perms) else translate (mem s) T u)" if "u < 2 ^ 20" for u
  proof (cases "u = v + i")
    case True
    then show ?thesis
      using leaf [rule_format, OF that] f by (simp add: translate_mapped)
  next
    case False
    then show ?thesis
      using leaf [rule_format, OF that] by (simp add: translate_def)
  qed
  then show ?thesis
    using k run by blast
qed

lemma map_pages_run:
  assumes F: "bitflags_spec F"
  shows "vm_rep s T ns \<Longrightarrow> T [] = Some root \<Longrightarrow> distinct is \<Longrightarrow>
    (\<And>i. i \<in> set is \<Longrightarrow> v + i < 2 ^ 20 \<and> f + i < 2 ^ 20) \<Longrightarrow> can_count b s (2 * length is) \<Longrightarrow> 2 * length is \<le> length ns \<Longrightarrow>
    (\<And>i. i \<in> set is \<Longrightarrow> translate (mem s) T (v + i) = None) \<Longrightarrow>
    \<exists>k s' T'. k \<le> 2 * length is \<and> moved s T ns k s' T' \<and>
      map_pages F b (page root) (virt_page v) (phys_page f) perms is s = Ret () s' \<and>
      (\<forall>u<2 ^ 20. translate (mem s') T' u =
        (if \<exists>i\<in>set is. u = v + i then Some (f + (u - v), perms) else translate (mem s) T u))"
proof (induction "is" arbitrary: s T ns)
  case Nil
  then show ?case
    using moved_refl [OF Nil(1)] by (auto simp: run_simps)
next
  case (Cons i "is")
  have i: "v + i < 2 ^ 20" "f + i < 2 ^ 20" "can_count b s 2" "2 \<le> length ns" "translate (mem s) T (v + i) = None"
    using Cons.prems(4) [of i] Cons.prems(7) [of i] can_count_mono [OF Cons.prems(5), of 2] Cons.prems(6) by auto
  obtain k s1 T1 where k: "k \<le> 2" and m: "moved s T ns k s1 T1"
    and run: "map_pages F b (page root) (virt_page v) (phys_page f) perms (i # is) s =
        map_pages F b (page root) (virt_page v) (phys_page f) perms is s1"
    and t1: "\<forall>u<2 ^ 20. translate (mem s1) T1 u = (if u = v + i then Some (f + i, perms) else translate (mem s) T u)"
    using map_page_translate [OF F Cons.prems(1,2) i, of perms "is"] by blast
  have rep1: "vm_rep s1 T1 (drop k ns)"
    using m by (simp add: moved_def)
  have can1: "can_count b s1 (2 * length is)"
    using k by (intro moved_can_count [OF m] can_count_mono [OF Cons.prems(5)]) simp
  have unmapped: "translate (mem s1) T1 (v + j) = None" if "j \<in> set is" for j
    using that t1 Cons.prems(3) Cons.prems(4) [of j] Cons.prems(7) [of j] by auto
  have bounds: "v + j < 2 ^ 20 \<and> f + j < 2 ^ 20" if "j \<in> set is" for j
    using that Cons.prems(4) [of j] by simp
  have "distinct is" "2 * length is \<le> length (drop k ns)"
    using Cons.prems(3,6) k by simp_all
  then obtain k' s' T' where k': "k' \<le> 2 * length is" and m': "moved s1 T1 (drop k ns) k' s' T'"
    and run': "map_pages F b (page root) (virt_page v) (phys_page f) perms is s1 = Ret () s'"
    and t': "\<forall>u<2 ^ 20. translate (mem s') T' u =
        (if \<exists>j\<in>set is. u = v + j then Some (f + (u - v), perms) else translate (mem s1) T1 u)"
    using Cons.IH [OF rep1 moved_root [OF m Cons.prems(2)] _ bounds can1 _ unmapped] by blast
  have "k + k' \<le> 2 * length (i # is)"
    using k k' by simp
  moreover have "\<forall>u<2 ^ 20. translate (mem s') T' u =
      (if \<exists>j\<in>set (i # is). u = v + j then Some (f + (u - v), perms) else translate (mem s) T u)"
    using t1 t' by auto
  ultimately show ?case
    using moved_trans [OF m m'] run run' by (intro exI [of _ "k + k'"] exI [of _ s'] exI [of _ T']) simp
qed

lemma map_pages_remap:
  assumes F: "bitflags_spec F"
  shows "vm_rep s T ns \<Longrightarrow> T [] = Some root \<Longrightarrow> (\<And>i. i \<in> set is \<Longrightarrow> v + i < 2 ^ 20 \<and> f + i < 2 ^ 20) \<Longrightarrow>
    can_count b s (2 * length is) \<Longrightarrow> 2 * length is \<le> length ns \<Longrightarrow>
    j \<in> set is \<Longrightarrow> translate (mem s) T (v + j) \<noteq> None \<Longrightarrow>
    map_pages F b (page root) (virt_page v) (phys_page f) perms is s = Panics (ExplicitPanic ''remap'')"
proof (induction "is" arbitrary: s T ns)
  case (Cons i "is")
  have i: "v + i < 2 ^ 20" "f + i < 2 ^ 20" "can_count b s 2" "2 \<le> length ns"
    using Cons.prems(3) [of i] can_count_mono [OF Cons.prems(4), of 2] Cons.prems(5) by auto
  show ?case
  proof (cases "translate (mem s) T (v + i) = None")
    case False
    then show ?thesis
      using map_page [OF F Cons.prems(1,2) i, of perms "is"] by (simp add: translate_valid)
  next
    case True
    obtain k s1 T1 where k: "k \<le> 2" and m: "moved s T ns k s1 T1"
      and run: "map_pages F b (page root) (virt_page v) (phys_page f) perms (i # is) s =
          map_pages F b (page root) (virt_page v) (phys_page f) perms is s1"
      and t1: "\<forall>u<2 ^ 20. translate (mem s1) T1 u = (if u = v + i then Some (f + i, perms) else translate (mem s) T u)"
      using map_page_translate [OF F Cons.prems(1,2) i True, of perms "is"] by blast
    have rep1: "vm_rep s1 T1 (drop k ns)"
      using m by (simp add: moved_def)
    have can1: "can_count b s1 (2 * length is)"
      using k by (intro moved_can_count [OF m] can_count_mono [OF Cons.prems(4)]) simp
    have j: "j \<in> set is" "translate (mem s1) T1 (v + j) \<noteq> None"
      using Cons.prems(6,7) True t1 Cons.prems(3) [of j] by auto
    show ?thesis
      unfolding run using Cons.prems(3,5) k j
      by (intro Cons.IH [OF rep1 moved_root [OF m Cons.prems(2)] _ can1]) auto
  qed
qed simp

section \<open>Unmapping\<close>

lemma leaf_outside:
  assumes "same_outside A m m'" and "tables_ok T" and "\<And>p. p \<in> ran T \<Longrightarrow> A \<inter> page_bytes p = {}"
  shows "leaf m' T u = leaf m T u" and "tables_in m T \<Longrightarrow> tables_in m' T"
proof -
  have at: "entry_at m' p i = entry_at m p i" if "T \<rho> = Some p" "i < 512" for \<rho> p i
    using entry_at_outside [OF assms(1) tables_okD(1) [OF assms(2) that(1)], of i] that assms(3) [of p]
    by (auto simp: ran_def)
  show "leaf m' T u = leaf m T u"
    by (auto simp: leaf_def at split: option.split)
  show "tables_in m' T" if "tables_in m T"
    using that by (simp add: tables_in_def at)
qed

lemma free_page_run:
  assumes "vm_rep s T ns" and "page_ok f" and "f \<notin> set ns" and "f \<notin> ran T"
  shows "\<exists>s'. palloc_free b (page f) s = Ret () s' \<and> vm_rep s' T (f # ns) \<and> paging_only s s' \<and> counted s s' 0 \<and>
    same_outside (page_bytes f) (mem s) (mem s') \<and> (\<forall>u. leaf (mem s') T u = leaf (mem s) T u)"
proof -
  note r = vm_repD [OF assms(1)]
  obtain s' where s': "palloc_free b (page f) s = Ret () s'" "s' = s\<lparr>mem := mem s', page_allocator := page_allocator s'\<rparr>"
    "pool_free s' (f # ns)" "same_outside (page_bytes f) (mem s) (mem s')"
    "counted s s' 0"
    using palloc_free_run [OF r(3) assms(2,3), of b] by (auto simp: counted_def)
  have apart: "page_bytes f \<inter> page_bytes p = {}" if "p \<in> ran T" for p
    using that assms(4) by (intro page_bytes_apart) auto
  have "paging_only s s'"
    unfolding paging_only_def by (fact s'(2))
  moreover have "vm_rep s' T (f # ns)"
    using r(1,4) leaf_outside(2) [OF s'(4) r(1) apart r(2)] s'(3) assms(4) by (simp add: vm_rep_def)
  ultimately show ?thesis
    using s'(1,4,5) leaf_outside(1) [OF s'(4) r(1) apart] by blast
qed

text \<open>The memory \<^verbatim>\<open>unmap\<close> may write: the tables, and the freed page.\<close>

definition unmapped :: "'x palloc_state_scheme \<Rightarrow> tables \<Rightarrow> nat list \<Rightarrow> nat list \<Rightarrow> 'x palloc_state_scheme \<Rightarrow> bool" where
  "unmapped s T ns fs s' \<longleftrightarrow> vm_rep s' T (rev fs @ ns) \<and> paging_only s s' \<and> counted s s' 0 \<and>
     same_outside (\<Union>(page_bytes ` (ran T \<union> set fs))) (mem s) (mem s')"

lemma unmapped_trans:
  assumes "unmapped s T ns fs s'" and "unmapped s' T (rev fs @ ns) gs s''"
  shows "unmapped s T ns (fs @ gs) s''"
proof -
  have "same_outside (\<Union>(page_bytes ` (ran T \<union> set (fs @ gs)))) (mem s) (mem s'')"
    by (rule same_outside_trans [where m' = "mem s'"])
      (use assms in \<open>auto simp: unmapped_def intro: same_outside_mono\<close>)
  then show ?thesis
    using assms paging_only_trans [of s s' s''] counted_trans [of s s' 0 s'' 0] by (simp add: unmapped_def)
qed

lemma clear_leaf:
  assumes "vm_rep s T ns" and "T (path 0 v) = Some q" and "v < 2 ^ 20"
  shows "unmapped s T ns [] (s\<lparr>mem := store32 (mem s) (slot q (idx 0 v)) 0\<rparr>)"
    and "u < 2 ^ 20 \<Longrightarrow> leaf (store32 (mem s) (slot q (idx 0 v)) 0) T u = (if u = v then 0 else leaf (mem s) T u)"
  using store_leaf [OF assms entry_ok_0] by (simp_all add: moved_def unmapped_def)

lemma unmap_walk:
  assumes F: "bitflags_spec F" and rep: "vm_rep s T ns" and root: "T [] = Some root" and v: "v + i < 2 ^ 20"
  shows "unmap_pages F b (page root) (virt_page v) free (i # is) s =
    (case T (path 0 (v + i)) of
       None \<Rightarrow> Panics UnwrapNone
     | Some q \<Rightarrow>
         if bit (leaf (mem s) T (v + i)) 0
         then bind (if free then palloc_free b (page (unat (drop_bit 10 (leaf (mem s) T (v + i))))) else ret ()) (\<lambda>_.
           bind (write_entry (slot q (idx 0 (v + i))) Entry_default) (\<lambda>_.
           unmap_pages F b (page root) (virt_page v) free is)) s
         else Panics (ExplicitPanic ''unmap''))"
proof -
  let ?v = "v + i"
  note r = vm_repD [OF rep]
  have num: "unat (word_of_nat (4096 * ?v) :: usize) div 4096 = ?v"
    using page_address(4) [of ?v 0] v by simp
  have "walk F b 2 (page root) (virt_page ?v) s = Ret (map_option (\<lambda>q. slot q (idx 0 ?v)) (T (path 0 ?v))) s"
    using walk_run [OF F r(1,2), of 2 "word_of_nat (4096 * ?v)" root b] root unfolding num virt_page_def by simp
  then have walk: "bind (walk F b 2 (page root) (virt_page ?v)) g s = g (map_option (\<lambda>q. slot q (idx 0 ?v)) (T (path 0 ?v))) s"
    for g :: "usize option \<Rightarrow> _"
    by (simp add: bind_def)
  have ok: "entry_ok (leaf (mem s) T ?v)"
    using leaf_ok r(2) by blast
  show ?thesis
    unfolding unmap_pages.simps(2) page_address(1,2) [OF v] bind_ret walk
    using ok by (auto simp: leaf_def entry_at_def read_entry_def Entry_reads [OF F] panic_apply split: option.split)
qed

lemma unmap_page:
  assumes F: "bitflags_spec F" and rep: "vm_rep s T ns" and root: "T [] = Some root" and v: "v + i < 2 ^ 20"
    and tr: "translate (mem s) T (v + i) = Some (f, perms)"
    and own: "free \<Longrightarrow> page_ok f \<and> f \<notin> set ns \<and> f \<notin> ran T"
  shows "\<exists>s'. unmap_pages F b (page root) (virt_page v) free (i # is) s = unmap_pages F b (page root) (virt_page v) free is s' \<and>
    unmapped s T ns (if free then [f] else []) s' \<and>
    (\<forall>u<2 ^ 20. translate (mem s') T u = (if u = v + i then None else translate (mem s) T u))"
proof -
  let ?w = "leaf (mem s) T (v + i)"
  have w: "bit ?w 0" "unat (drop_bit 10 ?w) = f"
    using tr by (auto simp: translate_def Let_def split: if_splits)
  obtain q where q: "T (path 0 (v + i)) = Some q"
    using w(1) by (auto simp: leaf_def split: option.splits)
  obtain s1 where free: "(if free then palloc_free b (page f) else ret ()) s = Ret () s1"
    and u1: "unmapped s T ns (if free then [f] else []) s1" and l1: "\<And>u. leaf (mem s1) T u = leaf (mem s) T u"
  proof (cases free)
    case True
    then obtain s1 where s1: "palloc_free b (page f) s = Ret () s1" "vm_rep s1 T (f # ns)" "paging_only s s1" "counted s s1 0"
      "same_outside (page_bytes f) (mem s) (mem s1)" "\<forall>u. leaf (mem s1) T u = leaf (mem s) T u"
      using free_page_run [OF rep, of f b] own by blast
    then have "unmapped s T ns [f] s1"
      by (auto simp: unmapped_def intro: same_outside_mono)
    then show ?thesis
      using that [of s1] s1 True by simp
  next
    case False
    then show ?thesis
      using that [of s] rep by (simp add: unmapped_def ret_apply)
  qed
  let ?s = "s1\<lparr>mem := store32 (mem s1) (slot q (idx 0 (v + i))) 0\<rparr>"
  have rep1: "vm_rep s1 T (rev (if free then [f] else []) @ ns)"
    using u1 by (simp add: unmapped_def)
  have "unmap_pages F b (page root) (virt_page v) free (i # is) s = unmap_pages F b (page root) (virt_page v) free is ?s"
    unfolding unmap_walk [OF F rep root v] using free w q
    by (cases free) (simp_all add: bind_def [of "palloc_free b x" for x] write_entry_def Entry_default_def ret_apply
        del: unsigned_drop_bit_eq)
  moreover have "unmapped s T ns (if free then [f] else []) ?s"
    using unmapped_trans [OF u1 clear_leaf(1) [OF rep1 q v]] by simp
  moreover have "translate (mem ?s) T u = (if u = v + i then None else translate (mem s) T u)" if "u < 2 ^ 20" for u
    using clear_leaf(2) [OF rep1 q v that] l1 [of u] by (simp add: translate_def)
  ultimately show ?thesis
    by blast
qed

lemma unmap_pages_run:
  assumes F: "bitflags_spec F"
  shows "vm_rep s T ns \<Longrightarrow> T [] = Some root \<Longrightarrow> distinct is \<Longrightarrow> (\<And>i. i \<in> set is \<Longrightarrow> v + i < 2 ^ 20) \<Longrightarrow>
    (\<And>i. i \<in> set is \<Longrightarrow> map_option fst (translate (mem s) T (v + i)) = Some (g i)) \<Longrightarrow>
    (\<And>i. free \<Longrightarrow> i \<in> set is \<Longrightarrow> page_ok (g i) \<and> g i \<notin> set ns \<and> g i \<notin> ran T) \<Longrightarrow> (free \<Longrightarrow> inj_on g (set is)) \<Longrightarrow>
    \<exists>s'. unmap_pages F b (page root) (virt_page v) free is s = Ret () s' \<and>
      unmapped s T ns (if free then map g is else []) s' \<and>
      (\<forall>u<2 ^ 20. translate (mem s') T u = (if \<exists>i\<in>set is. u = v + i then None else translate (mem s) T u))"
proof (induction "is" arbitrary: s ns)
  case Nil
  then show ?case
    by (auto simp: unmapped_def run_simps)
next
  case (Cons i "is")
  obtain perms where tr: "translate (mem s) T (v + i) = Some (g i, perms)"
    using Cons.prems(5) [of i] by auto
  have i: "v + i < 2 ^ 20" "free \<Longrightarrow> page_ok (g i) \<and> g i \<notin> set ns \<and> g i \<notin> ran T"
    using Cons.prems(4) [of i] Cons.prems(6) [of i] by auto
  obtain s1 where run: "unmap_pages F b (page root) (virt_page v) free (i # is) s = unmap_pages F b (page root) (virt_page v) free is s1"
    and u1: "unmapped s T ns (if free then [g i] else []) s1"
    and t1: "\<forall>u<2 ^ 20. translate (mem s1) T u = (if u = v + i then None else translate (mem s) T u)"
    using unmap_page [OF F Cons.prems(1,2) i(1) tr, of free b "is"] i(2) by blast
  let ?ns = "rev (if free then [g i] else []) @ ns"
  have rep1: "vm_rep s1 T ?ns"
    using u1 by (simp add: unmapped_def)
  have dist: "distinct is" and bound: "\<And>j. j \<in> set is \<Longrightarrow> v + j < 2 ^ 20"
    using Cons.prems(3,4) by auto
  have tr1: "map_option fst (translate (mem s1) T (v + j)) = Some (g j)" if "j \<in> set is" for j
    using that t1 Cons.prems(3) bound [OF that] Cons.prems(5) [of j] by auto
  have own1: "page_ok (g j) \<and> g j \<notin> set ?ns \<and> g j \<notin> ran T" if free "j \<in> set is" for j
  proof -
    have "g j \<noteq> g i"
      using that Cons.prems(3,7) by (metis distinct.simps(2) inj_onD list.set_intros)
    then show ?thesis
      using that Cons.prems(6) [OF that(1), of j] by simp
  qed
  have inj1: "inj_on g (set is)" if free
    using Cons.prems(7) that by simp
  obtain s' where run': "unmap_pages F b (page root) (virt_page v) free is s1 = Ret () s'"
    and u': "unmapped s1 T ?ns (if free then map g is else []) s'"
    and t': "\<forall>u<2 ^ 20. translate (mem s') T u = (if \<exists>i\<in>set is. u = v + i then None else translate (mem s1) T u)"
    using Cons.IH [OF rep1 Cons.prems(2) dist bound tr1 own1 inj1] by blast
  have "unmapped s T ns (if free then map g (i # is) else []) s'"
    using unmapped_trans [OF u1 u'] by (simp split: if_splits)
  moreover have "\<forall>u<2 ^ 20. translate (mem s') T u =
      (if \<exists>j\<in>set (i # is). u = v + j then None else translate (mem s) T u)"
    using t1 t' by auto
  ultimately show ?case
    using run run' by auto
qed

end
