(* ===== verification/VmSpec.thy ===== *)
theory VmSpec
  imports VmMap
begin

text \<open>
  The contract of the page tables: a root table as \<^verbatim>\<open>init_ptable\<close> makes it, \<^verbatim>\<open>walk\<close> and
  \<^verbatim>\<open>walk_and_alloc\<close> on any tree, and \<^verbatim>\<open>map\<close> and \<^verbatim>\<open>unmap\<close> of a range as updates of the partial function
  from virtual to physical pages that the tables stand for, with all their panics.
\<close>

section \<open>Ranges\<close>

lemma page_offsets [simp]: "VirtAddr_offset (virt_page v) = 0" "PhysAddr_offset (phys_page f) = 0"
proof -
  have "(4096 :: usize) * x mod 4096 = 0" for x
  proof -
    have "unat (4096 * x) mod 4096 = 0"
      by (simp add: unat_word_ariths mod_mod_cancel)
    then have "unat (4096 * x mod 4096) = 0"
      by (simp add: unat_mod)
    then show ?thesis
      by (simp add: unat_eq_zero)
  qed
  then show "VirtAddr_offset (virt_page v) = 0" "PhysAddr_offset (phys_page f) = 0"
    by (simp_all add: virt_page_def phys_page_def PAGE_SIZE_def)
qed

lemma range_size:
  assumes "k < 2 ^ 20"
  shows "word_of_nat (4096 * k) mod PAGE_SIZE = 0" and "unat (word_of_nat (4096 * k) div PAGE_SIZE) = k"
proof -
  have k: "unat (word_of_nat (4096 * k) :: usize) = 4096 * k"
    using assms by (simp del: of_nat_mult)
  have "unat (word_of_nat (4096 * k) mod PAGE_SIZE) = 0"
    by (simp only: unat_mod_PAGE k mod_mult_self1_is_0)
  then show "word_of_nat (4096 * k) mod PAGE_SIZE = 0"
    by (simp only: unat_eq_zero)
  show "unat (word_of_nat (4096 * k) div PAGE_SIZE) = k"
    by (simp only: unat_div_PAGE k)
qed

lemma in_range: "(\<exists>i\<in>set [0..<k]. u = v + i) \<longleftrightarrow> u \<in> {v..<v + k}"
  by (auto intro!: bexI [of _ "u - v"])

lemma vm_map_range:
  "k < 2 ^ 20 \<Longrightarrow> vm_map F b table (virt_page v) (phys_page f) (word_of_nat (4096 * k)) perms =
    map_pages F b table (virt_page v) (phys_page f) perms [0..<k]"
  by (simp only: vm_map_def page_offsets range_size simp_thms if_False)

lemma vm_unmap_range:
  "k < 2 ^ 20 \<Longrightarrow> vm_unmap F b table (virt_page v) (word_of_nat (4096 * k)) free =
    unmap_pages F b table (virt_page v) free [0..<k]"
  by (simp only: vm_unmap_def page_offsets range_size simp_thms if_False)

section \<open>Programs that only read\<close>

definition reads_only :: "('s, 'a) prog \<Rightarrow> bool" where
  "reads_only f \<longleftrightarrow> (\<forall>s. f s \<noteq> Hangs \<and> (\<forall>r s'. f s = Ret r s' \<longrightarrow> s' = s))"

lemma reads_only_basic:
  "reads_only (ret x)" "reads_only (panic e)" "reads_only (gets f)" "reads_only (unwrap_option v)"
  "reads_only (usize_mul b m n)" "reads_only (slice_index sl sz i)"
  by (auto simp: reads_only_def unwrap_option_def usize_mul_def slice_index_def run_simps split: option.splits)

lemma reads_onlyD: "reads_only f \<Longrightarrow> f s \<noteq> Hangs \<and> (\<forall>r s'. f s = Ret r s' \<longrightarrow> s' = s)"
  by (simp add: reads_only_def)

lemma reads_only_bind: "reads_only f \<Longrightarrow> (\<And>x. reads_only (g x)) \<Longrightarrow> reads_only (bind f g)"
  unfolding reads_only_def bind_def by (fastforce split: option.splits sum.splits)

lemma bind_reads:
  assumes "reads_only f" and "bind f g s = Ret x s'"
  obtains y where "f s = Ret y s" and "g y s = Ret x s'"
  using assms that by (auto simp: bind_def reads_only_def split: option.splits sum.splits) metis

lemma reads_only_if: "(c \<Longrightarrow> reads_only f) \<Longrightarrow> (\<not> c \<Longrightarrow> reads_only g) \<Longrightarrow> reads_only (if c then f else g)"
  by simp

lemma reads_only_table: "reads_only (PhyPageNum_as_pte_mut b p)" "reads_only (VirtAddr_vpn va level)"
  "reads_only (read_entry e)" "reads_only (Entry_valid F w)"
proof -
  show "reads_only (PhyPageNum_as_pte_mut b p)"
    by (cases p) (simp, intro reads_only_bind reads_only_basic)
  show "reads_only (VirtAddr_vpn va level)"
    by (cases va) (auto simp: VirtAddr_vpn.simps intro: reads_only_basic)
  show "reads_only (read_entry e)"
    unfolding read_entry_def by (rule reads_only_basic)
  show "reads_only (Entry_valid F w)"
    unfolding Entry_valid_def Entry_flags_def by (intro reads_only_bind reads_only_basic)
qed

lemmas reads_only_intros = reads_only_bind reads_only_if reads_only_basic reads_only_table

lemma walk_reads: "reads_only (walk F b level p va)"
proof (induction level arbitrary: p rule: less_induct)
  case (less level)
  show ?case
    by (subst walk.simps) (intro reads_only_intros less, simp)
qed

section \<open>A root table\<close>

lemma init_root:
  assumes F: "bitflags_spec F" and pool: "pool_free s (n # ns)" and may: "may_count b s"
  shows "\<exists>s'. init_ptable F b s = Ret (page n) s' \<and> vm_rep s' [[] \<mapsto> n] ns \<and> paging_only s s' \<and> counted s s' 1 \<and>
    same_outside (page_bytes n) (mem s) (mem s') \<and> (\<forall>v. leaf (mem s') [[] \<mapsto> n] v = 0)"
proof -
  obtain s' where s': "init_ptable F b s = Ret (page n) s'" "pool_free s' ns" "paging_only s s'" "counted s s' 1"
    "same_outside (page_bytes n) (mem s) (mem s')" "\<forall>i<512. entry_at (mem s') n i = 0"
    using init_ptable_run [OF F pool may] by auto
  have n: "page_ok n" "n \<notin> set ns"
    using pool by (simp_all add: pool_free_def pool_rep_def)
  have "tables_ok [[] \<mapsto> n]" "tables_in (mem s') [[] \<mapsto> n]"
    using n(1) s'(6) by (auto simp: tables_ok_def tables_in_def split: if_splits)
  then have "vm_rep s' [[] \<mapsto> n] ns"
    using s'(2) n(2) by (simp add: vm_rep_def)
  moreover have "leaf (mem s') [[] \<mapsto> n] v = 0" for v
    using path_Suc [of 0 v] by (simp add: leaf_def)
  ultimately show ?thesis
    using s' by blast
qed

section \<open>Concrete inputs of the witnesses\<close>

lemma demo_pages: "\<exists>s :: palloc_state. pool_free s [8, 7, 6, 5, 4, 3]"
proof -
  have more: "\<exists>s' :: palloc_state. pool_free s' (n # ns)" if "pool_free s ns" "page_ok n" "n \<notin> set ns"
    for s :: palloc_state and n ns
    using palloc_free_run [OF that, of Release] by blast
  obtain s1 :: palloc_state where s1: "pool_free s1 [4, 3]"
    using more [OF demo_pool_free, of 4] by (auto simp: page_ok_def)
  obtain s2 :: palloc_state where s2: "pool_free s2 [5, 4, 3]"
    using more [OF s1, of 5] by (auto simp: page_ok_def)
  obtain s3 :: palloc_state where s3: "pool_free s3 [6, 5, 4, 3]"
    using more [OF s2, of 6] by (auto simp: page_ok_def)
  obtain s4 :: palloc_state where s4: "pool_free s4 [7, 6, 5, 4, 3]"
    using more [OF s3, of 7] by (auto simp: page_ok_def)
  show ?thesis
    using more [OF s4, of 8] by (auto simp: page_ok_def)
qed

lemma may_count_release [simp]: "may_count Release s" "can_count Release s k"
  by (simp_all add: may_count_def can_count_def)

text \<open>A root table on page 8 and five free pages.\<close>

lemma demo_root:
  "\<exists>s :: palloc_state. vm_rep s [[] \<mapsto> 8] [7, 6, 5, 4, 3] \<and> (\<forall>v. translate (mem s) [[] \<mapsto> 8] v = None)"
proof -
  obtain s :: palloc_state where "pool_free s [8, 7, 6, 5, 4, 3]"
    using demo_pages by blast
  then show ?thesis
    using init_root [OF word_flags_spec, of s 8 "[7, 6, 5, 4, 3]" Release] by (auto simp: translate_def)
qed

section \<open>Properties\<close>

text \<open>
  A new page table is the page the allocator hands out, and translates no address: all its
  entries are cleared, whatever the page held before, and no other memory is written. Without a
  free page it panics.
\<close>
lemma new_table_translates_nothing:
  assumes "bitflags_spec F" and "pool_free s ns" and "may_count b s"
  shows "case ns of [] \<Rightarrow> init_ptable F b s = Panics UnwrapNone
    | n # ns' \<Rightarrow> \<exists>s'. init_ptable F b s = Ret (page n) s' \<and> vm_rep s' [[] \<mapsto> n] ns' \<and>
        (\<forall>v. translate (mem s') [[] \<mapsto> n] v = None) \<and> same_outside (page_bytes n) (mem s) (mem s')"
proof (cases ns)
  case Nil
  then show ?thesis
    using init_ptable_run [OF assms] by simp
next
  case (Cons n ns')
  obtain s' where "init_ptable F b s = Ret (page n) s'" "vm_rep s' [[] \<mapsto> n] ns'"
    "same_outside (page_bytes n) (mem s) (mem s')" "\<forall>v. leaf (mem s') [[] \<mapsto> n] v = 0"
    using init_root [OF assms(1) assms(2) [unfolded Cons] assms(3)] by blast
  then show ?thesis
    by (auto simp: Cons translate_def)
qed

lemma new_table_translates_nothing_witness:
  "\<exists>s'. init_ptable word_flags Dev demo_pool = Ret (page 3) s' \<and> translate (mem s') [[] \<mapsto> 3] 17 = None"
  using new_table_translates_nothing [OF word_flags_spec demo_pool_free demo_pool_may_count, of Dev] by auto

text \<open>
  C28. \<^verbatim>\<open>walk\<close> always returns or panics, on any memory (also one where tables point to themselves), and
  writes nothing; a level above two panics, as the index of such a level does not exist.
\<close>
theorem walk_terminates:
  "walk F b level p va s \<noteq> Hangs \<and> (\<forall>r s'. walk F b level p va s = Ret r s' \<longrightarrow> s' = s) \<and>
   (2 < level \<longrightarrow> (\<exists>e. walk F b level p va s = Panics e))"
proof -
  have "\<exists>e. walk F b level p va s = Panics e" if "2 < level"
    using that by (subst walk.simps, cases p, cases va) (simp add: usize_mul_def VirtAddr_vpn.simps run_simps)
  then show ?thesis
    using reads_onlyD [OF walk_reads [of F b level p va], of s] by simp
qed

lemma walk_terminates_witness: "\<exists>e. walk word_flags Dev 3 (page 8) (virt_page 7) demo_pool = Panics e"
  using walk_terminates [of word_flags Dev 3 "page 8" "virt_page 7" demo_pool] by simp

text \<open>A walk that finds an entry, and a walk that may allocate, visit the same tables.\<close>

lemma walk_found_alloc:
  "walk F b level p va s = Ret (Some e) s' \<Longrightarrow> walk_and_alloc F b level p va s = Ret e s"
proof (induction level arbitrary: p rule: less_induct)
  case (less level)
  obtain table i entry where prefix: "PhyPageNum_as_pte_mut b p s = Ret table s" "VirtAddr_vpn va level s = Ret i s"
    "slice_index table size_of_Entry i s = Ret entry s"
    and rest: "(if level = 0 then ret (Some entry) else bind (read_entry entry) (\<lambda>w. bind (Entry_valid F w) (\<lambda>valid.
      if valid then walk F b (level - 1) (Entry_ppn w) va else ret None))) s = Ret (Some e) s'"
    using less.prems by (subst (asm) walk.simps) (elim bind_reads [OF reads_only_table(1)]
        bind_reads [OF reads_only_table(2)] bind_reads [OF reads_only_basic(6)], blast)
  have front: "bind (PhyPageNum_as_pte_mut b p) (\<lambda>table. bind (VirtAddr_vpn va level) (\<lambda>i.
      bind (slice_index table size_of_Entry i) g)) s = g entry s" for g :: "usize \<Rightarrow> ('a palloc_state_scheme, usize) prog"
    using prefix by (simp add: bind_def)
  show ?case
  proof (cases "level = 0")
    case True
    then show ?thesis
      by (subst walk_and_alloc.simps, subst front) (use rest in \<open>simp add: run_simps\<close>)
  next
    case False
    obtain w valid where w: "read_entry entry s = Ret w s" "Entry_valid F w s = Ret valid s"
      "(if valid then walk F b (level - 1) (Entry_ppn w) va else ret None) s = Ret (Some e) s'"
      using rest False by (simp only: if_False)
        (elim bind_reads [OF reads_only_table(3)] bind_reads [OF reads_only_table(4)], blast)
    then have valid: "valid" "walk F b (level - 1) (Entry_ppn w) va s = Ret (Some e) s'"
      by (simp_all add: ret_apply split: if_splits)
    then show ?thesis
      using less.IH [OF _ valid(2)] False w
      by (subst walk_and_alloc.simps, subst front) (simp add: bind_def [of "read_entry entry"] bind_def [of "Entry_valid F w"])
  qed
qed

text \<open>
  C14. The two walks agree: where \<^verbatim>\<open>walk\<close> finds an entry, \<^verbatim>\<open>walk_and_alloc\<close> returns the same one and
  changes nothing; and whenever \<^verbatim>\<open>walk_and_alloc\<close> returns an entry, \<^verbatim>\<open>walk\<close> finds it in the new state,
  where every address translates as before.
\<close>
theorem walks_agree:
  assumes "bitflags_spec F" and "vm_rep s T ns" and "T [] = Some root" and "can_count b s 2"
  shows "(\<forall>e. walk F b 2 (page root) (VirtAddr a) s = Ret (Some e) s \<longrightarrow>
      walk_and_alloc F b 2 (page root) (VirtAddr a) s = Ret e s) \<and>
    (\<forall>e s'. walk_and_alloc F b 2 (page root) (VirtAddr a) s = Ret e s' \<longrightarrow>
      walk F b 2 (page root) (VirtAddr a) s' = Ret (Some e) s' \<and>
      (\<exists>T' ns'. vm_rep s' T' ns' \<and> T' [] = Some root \<and> (\<forall>u. translate (mem s') T' u = translate (mem s) T u)))"
proof -
  let ?v = "unat a div 4096"
  have "walk F b 2 (page root) (VirtAddr a) s' = Ret (Some e) s' \<and>
      (\<exists>T' ns'. vm_rep s' T' ns' \<and> T' [] = Some root \<and> (\<forall>u. translate (mem s') T' u = translate (mem s) T u))"
    if run: "walk_and_alloc F b 2 (page root) (VirtAddr a) s = Ret e s'" for e s'
  proof -
    have "can_count b s (missing T 2 ?v)"
      using can_count_mono [OF assms(4) missing_le] .
    then obtain T' q where q: "e = slot q (idx 0 ?v)" "T' (path 0 ?v) = Some q" and g: "grown s T ns (missing T 2 ?v) s' T'"
      using walk_and_alloc_run [OF assms(1,2), of 2 a root b] assms(3) run by (auto split: if_splits)
    have rep: "vm_rep s' T' (drop (missing T 2 ?v) ns)" and root: "T' [] = Some root"
      and leaf: "\<forall>u. leaf (mem s') T' u = leaf (mem s) T u"
      using g moved_root [of s T ns "missing T 2 ?v" s' T' root] assms(3) by (auto simp: grown_def moved_def)
    have "walk F b 2 (page root) (VirtAddr a) s' = Ret (Some e) s'"
      using walk_run [OF assms(1) vm_repD(1,2) [OF rep], of 2 a root b] root q by simp
    then show ?thesis
      using rep root leaf by (auto simp: translate_def)
  qed
  then show ?thesis
    using walk_found_alloc by blast
qed

lemma walks_agree_witness:
  "\<exists>(s :: palloc_state) e s'. walk_and_alloc word_flags Release 2 (page 8) (VirtAddr 28672) s = Ret e s' \<and>
    walk word_flags Release 2 (page 8) (VirtAddr 28672) s' = Ret (Some e) s'"
proof -
  obtain s :: palloc_state where s: "vm_rep s [[] \<mapsto> 8] [7, 6, 5, 4, 3]"
    using demo_root by blast
  obtain e s' where "walk_and_alloc word_flags Release 2 (page 8) (VirtAddr 28672) s = Ret e s'"
    using walk_and_alloc_run [OF word_flags_spec s, of 2 28672 8 Release] missing_le [of "[[] \<mapsto> 8]" 2 7]
    by (auto split: if_splits)
  then show ?thesis
    using conjunct2 [OF walks_agree [OF word_flags_spec s, of 8 Release 28672]] by auto
qed

lemma vm_map_run:
  assumes F: "bitflags_spec F" and rep: "vm_rep s T ns" and root: "T [] = Some root"
    and k: "k < 2 ^ 20" "v + k \<le> 2 ^ 20" "f + k \<le> 2 ^ 20" and pool: "2 * k \<le> length ns" "can_count b s (2 * k)"
    and unmapped: "\<forall>u\<in>{v..<v + k}. translate (mem s) T u = None"
  shows "\<exists>n s' T'. vm_map F b (page root) (virt_page v) (phys_page f) (word_of_nat (4096 * k)) perms s = Ret () s' \<and>
    n \<le> 2 * k \<and> moved s T ns n s' T' \<and>
    (\<forall>u<2 ^ 20. translate (mem s') T' u = (if u \<in> {v..<v + k} then Some (f + (u - v), perms) else translate (mem s) T u))"
proof -
  have "v + i < 2 ^ 20 \<and> f + i < 2 ^ 20" "translate (mem s) T (v + i) = None" if "i \<in> set [0..<k]" for i
    using that k unmapped by auto
  then show ?thesis
    unfolding vm_map_range [OF k(1)]
    using map_pages_run [OF F rep root distinct_upt, of 0 k v f b perms, unfolded in_range] pool
    by (metis (no_types, lifting) diff_zero length_upt)
qed

definition demo_perms :: Perms where
  "demo_perms = \<lparr>p_write = True, p_read = True, p_exec = False, p_user = True\<rparr>"

text \<open>The demonstration tables with page 7 mapped to page 9.\<close>

lemma demo_mapped:
  "\<exists>(s :: palloc_state) T ns. vm_rep s T ns \<and> T [] = Some 8 \<and> 2 \<le> length ns \<and> ran T \<union> set ns \<subseteq> {3..8} \<and>
    (\<forall>u<2 ^ 20. translate (mem s) T u = (if u = 7 then Some (9, demo_perms) else None))"
proof -
  obtain s :: palloc_state where s: "vm_rep s [[] \<mapsto> 8] [7, 6, 5, 4, 3]" "\<forall>v. translate (mem s) [[] \<mapsto> 8] v = None"
    using demo_root by blast
  obtain n s' T' where n: "n \<le> 2" "moved s [[] \<mapsto> 8] [7, 6, 5, 4, 3] n s' T'"
    and t: "\<forall>u<2 ^ 20. translate (mem s') T' u = (if u \<in> {7..<7 + 1} then Some (9 + (u - 7), demo_perms)
      else translate (mem s) [[] \<mapsto> 8] u)"
    using vm_map_run [OF word_flags_spec s(1), of 8 1 7 9 Release demo_perms] s(2) by auto
  have "vm_rep s' T' (drop n [7, 6, 5, 4, 3])" "T' [] = Some 8" "ran T' \<subseteq> {3..8}"
    using n(2) moved_root [OF n(2), of 8] set_take_subset [of n "[7, 6, 5, 4, 3::nat]"] by (auto simp: moved_def)
  moreover have "set (drop n [7, 6, 5, 4, 3]) \<subseteq> {3..8::nat}"
    using set_drop_subset [of n "[7, 6, 5, 4, 3::nat]"] by auto
  moreover have "translate (mem s') T' u = (if u = 7 then Some (9, demo_perms) else None)" if "u < 2 ^ 20" for u
    using t [rule_format, OF that] s(2) by (cases "u = 7") auto
  ultimately show ?thesis
    using n(1) by (intro exI [of _ s'] exI [of _ T'] exI [of _ "drop n [7, 6, 5, 4, 3]"]) auto
qed

text \<open>
  C3. \<^verbatim>\<open>map\<close> of \<open>k\<close> unmapped pages adds exactly these pages to the translation, each with the given
  permissions and the physical page in order, and changes the translation of no other page. It
  takes at most two pages from the pool for each, all of which are tables afterwards, and writes only
  page tables.
\<close>
theorem map_range:
  assumes "bitflags_spec F" and "vm_rep s T ns" and "T [] = Some root"
    and "k < 2 ^ 20" and "v + k \<le> 2 ^ 20" and "f + k \<le> 2 ^ 20" and "2 * k \<le> length ns" and "can_count b s (2 * k)"
    and "\<forall>u\<in>{v..<v + k}. translate (mem s) T u = None"
  shows "\<exists>n s' T'. vm_map F b (page root) (virt_page v) (phys_page f) (word_of_nat (4096 * k)) perms s = Ret () s' \<and>
    n \<le> 2 * k \<and> vm_rep s' T' (drop n ns) \<and> T' [] = Some root \<and>
    (\<forall>u<2 ^ 20. translate (mem s') T' u = (if u \<in> {v..<v + k} then Some (f + (u - v), perms) else translate (mem s) T u)) \<and>
    ran T' = ran T \<union> set (take n ns) \<and> same_outside (\<Union>(page_bytes ` ran T')) (mem s) (mem s')"
proof -
  obtain n s' T' where run: "vm_map F b (page root) (virt_page v) (phys_page f) (word_of_nat (4096 * k)) perms s = Ret () s'"
    "n \<le> 2 * k" "moved s T ns n s' T'"
    "\<forall>u<2 ^ 20. translate (mem s') T' u = (if u \<in> {v..<v + k} then Some (f + (u - v), perms) else translate (mem s) T u)"
    using vm_map_run [OF assms] by blast
  then show ?thesis
    using moved_root [OF run(3) assms(3)] unfolding moved_def by blast
qed

text \<open>One page mapped in the demonstration tables.\<close>

lemma map_range_witness:
  "\<exists>(s :: palloc_state) s' T'. vm_map word_flags Release (page 8) (virt_page 7) (phys_page 9) 4096 demo_perms s = Ret () s' \<and>
    translate (mem s') T' 7 = Some (9, demo_perms) \<and> translate (mem s') T' 8 = None"
proof -
  obtain s :: palloc_state where s: "vm_rep s [[] \<mapsto> 8] [7, 6, 5, 4, 3]" "\<forall>v. translate (mem s) [[] \<mapsto> 8] v = None"
    using demo_root by blast
  obtain s' T' where run: "vm_map word_flags Release (page 8) (virt_page 7) (phys_page 9) 4096 demo_perms s = Ret () s'"
    and t: "\<forall>u<2 ^ 20. translate (mem s') T' u = (if u \<in> {7..<7 + 1} then Some (9 + (u - 7), demo_perms)
      else translate (mem s) [[] \<mapsto> 8] u)"
    using map_range [OF word_flags_spec s(1), of 8 1 7 9 Release demo_perms] s(2) by auto
  moreover have "translate (mem s') T' 7 = Some (9, demo_perms)" "translate (mem s') T' 8 = None"
    using t s(2) by simp_all
  ultimately show ?thesis
    by blast
qed

text \<open>
  \<^verbatim>\<open>map\<close> never changes a mapping: if some page of the range is mapped already, and memory for
  tables does not run out, it panics.
\<close>
lemma map_remap_panics:
  assumes "bitflags_spec F" and "vm_rep s T ns" and "T [] = Some root"
    and "k < 2 ^ 20" and "v + k \<le> 2 ^ 20" and "f + k \<le> 2 ^ 20" and "2 * k \<le> length ns" and "can_count b s (2 * k)"
    and "u \<in> {v..<v + k}" and "translate (mem s) T u \<noteq> None"
  shows "vm_map F b (page root) (virt_page v) (phys_page f) (word_of_nat (4096 * k)) perms s = Panics (ExplicitPanic ''remap'')"
proof -
  have bounds: "v + i < 2 ^ 20 \<and> f + i < 2 ^ 20" if "i \<in> set [0..<k]" for i
    using that assms(5,6) by auto
  show ?thesis
    unfolding vm_map_range [OF assms(4)]
    by (rule map_pages_remap [OF assms(1-3) bounds, where j = "u - v"]) (use assms in auto)
qed

lemma map_remap_panics_witness:
  "\<exists>s :: palloc_state. vm_map word_flags Release (page 8) (virt_page 7) (phys_page 5) 4096 demo_perms s =
    Panics (ExplicitPanic ''remap'')"
proof -
  obtain s :: palloc_state and T ns where s: "vm_rep s T ns" "T [] = Some 8" "2 \<le> length ns"
    and t: "\<forall>u<2 ^ 20. translate (mem s) T u = (if u = 7 then Some (9, demo_perms) else None)"
    using demo_mapped by blast
  have "translate (mem s) T 7 \<noteq> None"
    using t by simp
  then show ?thesis
    using map_remap_panics [OF word_flags_spec s(1,2), of 1 7 5 Release 7 demo_perms] s(3) by auto
qed

lemma vm_unmap_run:
  assumes "bitflags_spec F" and "vm_rep s T ns" and "T [] = Some root" and "k < 2 ^ 20" and "v + k \<le> 2 ^ 20"
    and "\<forall>i<k. map_option fst (translate (mem s) T (v + i)) = Some (g i)"
    and "free \<longrightarrow> inj_on g {..<k} \<and> (\<forall>i<k. page_ok (g i) \<and> g i \<notin> set ns \<and> g i \<notin> ran T)"
  shows "\<exists>s'. vm_unmap F b (page root) (virt_page v) (word_of_nat (4096 * k)) free s = Ret () s' \<and>
    unmapped s T ns (if free then map g [0..<k] else []) s' \<and>
    (\<forall>u<2 ^ 20. translate (mem s') T u = (if u \<in> {v..<v + k} then None else translate (mem s) T u))"
proof -
  have range: "set [0..<k] = {..<k}"
    by auto
  have bound: "v + i < 2 ^ 20" and tr: "map_option fst (translate (mem s) T (v + i)) = Some (g i)" if "i \<in> set [0..<k]" for i
    using that assms(5,6) by auto
  have own: "page_ok (g i) \<and> g i \<notin> set ns \<and> g i \<notin> ran T" if free "i \<in> set [0..<k]" for i
    using that assms(7) by auto
  have inj: "inj_on g (set [0..<k])" if free
    unfolding range using that assms(7) by simp
  show ?thesis
    using unmap_pages_run [OF assms(1-3) distinct_upt bound tr own inj, where b = b]
    unfolding in_range vm_unmap_range [OF assms(4)] by blast
qed

text \<open>
  C7. \<^verbatim>\<open>unmap\<close> of \<open>k\<close> mapped pages removes exactly these pages from the translation; the tables stay.
  With \<open>free\<close>, the physical pages (when they are pages of their own) go back to the pool, the last
  one first; without it the pool is as before. Nothing but tables and the freed pages is written.
\<close>
theorem unmap_range:
  assumes "bitflags_spec F" and "vm_rep s T ns" and "T [] = Some root" and "k < 2 ^ 20" and "v + k \<le> 2 ^ 20"
    and "\<forall>i<k. map_option fst (translate (mem s) T (v + i)) = Some (g i)"
    and "free \<longrightarrow> inj_on g {..<k} \<and> (\<forall>i<k. page_ok (g i) \<and> g i \<notin> set ns \<and> g i \<notin> ran T)"
  shows "\<exists>s'. vm_unmap F b (page root) (virt_page v) (word_of_nat (4096 * k)) free s = Ret () s' \<and>
    vm_rep s' T (rev (if free then map g [0..<k] else []) @ ns) \<and>
    (\<forall>u<2 ^ 20. translate (mem s') T u = (if u \<in> {v..<v + k} then None else translate (mem s) T u)) \<and>
    same_outside (\<Union>(page_bytes ` (ran T \<union> (if free then g ` {..<k} else {})))) (mem s) (mem s')"
proof -
  obtain s' where run: "vm_unmap F b (page root) (virt_page v) (word_of_nat (4096 * k)) free s = Ret () s'"
    and u: "unmapped s T ns (if free then map g [0..<k] else []) s'"
    and t: "\<forall>u<2 ^ 20. translate (mem s') T u = (if u \<in> {v..<v + k} then None else translate (mem s) T u)"
    using vm_unmap_run [OF assms] by blast
  have "set (if free then map g [0..<k] else []) = (if free then g ` {..<k} else {})"
    by auto
  then show ?thesis
    using u run t unfolding unmapped_def by (intro exI [of _ s']) simp
qed

lemma unmap_range_witness:
  "\<exists>(s :: palloc_state) s' T ns. translate (mem s) T 7 = Some (9, demo_perms) \<and>
    vm_unmap word_flags Dev (page 8) (virt_page 7) 4096 True s = Ret () s' \<and> vm_rep s' T (9 # ns) \<and>
    translate (mem s') T 7 = None"
proof -
  obtain s :: palloc_state and T ns where s: "vm_rep s T ns" "T [] = Some 8" "ran T \<union> set ns \<subseteq> {3..8}"
    and t: "\<forall>u<2 ^ 20. translate (mem s) T u = (if u = 7 then Some (9, demo_perms) else None)"
    using demo_mapped by blast
  have seven: "translate (mem s) T 7 = Some (9, demo_perms)"
    using t by simp
  have "9 \<notin> set ns" "9 \<notin> ran T"
    using s(3) by auto
  then obtain s' where run: "vm_unmap word_flags Dev (page 8) (virt_page 7) 4096 True s = Ret () s'" "vm_rep s' T (9 # ns)"
    and t': "\<forall>u<2 ^ 20. translate (mem s') T u = (if u \<in> {7..<7 + 1} then None else translate (mem s) T u)"
    using unmap_range [OF word_flags_spec s(1,2), of 1 7 "\<lambda>_. 9" True Dev] seven by (auto simp: page_ok_def inj_on_def)
  have "translate (mem s') T 7 = None"
    using t' by simp
  then show ?thesis
    using seven run by blast
qed

text \<open>
  Unmapping what was mapped restores the translation of every address, whatever pages the tables
  took.
\<close>
lemma map_unmap:
  assumes "bitflags_spec F" and "vm_rep s T ns" and "T [] = Some root"
    and "k < 2 ^ 20" and "v + k \<le> 2 ^ 20" and "f + k \<le> 2 ^ 20" and "2 * k \<le> length ns" and "can_count b s (2 * k)"
    and "\<forall>u\<in>{v..<v + k}. translate (mem s) T u = None"
  shows "\<exists>s1 s2 T' ns'. vm_map F b (page root) (virt_page v) (phys_page f) (word_of_nat (4096 * k)) perms s = Ret () s1 \<and>
      vm_unmap F b (page root) (virt_page v) (word_of_nat (4096 * k)) False s1 = Ret () s2 \<and> vm_rep s2 T' ns' \<and>
      (\<forall>u<2 ^ 20. translate (mem s2) T' u = translate (mem s) T u)"
proof -
  obtain n s1 T' where run: "vm_map F b (page root) (virt_page v) (phys_page f) (word_of_nat (4096 * k)) perms s = Ret () s1"
    and m: "moved s T ns n s1 T'"
    and t1: "\<forall>u<2 ^ 20. translate (mem s1) T' u = (if u \<in> {v..<v + k} then Some (f + (u - v), perms) else translate (mem s) T u)"
    using vm_map_run [OF assms] by blast
  have rep1: "vm_rep s1 T' (drop n ns)"
    using m by (simp add: moved_def)
  have bound: "v + i < 2 ^ 20" and tr: "map_option fst (translate (mem s1) T' (v + i)) = Some (f + i)" if "i \<in> set [0..<k]" for i
    using that assms(5) t1 by auto
  have "\<exists>s2. unmap_pages F b (page root) (virt_page v) False [0..<k] s1 = Ret () s2 \<and>
      unmapped s1 T' (drop n ns) (if False then map ((+) f) [0..<k] else []) s2 \<and>
      (\<forall>u<2 ^ 20. translate (mem s2) T' u = (if \<exists>i\<in>set [0..<k]. u = v + i then None else translate (mem s1) T' u))"
    by (rule unmap_pages_run [OF assms(1) rep1 moved_root [OF m assms(3)] distinct_upt]) (use bound tr in simp_all)
  then obtain s2 where run2: "unmap_pages F b (page root) (virt_page v) False [0..<k] s1 = Ret () s2"
    and u: "unmapped s1 T' (drop n ns) [] s2"
    and t2: "\<forall>u<2 ^ 20. translate (mem s2) T' u = (if u \<in> {v..<v + k} then None else translate (mem s1) T' u)"
    unfolding in_range if_False by blast
  have "\<forall>u<2 ^ 20. translate (mem s2) T' u = translate (mem s) T u"
    using t1 t2 assms(9) by simp
  moreover have "vm_rep s2 T' (drop n ns)"
    using u by (simp add: unmapped_def)
  ultimately show ?thesis
    using run run2 unfolding vm_unmap_range [OF assms(4)] by blast
qed

lemma map_unmap_witness:
  "\<exists>(s :: palloc_state) s1 s2. vm_map word_flags Release (page 8) (virt_page 7) (phys_page 9) 4096 demo_perms s = Ret () s1 \<and>
    vm_unmap word_flags Release (page 8) (virt_page 7) 4096 False s1 = Ret () s2"
proof -
  obtain s :: palloc_state where s: "vm_rep s [[] \<mapsto> 8] [7, 6, 5, 4, 3]" "\<forall>v. translate (mem s) [[] \<mapsto> 8] v = None"
    using demo_root by blast
  show ?thesis
    using map_unmap [OF word_flags_spec s(1), of 8 1 7 9 Release demo_perms] s(2) by auto
qed

text \<open>
  Unmapping a range whose first page is not mapped panics: with the message of \<^verbatim>\<open>unmap\<close> where its
  last-level table exists, by unwrapping the failed walk where it does not.
\<close>
lemma unmap_unmapped_panics:
  assumes "bitflags_spec F" and "vm_rep s T ns" and "T [] = Some root" and "0 < k" and "k < 2 ^ 20" and "v < 2 ^ 20"
    and "translate (mem s) T v = None"
  shows "vm_unmap F b (page root) (virt_page v) (word_of_nat (4096 * k)) free s =
    Panics (if T (path 0 v) = None then UnwrapNone else ExplicitPanic ''unmap'')"
proof -
  have "[0..<k] = 0 # [1..<k]"
    using assms(4) by (simp add: upt_conv_Cons)
  moreover have "\<not> bit (leaf (mem s) T v) 0"
    using assms(7) by (simp add: translate_valid)
  ultimately show ?thesis
    using unmap_walk [OF assms(1-3), of v 0 b free "[1..<k]"] assms(6)
    unfolding vm_unmap_range [OF assms(5)] by (auto split: option.split)
qed

lemma unmap_unmapped_panics_witness:
  "\<exists>s :: palloc_state. vm_unmap word_flags Dev (page 8) (virt_page 7) 4096 True s = Panics UnwrapNone"
proof -
  obtain s :: palloc_state where s: "vm_rep s [[] \<mapsto> 8] [7, 6, 5, 4, 3]" "\<forall>v. translate (mem s) [[] \<mapsto> 8] v = None"
    using demo_root by blast
  show ?thesis
    using unmap_unmapped_panics [OF word_flags_spec s(1), of 8 1 7 Dev True] s(2) path_Suc [of 0 7] by auto
qed

text \<open>
  A misaligned address is refused before anything is read or written. The message of \<^verbatim>\<open>map\<close> prints the
  virtual address twice, so it never shows a misaligned physical address.
\<close>

lemma map_misaligned:
  "VirtAddr_offset v \<noteq> 0 \<or> PhysAddr_offset p \<noteq> 0 \<Longrightarrow> vm_map F b table v p sz perms s = Panics (ExplicitPanic
    (''map: alignment error phys: '' @ VirtAddr_fmt v @ '' virt: '' @ VirtAddr_fmt v))"
  by (simp add: vm_map_def panic_apply)

end
