(* ===== verification/VmRuns.thy ===== *)
theory VmRuns
  imports VmSpec
begin

text \<open>
  Whole runs of \<^verbatim>\<open>map\<close> and \<^verbatim>\<open>unmap\<close> on one page table. An address space is the partial function from
  virtual pages to physical pages and permissions, with the set of frames its owner holds; the specification
  runs on it, panics included, and the code simulates it step by step. Two page tables built from
  the same pool do not touch each other.
\<close>

section \<open>The specification\<close>

type_synonym aspace = "nat \<rightharpoonup> nat \<times> Perms"

datatype vm_op = Map nat nat nat Perms | Unmap nat nat bool

text \<open>The frames a range maps to, in order.\<close>

definition frames :: "aspace \<Rightarrow> nat \<Rightarrow> nat \<Rightarrow> nat list" where
  "frames M v k = map (\<lambda>u. fst (the (M u))) (filter (\<lambda>u. M u \<noteq> None) [v..<v + k])"

fun spec_op :: "vm_op \<Rightarrow> aspace \<times> nat set \<Rightarrow> (aspace \<times> nat set) option" where
  "spec_op (Map v f k perms) (M, H) =
     (if list_all (\<lambda>u. M u = None) [v..<v + k]
      then Some (\<lambda>u. if u \<in> {v..<v + k} then Some (f + (u - v), perms) else M u, H) else None)"
| "spec_op (Unmap v k free) (M, H) =
     (if list_all (\<lambda>u. M u \<noteq> None) [v..<v + k]
      then Some (\<lambda>u. if u \<in> {v..<v + k} then None else M u, if free then H - set (frames M v k) else H) else None)"

fun spec_run :: "vm_op list \<Rightarrow> aspace \<times> nat set \<Rightarrow> (aspace \<times> nat set) option" where
  "spec_run [] A = Some A"
| "spec_run (op # ops) A = Option.bind (spec_op op A) (spec_run ops)"

text \<open>What the caller keeps: ranges inside the address spaces, and frames given back are held and distinct.\<close>

fun op_ok :: "vm_op \<Rightarrow> aspace \<times> nat set \<Rightarrow> bool" where
  "op_ok (Map v f k perms) A \<longleftrightarrow> k < 2 ^ 20 \<and> v + k \<le> 2 ^ 20 \<and> f + k \<le> 2 ^ 20"
| "op_ok (Unmap v k free) (M, H) \<longleftrightarrow> k < 2 ^ 20 \<and> v + k \<le> 2 ^ 20 \<and>
     (free \<longrightarrow> distinct (frames M v k) \<and> set (frames M v k) \<subseteq> H)"

fun run_ok :: "vm_op list \<Rightarrow> aspace \<times> nat set \<Rightarrow> bool" where
  "run_ok [] A = True"
| "run_ok (op # ops) A \<longleftrightarrow> op_ok op A \<and> (case spec_op op A of None \<Rightarrow> True | Some A' \<Rightarrow> run_ok ops A')"

section \<open>The code\<close>

text \<open>The pages an operation may take for tables.\<close>

fun cost :: "vm_op \<Rightarrow> nat" where
  "cost (Map v f k perms) = 2 * k"
| "cost (Unmap v k free) = 0"

fun exec_op :: "'f bitflags \<Rightarrow> profile \<Rightarrow> nat \<Rightarrow> vm_op \<Rightarrow> ('x palloc_state_scheme, unit) prog" where
  "exec_op F b root (Map v f k perms) = vm_map F b (page root) (virt_page v) (phys_page f) (word_of_nat (4096 * k)) perms"
| "exec_op F b root (Unmap v k free) = vm_unmap F b (page root) (virt_page v) (word_of_nat (4096 * k)) free"

fun exec_run :: "'f bitflags \<Rightarrow> profile \<Rightarrow> nat \<Rightarrow> vm_op list \<Rightarrow> ('x palloc_state_scheme, unit) prog" where
  "exec_run F b root [] = ret ()"
| "exec_run F b root (op # ops) = bind (exec_op F b root op) (\<lambda>_. exec_run F b root ops)"

section \<open>The simulation\<close>

definition space_rep :: "'x palloc_state_scheme \<Rightarrow> tables \<Rightarrow> nat list \<Rightarrow> nat \<Rightarrow> aspace \<times> nat set \<Rightarrow> bool" where
  "space_rep s T ns root A \<longleftrightarrow> vm_rep s T ns \<and> T [] = Some root \<and> (\<forall>u<2 ^ 20. translate (mem s) T u = fst A u) \<and>
     (\<forall>f\<in>snd A. page_ok f \<and> f \<notin> set ns \<and> f \<notin> ran T)"

lemma set_frames: "set (frames M v k) = {fst (the (M u)) |u. u \<in> {v..<v + k} \<and> M u \<noteq> None}"
  by (auto simp: frames_def)

lemma frames_inj:
  assumes "distinct (frames M v k)" and "i < k" "M (v + i) \<noteq> None" and "j < k" "M (v + j) \<noteq> None"
    and "fst (the (M (v + i))) = fst (the (M (v + j)))"
  shows "i = j"
proof -
  have "inj_on (\<lambda>u. fst (the (M u))) (set (filter (\<lambda>u. M u \<noteq> None) [v..<v + k]))"
    using assms(1) by (simp add: frames_def distinct_map)
  then show ?thesis
    using inj_onD [of "\<lambda>u. fst (the (M u))" _ "v + i" "v + j"] assms(2-) by auto
qed

text \<open>Unmapping a range that is mapped up to some page.\<close>

lemma unmap_prefix:
  assumes F: "bitflags_spec F" and rep: "space_rep s T ns root (M, H)" and ok: "op_ok (Unmap v k free) (M, H)"
    and j: "j \<le> k" "\<forall>i<j. M (v + i) \<noteq> None"
  shows "\<exists>s'. unmap_pages F b (page root) (virt_page v) free [0..<j] s = Ret () s' \<and>
    unmapped s T ns (if free then map (\<lambda>i. fst (the (M (v + i)))) [0..<j] else []) s' \<and>
    (\<forall>u<2 ^ 20. translate (mem s') T u = (if u \<in> {v..<v + j} then None else M u))"
proof -
  let ?g = "\<lambda>i. fst (the (M (v + i)))"
  have r: "vm_rep s T ns" "T [] = Some root" and t: "\<And>u. u < 2 ^ 20 \<Longrightarrow> translate (mem s) T u = M u"
    and held: "\<And>f. f \<in> H \<Longrightarrow> page_ok f \<and> f \<notin> set ns \<and> f \<notin> ran T"
    using rep by (simp_all add: space_rep_def)
  have bound: "v + i < 2 ^ 20" if "i \<in> set [0..<j]" for i
    using that ok j(1) by auto
  have tr: "map_option fst (translate (mem s) T (v + i)) = Some (?g i)" if "i \<in> set [0..<j]" for i
    using that t [OF bound [OF that]] j(2) by (auto simp: option.map_sel)
  have own: "page_ok (?g i) \<and> ?g i \<notin> set ns \<and> ?g i \<notin> ran T" if free "i \<in> set [0..<j]" for i
  proof -
    have "?g i \<in> set (frames M v k)"
      unfolding set_frames using that(2) j by (intro CollectI exI [of _ "v + i"]) auto
    then show ?thesis
      using held ok that(1) by auto
  qed
  have inj: "inj_on ?g (set [0..<j])" if free
    using frames_inj [of M v k] ok that j by (intro inj_onI) auto
  have "\<exists>s'. unmap_pages F b (page root) (virt_page v) free [0..<j] s = Ret () s' \<and>
    unmapped s T ns (if free then map ?g [0..<j] else []) s' \<and>
    (\<forall>u<2 ^ 20. translate (mem s') T u = (if \<exists>i\<in>set [0..<j]. u = v + i then None else translate (mem s) T u))"
    by (rule unmap_pages_run [OF F r distinct_upt bound tr own inj])
  then show ?thesis
    unfolding in_range using t by (metis (no_types, lifting))
qed

lemma bind_if_panic: "bind (if c then panic e else f) g = (if c then panic e else bind f g)"
  by simp

lemma unmap_pages_append:
  "unmap_pages F b table first_virt free (xs @ ys) =
    bind (unmap_pages F b table first_virt free xs) (\<lambda>_. unmap_pages F b table first_virt free ys)"
proof (induction xs)
  case (Cons x xs)
  show ?case
    by (simp only: append_Cons unmap_pages.simps Cons bind_bind bind_if_panic)
qed simp

lemma unmap_stuck:
  assumes F: "bitflags_spec F" and rep: "space_rep s T ns root (M, H)" and ok: "op_ok (Unmap v k free) (M, H)"
    and j: "j < k" "\<forall>i<j. M (v + i) \<noteq> None" "M (v + j) = None"
  shows "\<exists>e. unmap_pages F b (page root) (virt_page v) free [0..<k] s = Panics e"
proof -
  obtain s1 where run: "unmap_pages F b (page root) (virt_page v) free [0..<j] s = Ret () s1"
    and u: "unmapped s T ns (if free then map (\<lambda>i. fst (the (M (v + i)))) [0..<j] else []) s1"
    and t: "\<forall>u<2 ^ 20. translate (mem s1) T u = (if u \<in> {v..<v + j} then None else M u)"
    using unmap_prefix [OF F rep ok less_imp_le [OF j(1)] j(2)] by blast
  have v: "v + j < 2 ^ 20"
    using ok j(1) by auto
  have rep1: "vm_rep s1 T (rev (if free then map (\<lambda>i. fst (the (M (v + i)))) [0..<j] else []) @ ns)"
    using u by (simp add: unmapped_def)
  have root: "T [] = Some root"
    using rep by (simp add: space_rep_def)
  have "\<not> bit (leaf (mem s1) T (v + j)) 0"
    using t [rule_format, OF v] j(3) by (simp flip: translate_valid)
  then have stuck: "\<exists>e. unmap_pages F b (page root) (virt_page v) free (j # [Suc j..<k]) s1 = Panics e"
    unfolding unmap_walk [OF F rep1 root v] by (cases "T (path 0 (v + j))") simp_all
  have split: "[0..<k] = [0..<j] @ j # [Suc j..<k]"
    using j(1) upt_add_eq_append [of 0 j "k - j"] by (simp add: upt_conv_Cons)
  show ?thesis
    using stuck unfolding split unmap_pages_append by (simp add: bind_def [of "unmap_pages F b t p f is" for t p f "is"] run)
qed

text \<open>The pages a run may touch: tables, free pages and frames of the owner.\<close>

definition reach :: "tables \<Rightarrow> nat list \<Rightarrow> aspace \<times> nat set \<Rightarrow> nat set" where
  "reach T ns A = ran T \<union> set ns \<union> snd A"

text \<open>One operation of the code simulates one of the specification, and counts the pages it takes.\<close>

definition simulates :: "'f bitflags \<Rightarrow> profile \<Rightarrow> nat \<Rightarrow> vm_op \<Rightarrow> 'x palloc_state_scheme \<Rightarrow> tables \<Rightarrow> nat list \<Rightarrow>
    aspace \<times> nat set \<Rightarrow> bool" where
  "simulates F b root op s T ns A \<longleftrightarrow> (case spec_op op A of
      None \<Rightarrow> \<exists>e. exec_op F b root op s = Panics e
    | Some A' \<Rightarrow> \<exists>s' T' ns' n. exec_op F b root op s = Ret () s' \<and> space_rep s' T' ns' root A' \<and>
        n \<le> cost op \<and> length ns \<le> length ns' + n \<and> counted s s' n \<and>
        reach T' ns' A' = reach T ns A \<and> same_outside (\<Union>(page_bytes ` reach T ns A)) (mem s) (mem s'))"

lemma space_repD:
  assumes "space_rep s T ns root (M, H)"
  shows "vm_rep s T ns" "T [] = Some root" and "u < 2 ^ 20 \<Longrightarrow> translate (mem s) T u = M u"
    and "f \<in> H \<Longrightarrow> page_ok f \<and> f \<notin> set ns \<and> f \<notin> ran T"
  using assms by (simp_all add: space_rep_def)

lemma map_simulates:
  assumes F: "bitflags_spec F" and rep: "space_rep s T ns root (M, H)" and ok: "op_ok (Map v f k perms) (M, H)"
    and room: "2 * k \<le> length ns" "can_count b s (2 * k)"
  shows "simulates F b root (Map v f k perms) s T ns (M, H)"
proof -
  note r = space_repD [OF rep]
  have k: "k < 2 ^ 20" "v + k \<le> 2 ^ 20" "f + k \<le> 2 ^ 20"
    using ok by simp_all
  show ?thesis
  proof (cases "\<forall>u\<in>{v..<v + k}. M u = None")
    case True
    then have "\<forall>u\<in>{v..<v + k}. translate (mem s) T u = None"
      using r(3) k(2) by auto
    then obtain n s' T' where run: "vm_map F b (page root) (virt_page v) (phys_page f) (word_of_nat (4096 * k)) perms s = Ret () s'"
      and n: "n \<le> 2 * k" and m: "moved s T ns n s' T'"
      and t': "\<forall>u<2 ^ 20. translate (mem s') T' u =
        (if u \<in> {v..<v + k} then Some (f + (u - v), perms) else translate (mem s) T u)"
      using vm_map_run [OF F r(1,2) k room] by blast
    have "h \<notin> set (drop n ns) \<and> h \<notin> ran T'" if "h \<in> H" for h
      using r(4) [OF that] m set_drop_subset [of n ns] set_take_subset [of n ns] by (auto simp: moved_def)
    then have "space_rep s' T' (drop n ns) root (\<lambda>u. if u \<in> {v..<v + k} then Some (f + (u - v), perms) else M u, H)"
      using m moved_root [OF m r(2)] t' r(3,4) by (simp add: space_rep_def moved_def)
    moreover have "counted s s' n" "ran T' \<union> set (drop n ns) = ran T \<union> set ns"
      using m set_append [of "take n ns" "drop n ns"] by (auto simp: moved_def)
    moreover have "same_outside (\<Union>(page_bytes ` (ran T \<union> set ns \<union> H))) (mem s) (mem s')"
      by (rule same_outside_mono [where A = "\<Union>(page_bytes ` ran T')"]) (use m set_take_subset [of n ns] in \<open>auto simp: moved_def\<close>)
    moreover have "spec_op (Map v f k perms) (M, H) = Some (\<lambda>u. if u \<in> {v..<v + k} then Some (f + (u - v), perms) else M u, H)"
      using True by (simp add: list_all_iff)
    ultimately show ?thesis
      using run n unfolding simulates_def reach_def
      by (auto simp del: spec_op.simps of_nat_mult intro!: exI [of _ s'] exI [of _ T'] exI [of _ "drop n ns"] exI [of _ n])
  next
    case False
    then obtain u where u: "v \<le> u" "u < v + k" "M u \<noteq> None"
      by auto
    have "vm_map F b (page root) (virt_page v) (phys_page f) (word_of_nat (4096 * k)) perms s = Panics (ExplicitPanic ''remap'')"
      unfolding vm_map_range [OF k(1)]
      by (rule map_pages_remap [OF F r(1,2), where j = "u - v"]) (use k room u r(3) in auto)
    moreover have "\<not> list_all (\<lambda>u. M u = None) [v..<v + k]"
      using u by (auto simp: list_all_iff intro!: bexI [of _ u])
    ultimately show ?thesis
      by (simp add: simulates_def del: of_nat_mult)
  qed
qed

lemma spec_unmap_ok: "list_all (\<lambda>u. M u \<noteq> None) [v..<v + k] \<longleftrightarrow> (\<forall>i<k. M (v + i) \<noteq> None)"
  by (auto simp: list_all_iff) (metis add_diff_inverse_nat add_less_cancel_left not_less option.distinct(1))

lemma unmap_simulates_mapped:
  assumes F: "bitflags_spec F" and rep: "space_rep s T ns root (M, H)" and ok: "op_ok (Unmap v k free) (M, H)"
    and mapped: "\<forall>i<k. M (v + i) \<noteq> None"
  shows "simulates F b root (Unmap v k free) s T ns (M, H)"
proof -
  note r = space_repD [OF rep]
  have k: "k < 2 ^ 20"
    using ok by simp
  let ?fs = "map (\<lambda>i. fst (the (M (v + i)))) [0..<k]"
  obtain s' where run: "unmap_pages F b (page root) (virt_page v) free [0..<k] s = Ret () s'"
    and u: "unmapped s T ns (if free then ?fs else []) s'"
    and t': "\<forall>u<2 ^ 20. translate (mem s') T u = (if u \<in> {v..<v + k} then None else M u)"
    using unmap_prefix [OF F rep ok order_refl mapped] by blast
  have fs: "set ?fs = set (frames M v k)"
    unfolding set_frames using mapped by (auto simp: image_iff le_iff_add)
  then have "space_rep s' T (rev (if free then ?fs else []) @ ns) root
      (\<lambda>u. if u \<in> {v..<v + k} then None else M u, if free then H - set (frames M v k) else H)"
    using u t' r(2,4) by (auto simp: space_rep_def unmapped_def)
  moreover have "spec_op (Unmap v k free) (M, H) =
      Some (\<lambda>u. if u \<in> {v..<v + k} then None else M u, if free then H - set (frames M v k) else H)"
    unfolding spec_op.simps spec_unmap_ok using mapped by simp
  moreover have "exec_op F b root (Unmap v k free) s = Ret () s'"
    using run by (simp only: exec_op.simps vm_unmap_range [OF k])
  moreover have held: "free \<longrightarrow> set ?fs \<subseteq> H"
    unfolding fs using ok by simp
  moreover from this have "reach T (rev (if free then ?fs else []) @ ns) (M', if free then H - set (frames M v k) else H) = reach T ns (M, H)"
    for M' :: aspace
    by (cases free) (auto simp: reach_def fs [symmetric] simp del: set_map)
  moreover have "same_outside (\<Union>(page_bytes ` (ran T \<union> set ns \<union> H))) (mem s) (mem s')"
    by (rule same_outside_mono [where A = "\<Union>(page_bytes ` (ran T \<union> set (if free then ?fs else [])))"])
      (use u held in \<open>auto simp: unmapped_def split: if_splits\<close>)
  ultimately show ?thesis
    using u unfolding simulates_def unmapped_def
    by (simp only: option.case) (intro exI [of _ s'] exI [of _ T] exI [of _ "rev (if free then ?fs else []) @ ns"] exI [of _ 0],
        simp add: reach_def del: set_map)
qed

lemma unmap_simulates_stuck:
  assumes F: "bitflags_spec F" and rep: "space_rep s T ns root (M, H)" and ok: "op_ok (Unmap v k free) (M, H)"
    and stuck: "\<not> (\<forall>i<k. M (v + i) \<noteq> None)"
  shows "simulates F b root (Unmap v k free) s T ns (M, H)"
proof -
  have k: "k < 2 ^ 20"
    using ok by simp
  define j where "j = (LEAST i. M (v + i) = None)"
  obtain i where i: "i < k" "M (v + i) = None"
    using stuck by blast
  have j: "M (v + j) = None" "j \<le> i" "\<forall>i<j. M (v + i) \<noteq> None"
    using i(2) unfolding j_def by (auto intro: LeastI Least_le dest: not_less_Least)
  have "spec_op (Unmap v k free) (M, H) = None"
    unfolding spec_op.simps spec_unmap_ok using stuck by simp
  then show ?thesis
    using unmap_stuck [OF F rep ok _ j(3,1), of b] i(1) j(2) by (simp add: simulates_def vm_unmap_range [OF k] del: spec_op.simps of_nat_mult)
qed

lemma op_simulates:
  assumes "bitflags_spec F" and "space_rep s T ns root A" and "op_ok op A" and "cost op \<le> length ns" and "can_count b s (cost op)"
  shows "simulates F b root op s T ns A"
proof (cases A)
  case A: (Pair M H)
  show ?thesis
  proof (cases op)
    case (Map v f k perms)
    then show ?thesis
      using map_simulates [OF assms(1) assms(2) [unfolded A]] assms(3-5) by (simp add: A)
  next
    case (Unmap v k free)
    then show ?thesis
      using unmap_simulates_mapped [OF assms(1) assms(2) [unfolded A]] unmap_simulates_stuck [OF assms(1) assms(2) [unfolded A]]
        assms(3) by (simp only: A) blast
  qed
qed

lemma run_simulates:
  assumes F: "bitflags_spec F"
  shows "space_rep s T ns root A \<Longrightarrow> run_ok ops A \<Longrightarrow> sum_list (map cost ops) \<le> length ns \<Longrightarrow>
    can_count b s (sum_list (map cost ops)) \<Longrightarrow>
    (case spec_run ops A of
      None \<Rightarrow> \<exists>e. exec_run F b root ops s = Panics e
    | Some A' \<Rightarrow> \<exists>s' T' ns'. exec_run F b root ops s = Ret () s' \<and> space_rep s' T' ns' root A' \<and>
        reach T' ns' A' = reach T ns A \<and> same_outside (\<Union>(page_bytes ` reach T ns A)) (mem s) (mem s'))"
proof (induction ops arbitrary: s T ns A)
  case Nil
  then show ?case
    by (auto simp: ret_apply)
next
  case (Cons op ops)
  have "simulates F b root op s T ns A"
    using Cons.prems can_count_mono [OF Cons.prems(4), of "cost op"] by (intro op_simulates [OF F Cons.prems(1)]) simp_all
  note sim = this [unfolded simulates_def]
  show ?case
  proof (cases "spec_op op A")
    case None
    then show ?thesis
      using sim by (auto simp: bind_def)
  next
    case (Some A')
    then obtain s1 T1 ns1 n where run: "exec_op F b root op s = Ret () s1" and rep: "space_rep s1 T1 ns1 root A'"
      and n: "n \<le> cost op" "length ns \<le> length ns1 + n" "counted s s1 n"
      and in1: "reach T1 ns1 A' = reach T ns A" and out1: "same_outside (\<Union>(page_bytes ` reach T ns A)) (mem s) (mem s1)"
      using sim by auto
    have "can_count b s1 (sum_list (map cost ops))"
      using n(1) by (intro counted_can_count [OF n(3)] can_count_mono [OF Cons.prems(4)]) simp
    then have ih: "case spec_run ops A' of
        None \<Rightarrow> \<exists>e. exec_run F b root ops s1 = Panics e
      | Some A'' \<Rightarrow> \<exists>s' T' ns'. exec_run F b root ops s1 = Ret () s' \<and> space_rep s' T' ns' root A'' \<and>
          reach T' ns' A'' = reach T1 ns1 A' \<and> same_outside (\<Union>(page_bytes ` reach T1 ns1 A')) (mem s1) (mem s')"
      using Cons.prems(2,3) Some n by (intro Cons.IH [OF rep]) simp_all
    have out: "same_outside (\<Union>(page_bytes ` reach T ns A)) (mem s) m"
      if "same_outside (\<Union>(page_bytes ` reach T1 ns1 A')) (mem s1) m" for m
      by (rule same_outside_trans [OF out1 same_outside_mono [OF that]]) (use in1 in blast)
    have "exec_run F b root (op # ops) s = exec_run F b root ops s1"
      by (simp add: bind_def run)
    then show ?thesis
      using ih in1 out Some by (cases "spec_run ops A'") (simp_all del: exec_run.simps split_paired_All, blast)
  qed
qed

section \<open>Properties\<close>

text \<open>
  C2. Page tables refine address spaces: any run of \<^verbatim>\<open>map\<close> and \<^verbatim>\<open>unmap\<close> calls on a page table, with enough pages for
  new tables, panics exactly when the specification refuses a call (mapping a page that is mapped, unmapping one
  that is not), and otherwise returns with tables that translate every address as specified; pages given
  back are in the pool, no frame the owner still holds is in the pool or used as a table, and no page
  is lost: tables, pool and held frames are together the same pages as before.
\<close>
theorem page_tables_refine:
  assumes "bitflags_spec F" and "space_rep s T ns root A" and "run_ok ops A" and "sum_list (map cost ops) \<le> length ns"
    and "can_count b s (sum_list (map cost ops))"
  shows "case spec_run ops A of
      None \<Rightarrow> \<exists>e. exec_run F b root ops s = Panics e
    | Some A' \<Rightarrow> \<exists>s' T' ns'. exec_run F b root ops s = Ret () s' \<and> space_rep s' T' ns' root A' \<and>
        ran T' \<union> set ns' \<union> snd A' = ran T \<union> set ns \<union> snd A"
  using run_simulates [OF assms] unfolding reach_def by (cases "spec_run ops A") (simp_all only: option.case, blast)

text \<open>A held frame mapped, then unmapped and given back to the pool.\<close>

definition demo_ops :: "vm_op list" where
  "demo_ops = [Map 7 9 1 demo_perms, Unmap 7 1 True]"

lemma page_tables_refine_witness:
  "\<exists>(s :: palloc_state) s' T ns. exec_run word_flags Release 8 demo_ops s = Ret () s' \<and>
    space_rep s' T ns 8 (Map.empty, {10}) \<and>
    (\<exists>e. exec_run word_flags Release 8 (demo_ops @ [Unmap 7 1 False]) s = Panics e)"
proof -
  obtain s :: palloc_state where s: "vm_rep s [[] \<mapsto> 8] [7, 6, 5, 4, 3]" "\<forall>v. translate (mem s) [[] \<mapsto> 8] v = None"
    using demo_root by blast
  have rep: "space_rep s [[] \<mapsto> 8] [7, 6, 5, 4, 3] 8 (Map.empty, {9, 10})"
    using s by (auto simp: space_rep_def page_ok_def)
  let ?more = "demo_ops @ [Unmap 7 1 False]"
  have spec: "spec_run demo_ops (Map.empty, {9, 10}) = Some (Map.empty, {10})" "spec_run ?more (Map.empty, {9, 10}) = None"
    and ok: "run_ok demo_ops (Map.empty, {9, 10})" "run_ok ?more (Map.empty, {9, 10})"
    by (auto simp: demo_ops_def frames_def)
  have "sum_list (map cost demo_ops) \<le> length [7, 6, 5, 4, 3]" "sum_list (map cost ?more) \<le> length [7, 6, 5, 4, 3]"
    by (simp_all add: demo_ops_def)
  then show ?thesis
    using page_tables_refine [OF word_flags_spec rep ok(1) _ may_count_release(2), unfolded spec option.case]
      page_tables_refine [OF word_flags_spec rep ok(2) _ may_count_release(2), unfolded spec option.case] by blast
qed

text \<open>
  C8. Address spaces are isolated: a run of \<^verbatim>\<open>map\<close> and \<^verbatim>\<open>unmap\<close> calls on one page table changes no translation of
  another table built from the same pool, whose tables and free pages stay well-formed, and no byte of a page
  that is neither a table of the first, free, nor a frame of its owner.
\<close>
theorem address_spaces_isolated:
  assumes "bitflags_spec F" and "space_rep s T ns root A" and "run_ok ops A" and "sum_list (map cost ops) \<le> length ns"
    and "can_count b s (sum_list (map cost ops))" and "spec_run ops A = Some A'"
    and "vm_rep s U ns" and "ran U \<inter> (ran T \<union> snd A) = {}"
  shows "\<exists>s' T' ns'. exec_run F b root ops s = Ret () s' \<and> space_rep s' T' ns' root A' \<and> vm_rep s' U ns' \<and>
    ran U \<inter> (ran T' \<union> snd A') = {} \<and> (\<forall>u. translate (mem s') U u = translate (mem s) U u) \<and>
    same_outside (\<Union>(page_bytes ` (ran T \<union> set ns \<union> snd A))) (mem s) (mem s')"
proof -
  obtain s' T' ns' where run: "exec_run F b root ops s = Ret () s'" and rep: "space_rep s' T' ns' root A'"
    and sub: "reach T' ns' A' = reach T ns A" and out: "same_outside (\<Union>(page_bytes ` reach T ns A)) (mem s) (mem s')"
    using run_simulates [OF assms(1-5), unfolded assms(6) option.case] by blast
  note u = vm_repD [OF assms(7)]
  have apart: "ran U \<inter> reach T ns A = {}"
    using assms(8) u(4) by (auto simp: reach_def)
  then have bytes: "\<Union>(page_bytes ` reach T ns A) \<inter> page_bytes p = {}" if "p \<in> ran U" for p
    using that page_bytes_apart [of _ p] by fastforce
  have "vm_rep s' U ns'"
    using u(1) leaf_outside(2) [OF out u(1) bytes u(2)] rep apart sub by (auto simp: vm_rep_def space_rep_def reach_def)
  moreover have "ran U \<inter> (ran T' \<union> snd A') = {}"
    using apart sub by (auto simp: reach_def)
  moreover have "translate (mem s') U u = translate (mem s) U u" for u
    using leaf_outside(1) [OF out u(1) bytes] by (simp add: translate_def)
  ultimately show ?thesis
    using run rep out by (auto simp: reach_def)
qed

text \<open>Two root tables from one pool.\<close>

lemma demo_two_roots:
  "\<exists>s :: palloc_state. vm_rep s [[] \<mapsto> 8] [6, 5, 4, 3] \<and> vm_rep s [[] \<mapsto> 7] [6, 5, 4, 3] \<and>
    (\<forall>v. translate (mem s) [[] \<mapsto> 7] v = None)"
proof -
  obtain s :: palloc_state where s: "vm_rep s [[] \<mapsto> 8] [7, 6, 5, 4, 3]"
    using demo_root by blast
  obtain s' :: palloc_state where s': "vm_rep s' [[] \<mapsto> 7] [6, 5, 4, 3]" "same_outside (page_bytes 7) (mem s) (mem s')"
    "\<forall>v. leaf (mem s') [[] \<mapsto> 7] v = 0"
    using init_root [OF word_flags_spec vm_repD(3) [OF s], of Release] by auto
  have apart: "page_bytes 7 \<inter> page_bytes p = {}" if "p \<in> ran [[] \<mapsto> 8]" for p :: nat
    using that by (intro page_bytes_apart) simp
  note t = vm_repD(1,2) [OF s]
  have "vm_rep s' [[] \<mapsto> 8] [6, 5, 4, 3]"
    using t(1) leaf_outside(2) [OF s'(2) t(1) apart t(2)] vm_repD(3) [OF s'(1)] by (simp add: vm_rep_def)
  then show ?thesis
    using s' by (auto simp: translate_def)
qed

lemma address_spaces_isolated_witness:
  "\<exists>(s :: palloc_state) s'. exec_run word_flags Release 7 demo_ops s = Ret () s' \<and>
    (\<forall>u. translate (mem s') [[] \<mapsto> 8] u = translate (mem s) [[] \<mapsto> 8] u)"
proof -
  obtain s :: palloc_state where s: "vm_rep s [[] \<mapsto> 8] [6, 5, 4, 3]" "vm_rep s [[] \<mapsto> 7] [6, 5, 4, 3]"
    "\<forall>v. translate (mem s) [[] \<mapsto> 7] v = None"
    using demo_two_roots by blast
  have rep: "space_rep s [[] \<mapsto> 7] [6, 5, 4, 3] 7 (Map.empty, {9, 10})"
    using s(2,3) by (auto simp: space_rep_def page_ok_def)
  have spec: "spec_run demo_ops (Map.empty, {9, 10}) = Some (Map.empty, {10})" "run_ok demo_ops (Map.empty, {9, 10})"
    "sum_list (map cost demo_ops) \<le> length [6, 5, 4, 3]"
    by (auto simp: demo_ops_def frames_def)
  have "ran [[] \<mapsto> 8 :: nat] \<inter> (ran [[] \<mapsto> 7] \<union> snd (Map.empty :: aspace, {9, 10})) = {}"
    by simp
  then show ?thesis
    using address_spaces_isolated [OF word_flags_spec rep spec(2,3) may_count_release(2) spec(1) s(1)] by blast
qed

end
