(* ===== verification/HoleDebug.thy ===== *)
theory HoleDebug
  imports LinkedListAllocator Printer
begin

text \<open>
  \<^verbatim>\<open>HoleList::debug\<close> of \<^verbatim>\<open>rust/src/hole.rs\<close>, which prints the free list, and \<^verbatim>\<open>Heap::debug\<close> of
  \<^verbatim>\<open>rust/src/linked_list_allocator.rs\<close>. The list head is a field of the
  heap and not a node in memory, so the address its pointer shows is a parameter.
\<close>

section \<open>The code\<close>

text \<open>\<^verbatim>\<open>{:?}\<close> of a raw pointer.\<close>

definition pointer_fmt :: "usize \<Rightarrow> string" where
  "pointer_fmt a = ''0x'' @ lower_hex (unat a)"

definition ref_addr :: "usize \<Rightarrow> hole_ref \<Rightarrow> usize" where
  "ref_addr first_addr r = (case r of Dummy \<Rightarrow> first_addr | At a \<Rightarrow> a)"

definition debug_line :: "usize \<Rightarrow> usize \<Rightarrow> usize \<Rightarrow> usize \<Rightarrow> string list" where
  "debug_line p psize a sz = [''prev: '', pointer_fmt p, ''['', decimal (unat psize), ''], hole: '', pointer_fmt a,
     ''['', decimal (unat sz), '']'']"

partial_function (option) debug_loop ::
  "usize \<Rightarrow> Cursor \<Rightarrow> 'x hole_state_scheme \<Rightarrow> (panic + unit \<times> 'x hole_state_scheme) option" where
  "debug_loop first_addr cursor s =
     bind (Cursor_previous cursor) (\<lambda>p.
     bind (Cursor_current cursor) (\<lambda>h.
     bind (println (debug_line (ref_addr first_addr (c_prev cursor)) (hsize p) (c_hole cursor) (hsize h))) (\<lambda>_.
     bind (Cursor_next cursor) (\<lambda>nxt s.
     (case nxt of
        Some c \<Rightarrow> debug_loop first_addr c s
      | None \<Rightarrow> println [''Done!''] s))))) s"

definition HoleList_debug :: "usize \<Rightarrow> ('x hole_state_scheme, unit) prog" where
  "HoleList_debug first_addr =
     bind HoleList_cursor (\<lambda>c. case c of
       Some cursor \<Rightarrow> debug_loop first_addr cursor
     | None \<Rightarrow> println [''No holes''])"

section \<open>What it prints\<close>

definition line_text :: "string list \<Rightarrow> u8 list" where
  "line_text ps = concat (map str_bytes (ps @ [newline]))"

fun debug_text :: "usize \<Rightarrow> nat \<Rightarrow> region list \<Rightarrow> u8 list" where
  "debug_text p psize [] = line_text [''Done!'']"
| "debug_text p psize ((a, sz) # hs) =
     line_text (debug_line p (word_of_nat psize) (word_of_nat a) (word_of_nat sz)) @ debug_text (word_of_nat a) sz hs"

lemma debug_loop_run:
  "seg (mem s) (Some (word_of_nat a)) ((a, sz) # hs) None \<Longrightarrow> get_hole r s = Ret \<lparr>hsize = word_of_nat psize, hnext = n\<rparr> s \<Longrightarrow>
    debug_loop first_addr \<lparr>c_prev = r, c_hole = word_of_nat a, c_top = tp\<rparr> s =
      Ret () (s\<lparr>uart := uart s @ debug_text (ref_addr first_addr r) psize ((a, sz) # hs)\<rparr>)"
proof (induction hs arbitrary: a sz psize n r s)
  case Nil
  then show ?case
    by (subst debug_loop.simps) (simp add: Cursor_previous_def Cursor_current_def Cursor_next_def get_hole_def bind_def
        println_def print_run line_text_def run_simps split: hole_ref.splits)
next
  case (Cons h hs)
  obtain c u where h: "h = (c, u)"
    by (cases h)
  define t where "t = s\<lparr>uart := uart s @ line_text (debug_line (ref_addr first_addr r) (word_of_nat psize) (word_of_nat a) (word_of_nat sz))\<rparr>"
  have node: "read_hole (mem s) (word_of_nat a) = \<lparr>hsize = word_of_nat sz, hnext = Some (word_of_nat c)\<rparr>"
    and rest: "seg (mem t) (Some (word_of_nat c)) ((c, u) # hs) None"
    using Cons.prems(1) by (auto simp: h t_def intro: Hole.equality)
  have "debug_loop first_addr \<lparr>c_prev = r, c_hole = word_of_nat a, c_top = tp\<rparr> s =
      debug_loop first_addr \<lparr>c_prev = At (word_of_nat a), c_hole = word_of_nat c, c_top = tp\<rparr> t"
    using Cons.prems(2) node
    by (subst debug_loop.simps) (simp add: Cursor_previous_def Cursor_current_def Cursor_next_def get_hole_def bind_def
        println_def print_run line_text_def t_def run_simps split: hole_ref.splits)
  moreover have "get_hole (At (word_of_nat a)) t = Ret \<lparr>hsize = word_of_nat sz, hnext = Some (word_of_nat c)\<rparr> t"
    using node by (simp add: get_hole_def t_def run_simps)
  ultimately show ?case
    using Cons.IH [OF rest, of "At (word_of_nat a)" sz] by (simp add: h t_def ref_addr_def)
qed

lemma HoleList_debug_run:
  assumes "list_rep s lo hi hs"
  shows "HoleList_debug first_addr s = Ret () (s\<lparr>uart := uart s @
    (if hs = [] then line_text [''No holes''] else debug_text first_addr 0 hs)\<rparr>)"
proof (cases hs)
  case Nil
  then show ?thesis
    using list_repD(12) [OF assms] by (simp add: HoleList_debug_def HoleList_cursor_def println_def print_run line_text_def)
next
  case (Cons h hs')
  obtain a sz where h: "h = (a, sz)"
    by (cases h)
  have "hnext (hl_first (holes s)) = Some (word_of_nat a)" "seg (mem s) (Some (word_of_nat a)) ((a, sz) # hs') None"
    using list_repD(12) [OF assms] by (auto simp: Cons h)
  moreover have "get_hole Dummy s = Ret \<lparr>hsize = word_of_nat 0, hnext = hnext (hl_first (holes s))\<rparr> s"
    using list_repD(9) [OF assms] by (simp add: get_hole_def run_simps)
  ultimately show ?thesis
    using debug_loop_run [of s a sz hs' Dummy 0 _ first_addr "hl_top (holes s)"]
    by (simp add: HoleList_debug_def HoleList_cursor_def Cons h ref_addr_def)
qed

section \<open>The heap\<close>

text \<open>What \<^verbatim>\<open>Heap::debug\<close> calls pending is the size field of the list head, not the bytes that wait for the next extension.\<close>

definition Heap_debug :: "('x heap_state_scheme, unit) prog" where
  "Heap_debug =
     bind (gets Heap_bottom) (\<lambda>bottom.
     bind (gets Heap_top) (\<lambda>top.
     bind (gets Heap_size) (\<lambda>sz.
     bind (gets (\<lambda>s. hsize (hl_first (holes s)))) (\<lambda>pending.
     println [''bottom: '', pointer_fmt bottom, '', top: '', pointer_fmt top, '', size: '', decimal (unat sz),
       '', pending: '', decimal (unat pending)]))))"

lemma Heap_debug_run:
  assumes "list_rep s lo hi hs"
  shows "Heap_debug s = Ret () (s\<lparr>uart := uart s @ line_text [''bottom: '', pointer_fmt (word_of_nat lo), '', top: '',
    pointer_fmt (Heap_top s), '', size: '', decimal (hi - lo), '', pending: '', ''0'']\<rparr>)"
proof -
  note r = list_repD [OF assms]
  have "unat (word_of_nat hi - word_of_nat lo :: usize) = hi - lo"
    using r(4,6) by (simp flip: of_nat_diff)
  moreover have "decimal 0 = ''0''"
    by (simp add: decimal.simps hex_digit_def)
  ultimately show ?thesis
    by (simp add: Heap_debug_def Heap_bottom_def Heap_size_def r(7,8,9) println_def print_run line_text_def del: of_nat_diff)
qed

end
