(* ===== verification/Spec2Isabelle.thy ===== *)
theory Spec2Isabelle
  imports System Fixed Screen Process VmRuns HoleDebug
begin

text \<open>
  A model of the DOoOM kernel, the Rust program under \<^verbatim>\<open>rust/src\<close>, and what makes it correct. The kernel
  runs on a 32-bit RISC-V machine (\<^verbatim>\<open>riscv32im\<close>): it starts two allocators, a heap for Rust's
  \<^verbatim>\<open>alloc\<close> crate and a pool of physical pages, has page tables, a process table, a trap handler, a
  serial port and a frame buffer, and runs one user program in a loop.

  \<^bold>\<open>Programs.\<close> A Rust function is a HOL function into \<open>('s, 'a) prog\<close> (theory \<open>Prelude\<close>): from a state to a
  value and a new state (\<open>Ret\<close>), a panic (\<open>Panics\<close>), or no result (\<open>Hangs\<close>). \<^verbatim>\<open>usize\<close> is \<open>32 word\<close>;
  the argument \<open>b\<close> is the build profile, \<open>Dev\<close> with overflow checks and debug assertions or \<open>Release\<close>
  with wrapping arithmetic, and most theorems hold for both. The state is a record that grows with
  the components: \<open>machine\<close> (memory and serial port, \<open>Memory\<close>), \<open>hole_state\<close> (\<open>Hole\<close>), \<open>heap_state\<close>
  (\<open>LinkedListAllocator\<close>), \<open>palloc_state\<close> (\<open>Palloc\<close>), \<open>kernel_state\<close> (\<open>Trap\<close>). A reference is an address;
  a static is a field.

  \<^bold>\<open>Theories and code.\<close>
  \<^item> \<open>Pointer\<close>: \<^verbatim>\<open>pointer.rs\<close>, \<^verbatim>\<open>constant.rs\<close>. \<open>Printer\<close>: \<^verbatim>\<open>printer.rs\<close> and the \<^verbatim>\<open>Debug\<close> impls of addresses.
    \<open>Fixed\<close>: \<^verbatim>\<open>fixed.rs\<close>. \<open>Screen\<close>: \<^verbatim>\<open>screen.rs\<close>.
  \<^item> \<open>HoleLayout\<close> (alignment arithmetic) and \<open>Hole\<close> (cursors, allocation, deallocation, extension):
    \<^verbatim>\<open>hole.rs\<close>. \<open>HoleSpec\<close> has the abstract free list, an ordered list of regions with first fit, carving
    and merging insertion; \<open>HoleList\<close> relates it to the linked nodes in memory; \<open>HoleAlloc\<close>, \<open>HoleFree\<close>
    and \<open>HoleMisuse\<close> prove the operations and the assertions that catch misuse; \<open>HoleInv\<close> the invariant;
    \<open>HoleDebug\<close> models the printer of the list.
  \<^item> \<open>LinkedListAllocator\<close>: \<^verbatim>\<open>linked_list_allocator.rs\<close>, with the ledger of blocks given out and the
    invariant \<open>heap_rep\<close>. \<open>Kalloc\<close>: \<^verbatim>\<open>kalloc.rs\<close>. \<open>Mutex\<close>: \<^verbatim>\<open>mutex.rs\<close>. \<open>Palloc\<close>: \<^verbatim>\<open>palloc.rs\<close>, with the
    invariant \<open>pool_rep\<close> of the list of free pages.
  \<^item> \<open>Entry\<close> (flags, permissions, entries) and \<open>Vm\<close> (tables, \<^verbatim>\<open>walk\<close>, \<^verbatim>\<open>map\<close>, \<^verbatim>\<open>unmap\<close>): \<^verbatim>\<open>vm.rs\<close>. \<open>VmTables\<close> has
    the invariant \<open>vm_rep\<close>, a tree of tables given as a map from index paths to pages, \<open>VmMap\<close> the effect of
    the operations, \<open>VmSpec\<close> the contract: a partial function from virtual to physical pages. \<open>VmRuns\<close> lifts it to whole runs of calls, against a
    specification of address spaces, and to several page tables over one pool.
  \<^item> \<open>Trap\<close>: \<^verbatim>\<open>trap.rs\<close>, \<^verbatim>\<open>handler.rs\<close>. \<open>Process\<close>: \<^verbatim>\<open>process.rs\<close>. \<open>Kernel\<close> (start, loop, panic handler)
    and \<open>Bench\<close> (benchmarks and the turns of \<^verbatim>\<open>user_main\<close>): \<^verbatim>\<open>main.rs\<close>; \<open>System\<close> puts them together, from
    the loader's state to any number of turns of the loop.

  \<^bold>\<open>Interfaces.\<close> The locale \<open>word_store\<close> (\<open>Memory\<close>) gives the laws of word accesses and is interpreted on
  the byte memory. \<open>block_allocator\<close> (\<open>BlockContract\<close>) is the contract between an allocator of blocks and
  its clients; the lemmas about every run of a client are proved in it once. It is interpreted three
  times: on both allocator interfaces of \<^verbatim>\<open>LockedHeap\<close> (\<open>AllocatorClient\<close>) and on the page allocator
  (\<open>Palloc\<close>). \<open>state_field\<close> and \<open>static_mutex\<close> (\<open>Mutex\<close>) are interpreted on the mutex of the page allocator.

  \<^bold>\<open>What is shown.\<close> The heap implements first fit with merging and exact accounting, catches double frees,
  keeps its clients' data, and forgets the order of past calls; the pool hands out every page once and its lock excludes; at boot the
  two never share a byte. Walks terminate on any memory and agree with each other; mapping
  and unmapping are exactly updates of the translation, panic where the code says so, and leave the
  heap alone; runs of them refine address spaces, and page tables over one pool do not disturb each other. The kernel boots to its loop without a panic and never returns; with the user program in the loop, the
  serial output after any number of turns is known to the byte, and the kernel's state is as at boot. The process table is
  well typed, but after a \<^verbatim>\<open>free\<close> it gives one identifier to several processes. Pixels, frame buffer,
  fixed-point numbers, the trap handler and printing have their functional behaviour; the benchmarks
  print what they should. Properties of
  one component stand at the end of its theory, those of the allocator and the ones that span
  components here.

  \<^bold>\<open>Bounds.\<close> A heap region ends at or below \<open>addr_limit\<close> = \<open>0xBFFFFFF8\<close>: with layouts of at most
  \<open>2 ^ 31 - 1\<close> bytes no address computation of \<^verbatim>\<open>hole.rs\<close> then wraps, and the memory of the machine ends
  at \<open>0x82000000\<close>. Pages are numbers between 1 and \<open>2 ^ 20\<close>, where \<open>4096 * n\<close> fits a word and is not
  null. Virtual pages are below \<open>2 ^ 20\<close>. \<open>can_count\<close> says that the allocation counter does not overflow,
  which only a development build checks. Loops that the types do not bound are partial functions with
  \<open>Hangs\<close> as their least value, and the theorems say that they return; there is no fuel.

  \<^bold>\<open>Parameters.\<close> The crate \<^verbatim>\<open>bitflags\<close> is the argument \<open>F\<close> with its documented behaviour \<open>bitflags_spec\<close>, the
  assembly \<^verbatim>\<open>run_user\<close> and the trap registers are \<open>machine_env\<close> (\<open>runs_user_program\<close> says that a call of \<^verbatim>\<open>run_user\<close>
  is a turn of the user program, which ends in its \<^verbatim>\<open>ecall\<close>), addresses of the linker are \<open>image\<close>.
  Single-precision arithmetic is \<open>f32_ops\<close>, exact on small integers by \<open>f32_exact\<close>, and the readings of the
  cycle and instruction counters are arguments of \<open>user_turn\<close>; \<open>user_env\<close> has them turn by turn, with the two
  assembly instructions of \<^verbatim>\<open>user_main\<close>. The address of the list head is an argument of \<open>HoleList_debug\<close>.

  \<^bold>\<open>Not modelled.\<close> The heap memory behind the collections of the benchmarks; the assembly; marker impls; the hardware and the other
  programs of the repository. A panic ends the run: unwinding does not exist in this kernel. The
  code runs on one hart without nested traps, so there is no interleaving; a lock that is taken is
  never released by another thread.
\<close>

section \<open>Concrete inputs of the witnesses\<close>

definition demo_memory :: memory where
  "demo_memory = write_hole (\<lambda>_. 0) 4096 \<lparr>hsize = 64, hnext = None\<rparr>"

text \<open>A heap of 64 bytes at address 4096, and a layout of 12 bytes.\<close>

definition demo_list :: HoleList where
  "demo_list = \<lparr>hl_first = \<lparr>hsize = 0, hnext = Some 4096\<rparr>, hl_bottom = 4096, hl_top = 4160, hl_pending_extend = 0\<rparr>"

definition demo_heap :: heap_state where
  "demo_heap = \<lparr>mem = demo_memory, uart = [], holes = demo_list, used = 0\<rparr>"

definition demo_layout :: Layout where
  "demo_layout = \<lparr>lsize = 12, lalign = 4\<rparr>"

lemma demo_heap_rep: "heap_rep demo_heap 4096 4160 [(4096, 64)] {}"
  by (simp add: heap_rep_def list_rep_def region_ok_def addr_limit_def demo_heap_def demo_list_def demo_memory_def
      ledger_ok_def ledger_bytes_def)

lemma demo_layout_ok [simp]: "layout_ok demo_layout" "fits_layout demo_layout" "block_size demo_layout = 12"
  by (simp_all add: layout_ok_def demo_layout_def max_size_for_align_def fits_layout_def block_size_def aligned_size_def
      align_upn_def)

lemma demo_align [simp]: "unat (lalign demo_layout) = 4"
  by (simp add: demo_layout_def)

lemma demo_alloc [simp]: "list_alloc demo_layout [(4096, 64)] = Some (4096, [(4108, 52)])"
  by (simp add: list_alloc_def carve_def)

lemma demo_allocated:
  "\<exists>s. LockedHeap_alloc b demo_layout demo_heap = Ret 4096 s \<and>
    heap_rep s 4096 4160 [(4108, 52)] {(4096, demo_layout)}"
  using Heap_allocate_run [OF demo_heap_rep demo_layout_ok(1), of b]
  by (auto simp: LockedHeap_alloc_def bind_def alloc_address_def alloc_holes_def alloc_ledger_def run_simps)

section \<open>The allocator\<close>

text \<open>
  C1. Whatever a program does with the global allocator through its interface (allocate with valid
  layouts, free what it holds, write into what it holds), from an initialised heap on: every byte
  it wrote into a block it still holds is there, two blocks it holds never overlap, every block is
  aligned, and no allocation or deallocation it may still ask for panics or hangs.
\<close>
theorem global_allocator_safe:
  assumes "0 < addr" and "addr + sz \<le> addr_limit" and "new_bottom addr + 8 \<le> new_top addr sz"
    and "LockedHeap_init b (word_of_nat addr) (word_of_nat sz) s = Ret () s0"
    and "(client_step (heap_request b) (heap_return b) poke layout_ok user_bytes)\<^sup>*\<^sup>* (s0, {}, Map.empty) (s', L, c)"
  shows "(\<forall>i v. c i = Some v \<longrightarrow> mem s' (word_of_nat i) = v) \<and>
    (\<forall>x\<in>L. \<forall>y\<in>L. x \<noteq> y \<longrightarrow> user_bytes x \<inter> user_bytes y = {}) \<and>
    (\<forall>(a, l)\<in>L. 0 < a \<and> unat (lalign l) dvd a) \<and>
    (\<forall>l. layout_ok l \<longrightarrow> (\<exists>p s''. LockedHeap_alloc b l s' = Ret p s'')) \<and>
    (\<forall>(a, l)\<in>L. \<exists>s''. LockedHeap_dealloc b (word_of_nat a) l s' = Ret () s'')"
proof -
  have own: "heap_owns (new_bottom addr) (new_top addr sz) s0 {}"
    using Heap_init_run [OF assms(1-3), of b s] assms(4) by (auto simp: LockedHeap_init_def heap_owns_def)
  have own': "heap_owns (new_bottom addr) (new_top addr sz) s' L"
    using global_heap.written_kept [OF assms(5) own] by blast
  have "\<exists>p s''. LockedHeap_alloc b l s' = Ret p s''" if "layout_ok l" for l
    using heap_owns_alloc [OF own' that, of b] by blast
  moreover have "\<exists>s''. LockedHeap_dealloc b (word_of_nat a) l s' = Ret () s''" if "(a, l) \<in> L" for a l
    using heap_owns_dealloc [OF own' that, of b] by blast
  ultimately show ?thesis
    using global_heap.written_kept [OF assms(5) own] global_heap.blocks_kept_apart [OF assms(5) own]
      heap_owns_block [OF own']
    by auto
qed

lemma global_allocator_safe_witness:
  "\<exists>s0 s' L c. LockedHeap_init Release 4096 64 demo_heap = Ret () s0 \<and>
    (client_step (heap_request Release) (heap_return Release) poke layout_ok user_bytes)\<^sup>*\<^sup>* (s0, {}, Map.empty) (s', L, c) \<and>
    c 4100 = Some 7 \<and> mem s' 4100 = 7"
proof -
  let ?step = "client_step (heap_request Release) (heap_return Release) poke layout_ok user_bytes"
  have ends: "new_bottom 4096 = 4096" "new_top 4096 64 = 4160"
    by (simp_all add: new_bottom_def new_top_def align_upn_def)
  obtain s0 where s0: "LockedHeap_init Release (word_of_nat 4096) (word_of_nat 64) demo_heap = Ret () s0"
    and rep: "heap_rep s0 4096 4160 [(4096, 64)] {}"
    using Heap_init_run [of 4096 64 Release demo_heap] by (auto simp: ends addr_limit_def LockedHeap_init_def)
  obtain s1 where s1: "heap_request Release demo_layout s0 = Ret (Some (4096, demo_layout)) s1"
    using Heap_allocate_run [OF rep demo_layout_ok(1), of Release]
    by (auto simp: heap_request_def LockedHeap_alloc_def bind_def alloc_address_def run_simps)
  have "?step (s0, {}, Map.empty) (s1, {(4096, demo_layout)}, Map.empty)"
    by (rule client_step.obtained [where q = demo_layout]) (simp_all add: s1)
  moreover have "?step (s1, {(4096, demo_layout)}, Map.empty)
      (poke (word_of_nat 4100) 7 s1, {(4096, demo_layout)}, [4100 \<mapsto> 7])"
    by (rule client_step.wrote) (auto simp: user_bytes_def demo_layout_def)
  ultimately have run: "?step\<^sup>*\<^sup>* (s0, {}, Map.empty)
      (poke (word_of_nat 4100) 7 s1, {(4096, demo_layout)}, [4100 \<mapsto> 7])"
    by (meson converse_rtranclp_into_rtranclp r_into_rtranclp)
  have "mem (poke (word_of_nat 4100) 7 s1) (word_of_nat 4100) = 7"
    using conjunct1 [OF global_allocator_safe [OF _ _ _ s0 run], rule_format, of 4100 7]
    by (simp add: ends addr_limit_def)
  then show ?thesis
    using s0 run by fastforce
qed

text \<open>
  C6. The heap forgets its history: two programs that hold the same blocks of the same heap, whatever they
  allocated and freed before, have the same free list, so every request gives both the same address; and when all
  blocks are given back, the heap is one hole again, without fragmentation.
\<close>
theorem heap_forgets_history:
  assumes "0 < addr" and "addr + sz \<le> addr_limit" and "new_bottom addr + 8 \<le> new_top addr sz"
    and "LockedHeap_init b (word_of_nat addr) (word_of_nat sz) s = Ret () s0"
    and "(client_step (heap_request b) (heap_return b) poke layout_ok user_bytes)\<^sup>*\<^sup>* (s0, {}, Map.empty) (s1, L, c1)"
    and "(client_step (heap_request b) (heap_return b) poke layout_ok user_bytes)\<^sup>*\<^sup>* (s0, {}, Map.empty) (s2, L, c2)"
  shows "\<exists>hs. heap_rep s1 (new_bottom addr) (new_top addr sz) hs L \<and> heap_rep s2 (new_bottom addr) (new_top addr sz) hs L \<and>
    (\<forall>l. layout_ok l \<longrightarrow> (\<exists>t1 t2. Heap_allocate_first_fit b l s1 = Ret (alloc_address l hs) t1 \<and>
      Heap_allocate_first_fit b l s2 = Ret (alloc_address l hs) t2)) \<and>
    (L = {} \<longrightarrow> hs = [(new_bottom addr, new_top addr sz - new_bottom addr)] \<and> used s1 = 0 \<and> used s2 = 0)"
proof -
  let ?lo = "new_bottom addr" and ?hi = "new_top addr sz"
  have own: "heap_owns ?lo ?hi s0 {}"
    using Heap_init_run [OF assms(1-3), of b s] assms(4) by (auto simp: LockedHeap_init_def heap_owns_def)
  obtain hs hs' where rep: "heap_rep s1 ?lo ?hi hs L" "heap_rep s2 ?lo ?hi hs' L"
    using global_heap.written_kept [OF assms(5) own] global_heap.written_kept [OF assms(6) own]
    by (auto simp: heap_owns_def)
  have same: "hs' = hs"
    using heap_rep_canonical [OF rep(2,1) refl] .
  have run: "\<exists>t1 t2. Heap_allocate_first_fit b l s1 = Ret (alloc_address l hs) t1 \<and>
      Heap_allocate_first_fit b l s2 = Ret (alloc_address l hs) t2" if "layout_ok l" for l
    using Heap_allocate_run [OF rep(1) that, of b] Heap_allocate_run [OF rep(2) that, of b] same by blast
  have "hs = [(?lo, ?hi - ?lo)] \<and> used s1 = 0 \<and> used s2 = 0" if "L = {}"
    using heap_rep_empty [OF rep(1) [unfolded that]] heap_rep_empty [OF rep(2) [unfolded that]] by simp
  then show ?thesis
    using rep run unfolding same by blast
qed

lemma heap_forgets_history_witness:
  "\<exists>s0 s1. LockedHeap_init Release 4096 64 demo_heap = Ret () s0 \<and>
    (client_step (heap_request Release) (heap_return Release) poke layout_ok user_bytes)\<^sup>*\<^sup>* (s0, {}, Map.empty) (s1, {}, Map.empty) \<and>
    heap_rep s1 4096 4160 [(4096, 64)] {}"
proof -
  let ?step = "client_step (heap_request Release) (heap_return Release) poke layout_ok user_bytes"
  have ends: "new_bottom 4096 = 4096" "new_top 4096 64 = 4160"
    by (simp_all add: new_bottom_def new_top_def align_upn_def)
  obtain s0 where s0: "LockedHeap_init Release (word_of_nat 4096) (word_of_nat 64) demo_heap = Ret () s0"
    and rep: "heap_rep s0 4096 4160 [(4096, 64)] {}"
    using Heap_init_run [of 4096 64 Release demo_heap] by (auto simp: ends addr_limit_def LockedHeap_init_def)
  obtain s1 where s1: "heap_request Release demo_layout s0 = Ret (Some (4096, demo_layout)) s1"
    and rep1: "heap_rep s1 4096 4160 [(4108, 52)] {(4096, demo_layout)}"
    using Heap_allocate_run [OF rep demo_layout_ok(1), of Release]
    by (auto simp: heap_request_def LockedHeap_alloc_def bind_def alloc_address_def alloc_holes_def alloc_ledger_def run_simps)
  obtain s2 where s2: "heap_return Release (4096, demo_layout) s1 = Ret () s2"
    using Heap_deallocate_run [OF rep1, of 4096 demo_layout Release] by (auto simp: heap_return_def LockedHeap_dealloc_def)
  have "?step (s0, {}, Map.empty) (s1, {(4096, demo_layout)}, Map.empty)"
    by (rule client_step.obtained [where q = demo_layout]) (simp_all add: s1)
  moreover have "?step (s1, {(4096, demo_layout)}, Map.empty) (s2, {(4096, demo_layout)} - {(4096, demo_layout)}, Map.empty |` (- user_bytes (4096, demo_layout)))"
    by (rule client_step.returned) (simp_all add: s2)
  ultimately have run: "?step\<^sup>*\<^sup>* (s0, {}, Map.empty) (s2, {}, Map.empty)"
    by (simp add: converse_rtranclp_into_rtranclp)
  show ?thesis
    using heap_forgets_history [OF _ _ _ s0 run run] s0 run by (auto simp: ends addr_limit_def)
qed

text \<open>
  C4. An allocation on a well-formed heap returns, in both builds: it gives the block first fit
  finds (or an error when there is none), the heap then holds the remaining paddings and has the
  block in its ledger, and only free memory was written.
\<close>
theorem heap_allocate_first_fit:
  assumes "heap_rep s lo hi hs L" and "layout_ok l"
  shows "\<exists>s'. Heap_allocate_first_fit b l s = Ret (alloc_address l hs) s' \<and>
    heap_rep s' lo hi (alloc_holes l hs) (alloc_ledger l hs L) \<and> same_outside (free_bytes hs) (mem s) (mem s')"
  using assms by (rule Heap_allocate_run)

lemma heap_allocate_first_fit_witness:
  "\<exists>s'. Heap_allocate_first_fit Dev demo_layout demo_heap = Ret (Inr 4096) s' \<and>
    heap_rep s' 4096 4160 [(4108, 52)] {(4096, demo_layout)}"
  using heap_allocate_first_fit [OF demo_heap_rep demo_layout_ok(1), of Dev]
  by (auto simp: alloc_address_def alloc_holes_def alloc_ledger_def)

text \<open>
  C5. Giving back a block of the ledger returns, in both builds: no assertion of the list fails, the
  block is free again and merged with the holes it touches, and only free memory and the block
  itself were written.
\<close>
theorem heap_deallocate:
  assumes "heap_rep s lo hi hs L" and "(a, l) \<in> L"
  shows "\<exists>s'. Heap_deallocate b (word_of_nat a) l s = Ret () s' \<and>
    heap_rep s' lo hi (insert_hole (a, block_size l) hs) (L - {(a, l)}) \<and>
    same_outside (free_bytes hs \<union> block_bytes (a, l)) (mem s) (mem s')"
  using assms by (rule Heap_deallocate_run)

lemma heap_deallocate_witness:
  "\<exists>(s :: heap_state) s'. heap_rep s 4096 4160 [(4108, 52)] {(4096, demo_layout)} \<and>
    Heap_deallocate Dev 4096 demo_layout s = Ret () s' \<and> heap_rep s' 4096 4160 [(4096, 64)] {}"
proof -
  obtain s :: heap_state where s: "heap_rep s 4096 4160 [(4108, 52)] {(4096, demo_layout)}"
    using demo_allocated [of Dev] by blast
  show ?thesis
    using heap_deallocate [OF s, of 4096 demo_layout Dev] s by auto
qed

text \<open>
  C13. Allocating and giving back the same block restores the free list, the ledger and the count
  of used bytes.
\<close>
theorem heap_alloc_dealloc:
  assumes "heap_rep s lo hi hs L" and "layout_ok l" and "LockedHeap_alloc b l s = Ret p s'" and "p \<noteq> 0"
  shows "\<exists>s''. LockedHeap_dealloc b p l s' = Ret () s'' \<and> heap_rep s'' lo hi hs L \<and> used s'' = used s"
proof -
  note h = heap_repD [OF assms(1)]
  obtain t where run: "Heap_allocate_first_fit b l s = Ret (alloc_address l hs) t"
    and rep: "heap_rep t lo hi (alloc_holes l hs) (alloc_ledger l hs L)"
    using Heap_allocate_run [OF assms(1,2), of b] by blast
  obtain a hs' where fit: "list_alloc l hs = Some (a, hs')" and p: "p = word_of_nat a" "s' = t"
    using assms(3,4) run
    by (auto simp: LockedHeap_alloc_def bind_def alloc_address_def run_simps split: option.splits)
  have rep': "heap_rep s' lo hi hs' (insert (a, l) L)"
    using rep by (simp add: alloc_holes_def alloc_ledger_def fit p)
  obtain s'' where free: "Heap_deallocate b p l s' = Ret () s''"
    and rep'': "heap_rep s'' lo hi (insert_hole (a, block_size l) hs') (insert (a, l) L - {(a, l)})"
    using Heap_deallocate_run [OF rep', of a l b] by (auto simp: p)
  have "insert_hole (a, block_size l) hs' = hs"
    using list_alloc_insert [OF fit assms(2) h(4)] .
  then have final: "heap_rep s'' lo hi hs L"
    using rep'' ledger_alloc(4) [OF h(2,4) assms(2) fit] by simp
  have "unat (used s'') = unat (used s)"
    using heap_repD(3) [OF final] h(3) by simp
  then have "used s'' = used s"
    by (rule unsigned_word_eqI)
  then show ?thesis
    using free final by (auto simp: LockedHeap_dealloc_def)
qed

lemma heap_alloc_dealloc_witness:
  "\<exists>s' s''. LockedHeap_alloc Release demo_layout demo_heap = Ret 4096 s' \<and>
    LockedHeap_dealloc Release 4096 demo_layout s' = Ret () s'' \<and> heap_rep s'' 4096 4160 [(4096, 64)] {}"
proof -
  obtain s' where "LockedHeap_alloc Release demo_layout demo_heap = Ret 4096 s'"
    using demo_allocated [of Release] by blast
  then show ?thesis
    using heap_alloc_dealloc [OF demo_heap_rep demo_layout_ok(1), of Release 4096 s'] by auto
qed

text \<open>
  C15. A double free is always caught: giving back a block a second time panics, with the assertion
  of the list walk (in a development build possibly the debug assertion just before it).
\<close>
theorem heap_double_free:
  assumes "heap_rep s lo hi hs L" and "(a, l) \<in> L" and "Heap_deallocate b (word_of_nat a) l s = Ret () s'"
  shows "\<exists>c. Heap_deallocate b (word_of_nat a) l s' = Panics (alias_panic b a c)"
proof -
  note h = heap_repD [OF assms(1)] and block = ledger_block [OF heap_repD(2) [OF assms(1)] assms(2)]
  have rep: "heap_rep s' lo hi (insert_hole (a, block_size l) hs) (L - {(a, l)})"
    using Heap_deallocate_run [OF assms(1,2), of b] assms(3) by auto
  obtain c u where "(c, u) \<in> set (insert_hole (a, block_size l) hs)" "a = c \<or> c + 8 \<le> a" "a + block_size l \<le> c + u"
    using insert_hole_home [OF h(4) block(1)] by blast
  then show ?thesis
    using Heap_deallocate_free [OF rep block(2,3)] block(1) by (auto simp: freeable_def)
qed

lemma heap_double_free_witness:
  "\<exists>(s :: heap_state) s' c. heap_rep s 4096 4160 [(4108, 52)] {(4096, demo_layout)} \<and>
    Heap_deallocate Release 4096 demo_layout s = Ret () s' \<and>
    Heap_deallocate Release 4096 demo_layout s' = Panics (alias_panic Release 4096 c)"
proof -
  obtain s :: heap_state where s: "heap_rep s 4096 4160 [(4108, 52)] {(4096, demo_layout)}"
    using demo_allocated [of Release] by blast
  then obtain s' where "Heap_deallocate Release 4096 demo_layout s = Ret () s'"
    using Heap_deallocate_run [OF s, of 4096 demo_layout Release] by auto
  then show ?thesis
    using heap_double_free [OF s, of 4096 demo_layout Release s'] s by auto
qed

text \<open>
  C18. An initialised heap owns every whole word of the memory it is given as one hole, has nothing
  in use, and its top is the end of that memory; only the first node is written.
\<close>
theorem heap_init:
  assumes "0 < addr" and "addr + sz \<le> addr_limit" and "new_bottom addr + 8 \<le> new_top addr sz"
  shows "\<exists>s'. Heap_init b (word_of_nat addr) (word_of_nat sz) s = Ret () s' \<and>
    heap_rep s' (new_bottom addr) (new_top addr sz) [(new_bottom addr, new_top addr sz - new_bottom addr)] {} \<and>
    Heap_top s' = word_of_nat (addr + sz) \<and>
    same_outside {new_bottom addr..<new_bottom addr + 8} (mem s) (mem s')"
  using assms by (rule Heap_init_run)

lemma heap_init_witness:
  "\<exists>s'. Heap_init Dev 4097 70 demo_heap = Ret () s' \<and> heap_rep s' 4100 4164 [(4100, 64)] {} \<and> Heap_top s' = 4167"
  using heap_init [of 4097 70 Dev demo_heap] by (auto simp: new_bottom_def new_top_def align_upn_def addr_limit_def)

text \<open>C19. A region with no room for one whole, aligned node is refused with the assertion that names the reason.\<close>
theorem hole_list_new_too_small:
  assumes "0 < addr" and "addr + sz \<le> addr_limit" and "new_top addr sz < new_bottom addr + 8"
  shows "HoleList_new b (word_of_nat addr) (word_of_nat sz) s = Panics (AssertFailed
    (if sz < 8 then ''hole_size >= size_of Hole'' else ''aligned_hole_size >= size_of Hole''))"
  using assms by (rule HoleList_new_small)

lemma hole_list_new_too_small_witness:
  "HoleList_new Release 4097 10 demo_heap = Panics (AssertFailed ''aligned_hole_size >= size_of Hole'')"
  using hole_list_new_too_small [of 4097 10 Release demo_heap]
  by (simp add: new_bottom_def new_top_def align_upn_def addr_limit_def)

text \<open>
  C17. Extending a heap by \<open>k\<close> bytes makes it own every whole word of them once there is room for a
  node, keeps every block, and keeps the bytes left over as pending, so that no byte is ever lost:
  the top moves by exactly \<open>k\<close>.
\<close>
theorem heap_extend:
  assumes "heap_rep s lo hi hs L" and "p = unat (hl_pending_extend (holes s))"
    and "hi + (p + k) \<le> addr_limit" and "p + k < 2 ^ 31"
  shows "\<exists>s'. Heap_extend b (word_of_nat k) s = Ret () s' \<and>
    heap_rep s' lo (hi + grow_size p k) (grow_holes hi (grow_size p k) hs) L \<and>
    hi + grow_size p k + unat (hl_pending_extend (holes s')) = hi + p + k \<and>
    same_outside (free_bytes hs \<union> {hi..<hi + grow_size p k}) (mem s) (mem s')"
  using Heap_extend_run [OF assms, of b] grow_size_props(3) [of p k] by fastforce

lemma heap_extend_witness:
  "\<exists>s'. Heap_extend Release 22 demo_heap = Ret () s' \<and> heap_rep s' 4096 4180 [(4096, 84)] {}"
  using heap_extend [OF demo_heap_rep, of 0 22 Release]
  by (auto simp: demo_heap_def demo_list_def addr_limit_def grow_size_def grow_holes_def)

text \<open>
  C20. An allocation fails only for want of room: when it returns an error, either the layout is too
  large for any heap or no hole starts at an aligned address with exactly the size of the block or
  with a node to spare.
\<close>
theorem heap_alloc_fails_when_full:
  assumes "heap_rep s lo hi hs L" and "layout_ok l" and "Heap_allocate_first_fit b l s = Ret (Inl ()) s'"
    and "fits_layout l" and "(a, n) \<in> set hs" and "unat (lalign l) dvd a"
  shows "n \<noteq> block_size l \<and> n < block_size l + 8"
proof -
  have "list_alloc l hs = None"
    using Heap_allocate_run [OF assms(1,2), of b] assms(3) by (auto simp: alloc_address_def split: option.splits)
  then have "carve (block_size l) (unat (lalign l)) (a, n) = None"
    using assms(4,5) first_fit_None [of "block_size l" "unat (lalign l)" hs] by (auto simp: list_alloc_def)
  then show ?thesis
    using assms(6) by (auto simp: carve_def split: if_splits)
qed

lemma heap_alloc_fails_when_full_witness:
  "\<exists>s'. Heap_allocate_first_fit Release \<lparr>lsize = 60, lalign = 4\<rparr> demo_heap = Ret (Inl ()) s' \<and>
    64 < block_size \<lparr>lsize = 60, lalign = 4\<rparr> + 8"
proof -
  let ?l = "\<lparr>lsize = 60, lalign = 4\<rparr> :: Layout"
  have l: "layout_ok ?l" "fits_layout ?l" "block_size ?l = 60"
    by (simp_all add: layout_ok_def max_size_for_align_def fits_layout_def block_size_def aligned_size_def align_upn_def)
  obtain s' where "Heap_allocate_first_fit Release ?l demo_heap = Ret (Inl ()) s'"
    using Heap_allocate_run [OF demo_heap_rep l(1), of Release]
    by (auto simp: alloc_address_def list_alloc_def l carve_def)
  then show ?thesis
    using heap_alloc_fails_when_full [OF demo_heap_rep l(1) _ l(2), of Release s' 4096 64] by auto
qed

text \<open>
  C16. The accounting of the heap is exact: \<^verbatim>\<open>free()\<close> does not overflow and is the number of free
  bytes, \<^verbatim>\<open>used()\<close> the number of bytes of the blocks given out, and they add up to \<^verbatim>\<open>size()\<close>.
\<close>
theorem heap_accounting:
  assumes "heap_rep s lo hi hs L"
  shows "Heap_free b s = Ret (word_of_nat (card (free_bytes hs))) s \<and>
    unat (Heap_used s) = card (ledger_bytes L) \<and>
    unat (Heap_size s) = card (free_bytes hs) + card (ledger_bytes L)"
proof -
  note h = heap_repD [OF assms] and r = list_repD [OF heap_repD(1) [OF assms]]
  have region: "free_bytes hs \<subseteq> {lo..<hi}"
    using free_bytes_lower [OF h(4)] free_bytes_upper [OF h(4)] by auto
  then have "card (ledger_bytes L) = hi - lo - free_total hs"
    using h(2) card_Diff_subset [OF _ region] card_free_bytes [OF h(4)] by (simp add: ledger_ok_def)
  then have "card (ledger_bytes L) = unat (used s)"
    using h(3) by simp
  moreover have "Heap_size s = word_of_nat (hi - lo)"
    using r(4,7,8) by (simp add: Heap_size_def)
  moreover from this have "unat (Heap_size s) = hi - lo"
    using h(6) by (simp del: of_nat_diff)
  moreover have "Heap_size s - used s = word_of_nat (free_total hs)"
    using calculation(2) h(3) by (metis add_diff_cancel_left' of_nat_add of_nat_unat ucast_id)
  ultimately show ?thesis
    using h(3) card_free_bytes [OF h(4)] by (simp add: Heap_free_def Heap_used_def run_simps)
qed

lemma heap_accounting_witness:
  "Heap_free Dev demo_heap = Ret 64 demo_heap \<and> Heap_used demo_heap = 0 \<and> Heap_size demo_heap = 64"
  using heap_accounting [OF demo_heap_rep, of Dev]
  by (simp add: ledger_bytes_def demo_heap_def demo_list_def Heap_used_def Heap_size_def)



text \<open>
  C22. The address arithmetic of \<^verbatim>\<open>split_current\<close> is \<open>carve\<close>: below the address limit no step of it
  overflows or panics in either build, and it refuses the hole or places the paddings and the
  block exactly where the abstract list puts them.
\<close>
theorem split_plan_is_carve:
  assumes "is_power_of_two (lalign l)" and "unat (lsize l) + unat (lalign l) \<le> 2 ^ 31"
    and "8 \<le> unat (lsize l)" and "4 dvd unat (lsize l)"
    and "4 dvd a" and "4 dvd sz" and "8 \<le> sz" and "a + sz \<le> addr_limit"
  shows "split_plan b (word_of_nat a) (word_of_nat sz) l s = Ret
    (map_option (\<lambda>(front, p, rear). (map_option info front, word_of_nat p, lsize l, map_option info rear))
      (carve (unat (lsize l)) (unat (lalign l)) (a, sz))) s"
  by (simp add: split_plan_eq [OF assms] run_simps)

lemma split_plan_is_carve_witness:
  "split_plan Dev 4100 64 \<lparr>lsize = 16, lalign = 8\<rparr> () = Ret (Some (Some \<lparr>hi_addr = 4100, hi_size = 12\<rparr>, 4112, 16,
     Some \<lparr>hi_addr = 4128, hi_size = 36\<rparr>)) ()"
  using split_plan_is_carve [of "\<lparr>lsize = 16, lalign = 8\<rparr>" 4100 64 Dev "()"]
  by (simp add: addr_limit_def carve_def align_upn_def info_def)

text \<open>
  \<^verbatim>\<open>align_up\<close> returns the least multiple of the alignment at or above the address, when that
  is an address at all.
\<close>
lemma align_up_least:
  assumes "is_power_of_two al" and "align_upn (unat x) (unat al) < 2 ^ 32"
  shows "\<exists>y. align_up x al s = Ret y s \<and> unat al dvd unat y \<and> unat x \<le> unat y \<and>
    (\<forall>z. unat al dvd z \<and> unat x \<le> z \<longrightarrow> unat y \<le> z)"
  using unat_align_up [OF assms] is_power_of_two_pos [OF assms(1)]
  by (simp add: align_up_eq [OF assms(1)] run_simps align_upn_dvd align_upn_ge align_upn_least)

text \<open>
  C40. Printing the heap returns and changes nothing but the output: the list is printed in order, each hole
  with its address and size behind those of its predecessor. The heap's own line ends with
  \<open>pending: 0\<close> whatever number of bytes waits for the next extension.
\<close>
theorem debug_prints_holes:
  assumes "list_rep s lo hi hs"
  shows "HoleList_debug first_addr s = Ret () (s\<lparr>uart := uart s @
      (if hs = [] then line_text [''No holes''] else debug_text first_addr 0 hs)\<rparr>) \<and>
    Heap_debug s = Ret () (s\<lparr>uart := uart s @ line_text [''bottom: '', pointer_fmt (word_of_nat lo), '', top: '',
      pointer_fmt (Heap_top s), '', size: '', decimal (hi - lo), '', pending: '', ''0'']\<rparr>)"
  using HoleList_debug_run [OF assms] Heap_debug_run [OF assms] by blast

lemma debug_prints_holes_witness:
  "HoleList_debug 0x80200000 demo_heap = Ret () (demo_heap\<lparr>uart := concat (map str_bytes
    [''prev: '', ''0x80200000'', ''['', ''0'', ''], hole: '', ''0x1000'', ''['', ''64'', '']'', newline, ''Done!'', newline])\<rparr>)"
proof -
  have "list_rep demo_heap 4096 4160 [(4096, 64)]" "uart demo_heap = []"
    using demo_heap_rep by (simp_all add: heap_rep_def demo_heap_def)
  then show ?thesis
    using debug_prints_holes [of demo_heap 4096 4160 "[(4096, 64)]" "0x80200000"]
    by (simp add: line_text_def debug_line_def pointer_fmt_def lower_hex.simps decimal.simps hex_digit_def)
qed

section \<open>The heap and the page tables\<close>

lemma paging_only_heap: "paging_only s s' \<Longrightarrow> holes s' = holes s \<and> used s' = used s"
proof -
  assume "paging_only s s'"
  then have s': "s' = s\<lparr>mem := mem s', page_allocator := page_allocator s'\<rparr>"
    by (simp only: paging_only_def)
  show ?thesis
    by (subst (1 2) s') simp
qed

lemma heap_rep_paging:
  assumes "heap_rep s lo hi hs L" and "paging_only s s'" and "same_outside A (mem s) (mem s')" and "A \<inter> {lo..<hi} = {}"
  shows "heap_rep s' lo hi hs L"
proof -
  note h = heap_repD [OF assms(1)]
  have "free_bytes hs \<subseteq> {lo..<hi}"
    using free_bytes_lower [OF h(4)] free_bytes_upper [OF h(4)] by auto
  then have "list_rep s' lo hi hs"
    using list_rep_frame [OF h(1) assms(3)] paging_only_heap [OF assms(2)] assms(4) by blast
  then show ?thesis
    using assms(1) paging_only_heap [OF assms(2)] by (simp add: heap_rep_def)
qed

text \<open>
  C10. Page tables and heap do not disturb each other: while the heap's region shares no byte with the
  tables and the free pages, mapping a range keeps the heap's invariant, its ledger, and every byte of
  its region, so what programs keep in heap blocks survives; and the region stays apart from the
  tables and the pool for the next call.
\<close>
theorem paging_keeps_heap:
  assumes "bitflags_spec F" and "vm_rep s T ns" and "T [] = Some root"
    and "k < 2 ^ 20" and "v + k \<le> 2 ^ 20" and "f + k \<le> 2 ^ 20" and "2 * k \<le> length ns" and "can_count b s (2 * k)"
    and "\<forall>u\<in>{v..<v + k}. translate (mem s) T u = None"
    and "heap_rep s lo hi hs L" and "\<forall>n\<in>ran T \<union> set ns. {lo..<hi} \<inter> page_bytes n = {}"
  shows "\<exists>s' T' ns'. vm_map F b (page root) (virt_page v) (phys_page f) (word_of_nat (4096 * k)) perms s = Ret () s' \<and>
    vm_rep s' T' ns' \<and> heap_rep s' lo hi hs L \<and> (\<forall>x\<in>{lo..<hi}. mem s' (word_of_nat x) = mem s (word_of_nat x)) \<and>
    (\<forall>n\<in>ran T' \<union> set ns'. {lo..<hi} \<inter> page_bytes n = {})"
proof -
  obtain n s' T' where run: "vm_map F b (page root) (virt_page v) (phys_page f) (word_of_nat (4096 * k)) perms s = Ret () s'"
    and m: "moved s T ns n s' T'"
    using vm_map_run [OF assms(1-9)] by blast
  have rep: "vm_rep s' T' (drop n ns)" and pages: "ran T' \<subseteq> ran T \<union> set ns" "set (drop n ns) \<subseteq> set ns"
    and only: "paging_only s s'" and out: "same_outside (\<Union>(page_bytes ` ran T')) (mem s) (mem s')"
    using m set_drop_subset [of n ns] set_take_subset [of n ns] by (auto simp: moved_def)
  have apart: "(\<Union>(page_bytes ` ran T')) \<inter> {lo..<hi} = {}"
    using pages(1) assms(11) by blast
  have "mem s' (word_of_nat x) = mem s (word_of_nat x)" if "x \<in> {lo..<hi}" for x
  proof -
    have "x < 2 ^ 32"
      using that heap_repD(6) [OF assms(10)] list_repD(6) [OF heap_repD(1) [OF assms(10)]] by simp
    moreover have "x \<notin> \<Union>(page_bytes ` ran T')"
      using apart that by blast
    ultimately show ?thesis
      using out by (simp add: same_outside_def)
  qed
  moreover have "heap_rep s' lo hi hs L"
    by (rule heap_rep_paging [OF assms(10) only out apart])
  moreover have "\<forall>n\<in>ran T' \<union> set (drop n ns). {lo..<hi} \<inter> page_bytes n = {}"
    using pages assms(11) by blast
  ultimately show ?thesis
    using run rep by blast
qed

lemma paging_keeps_heap_witness:
  "\<exists>(s :: palloc_state) s' root lo hi hs. vm_map word_flags Release (page root) (virt_page 7) (phys_page 9) 4096 demo_perms s = Ret () s' \<and>
    heap_rep s' lo hi hs {}"
proof -
  let ?kb = "0x80100000 :: nat" and ?s = "demo_pool\<lparr>page_allocator := PAGE_ALLOCATOR\<rparr>"
  let ?lo = "new_bottom ?kb" and ?hi = "new_top ?kb (unat KALLOC_SIZE)"
  have start: "0 < ?kb" "?kb + unat KALLOC_SIZE \<le> addr_limit" "page_allocator ?s = PAGE_ALLOCATOR"
    by (simp_all add: KALLOC_SIZE_def addr_limit_def)
  obtain s1 :: palloc_state where heap: "heap_rep s1 ?lo ?hi [(?lo, ?hi - ?lo)] {}" and pool: "pool_free s1 (rev [pool_first ?kb..<pool_limit])"
    and apart: "\<forall>n\<in>{pool_first ?kb..<pool_limit}. {?lo..<?hi} \<inter> page_bytes n = {}"
    using start_allocators_run [OF start, of Release] by blast
  have len: "length (rev [pool_first ?kb..<pool_limit]) = 254"
    by (simp add: pool_first_def pool_limit_value KALLOC_SIZE_def)
  then obtain n ns where ns: "rev [pool_first ?kb..<pool_limit] = n # ns"
    by (cases "rev [pool_first ?kb..<pool_limit]") auto
  have members: "insert n (set ns) = {pool_first ?kb..<pool_limit}"
    using arg_cong [OF ns, of set] by (simp only: set_rev set_upt list.set)
  have two: "2 \<le> length ns"
    using len unfolding ns by simp
  obtain s2 :: palloc_state where vm: "vm_rep s2 [[] \<mapsto> n] ns" and only: "paging_only s1 s2" and out: "same_outside (page_bytes n) (mem s1) (mem s2)"
    and leaf: "\<forall>v. leaf (mem s2) [[] \<mapsto> n] v = 0"
    using init_root [OF word_flags_spec pool [unfolded ns] may_count_release(1)] by blast
  have "page_bytes n \<inter> {?lo..<?hi} = {}"
    using apart members by blast
  then have heap2: "heap_rep s2 ?lo ?hi [(?lo, ?hi - ?lo)] {}"
    by (rule heap_rep_paging [OF heap only out])
  have apart2: "\<forall>k\<in>ran [[] \<mapsto> n] \<union> set ns. {?lo..<?hi} \<inter> page_bytes k = {}"
    using apart members by auto
  have none: "\<forall>u\<in>{7..<7 + 1}. translate (mem s2) [[] \<mapsto> n] u = None"
    using leaf by (simp add: translate_def)
  obtain s' where "vm_map word_flags Release (page n) (virt_page 7) (phys_page 9) 4096 demo_perms s2 = Ret () s'"
    "heap_rep s' ?lo ?hi [(?lo, ?hi - ?lo)] {}"
    using paging_keeps_heap [OF word_flags_spec vm _ _ _ _ _ _ none heap2 apart2, of n 9 Release demo_perms] two by auto
  then show ?thesis
    by blast
qed

end
